(* ===== verification/Yum_Prelude.thy ===== *)
theory Yum_Prelude
  imports Main "HOL-Library.Word"
begin

text \<open>
  Shared vocabulary of the development: machine integers at the widths the Rust code uses,
  the two ways in which a Rust call can fail (a value \<open>Err e\<close> and a panic), the poll protocol
  of futures 0.1, JSON values, and the generic lemmas on lists, maps and words that the
  component theories share. \<open>usize\<close> is taken at 64 bits, the width of the targets the
  repository is built for.
\<close>

section \<open>Lemma collections\<close>

named_theorems outcome_simps "evaluation of the panic monad"
named_theorems result_simps "evaluation of Result combinators"
named_theorems arith_ops "definitions of the overflow-aware operators"

section \<open>Machine integers and names\<close>

type_synonym u8 = "8 word"
type_synonym u64 = "64 word"
type_synonym usize = "64 word"
type_synonym byte = "8 word"

text \<open>
  A channel (a oneshot or an unbounded mpsc channel of the futures crate) is known to the
  program only by its two handles. A channel is named by its allocation number, and both
  handles carry that name.
\<close>

type_synonym chan = nat

section \<open>Results\<close>

text \<open>\<open>Result<T, E>\<close> is \<open>'e + 't\<close>: \<open>Inl\<close> is \<open>Err\<close>, \<open>Inr\<close> is \<open>Ok\<close>.\<close>

definition and_then :: "'e + 'a \<Rightarrow> ('a \<Rightarrow> 'e + 'b) \<Rightarrow> 'e + 'b" where
  "and_then r f = (case r of Inl e \<Rightarrow> Inl e | Inr x \<Rightarrow> f x)"

definition map_ok :: "('a \<Rightarrow> 'b) \<Rightarrow> 'e + 'a \<Rightarrow> 'e + 'b" where
  "map_ok f r = (case r of Inl e \<Rightarrow> Inl e | Inr x \<Rightarrow> Inr (f x))"

definition map_err :: "('e \<Rightarrow> 'f) \<Rightarrow> 'e + 'a \<Rightarrow> 'f + 'a" where
  "map_err f r = (case r of Inl e \<Rightarrow> Inl (f e) | Inr x \<Rightarrow> Inr x)"

definition ok_or :: "'e \<Rightarrow> 'a option \<Rightarrow> 'e + 'a" where
  "ok_or e m = (case m of None \<Rightarrow> Inl e | Some x \<Rightarrow> Inr x)"

definition is_ok :: "'e + 'a \<Rightarrow> bool" where
  "is_ok r = (case r of Inl _ \<Rightarrow> False | Inr _ \<Rightarrow> True)"

text \<open>\<open>collect::<Result<Vec<_>, _>>()\<close>: the first error wins, otherwise every value in order.\<close>

fun collect_results :: "('e + 'a) list \<Rightarrow> 'e + 'a list" where
  "collect_results [] = Inr []"
| "collect_results (r # rs) = and_then r (\<lambda>x. map_ok (Cons x) (collect_results rs))"

lemma and_then_simps [simp, result_simps]:
  "and_then (Inl e) f = Inl e"
  "and_then (Inr x) f = f x"
  by (simp_all add: and_then_def)

lemma map_ok_simps [simp, result_simps]:
  "map_ok f (Inl e) = Inl e"
  "map_ok f (Inr x) = Inr (f x)"
  by (simp_all add: map_ok_def)

lemma map_err_simps [simp, result_simps]:
  "map_err f (Inl e) = Inl (f e)"
  "map_err f (Inr x) = Inr x"
  by (simp_all add: map_err_def)

lemma ok_or_simps [simp, result_simps]:
  "ok_or e None = Inl e"
  "ok_or e (Some x) = Inr x"
  by (simp_all add: ok_or_def)

lemma is_ok_simps [simp, result_simps]:
  "\<not> is_ok (Inl e)"
  "is_ok (Inr x)"
  by (simp_all add: is_ok_def)

lemma and_then_eq_Inr: "and_then r f = Inr y \<longleftrightarrow> (\<exists>x. r = Inr x \<and> f x = Inr y)"
  by (cases r) auto

lemma map_ok_eq_Inr: "map_ok f r = Inr y \<longleftrightarrow> (\<exists>x. r = Inr x \<and> f x = y)"
  by (cases r) auto

lemma collect_results_Inr: "collect_results rs = Inr xs \<longleftrightarrow> rs = map Inr xs"
proof (induction rs arbitrary: xs)
  case Nil
  then show ?case by auto
next
  case (Cons r rs)
  then show ?case by (cases xs) (auto simp: and_then_eq_Inr map_ok_eq_Inr)
qed

lemma collect_results_Inl:
  "collect_results rs = Inl e \<longleftrightarrow> (\<exists>xs rest. rs = map Inr xs @ Inl e # rest)"
proof (induction rs)
  case Nil
  then show ?case by simp
next
  case (Cons r rs)
  show ?case
  proof (cases r)
    case (Inl e')
    then show ?thesis
      by (auto simp: Cons_eq_append_conv)
  next
    case (Inr x)
    have "collect_results (r # rs) = Inl e \<longleftrightarrow> collect_results rs = Inl e"
      by (simp add: Inr map_ok_def split: sum.split)
    also have "\<dots> \<longleftrightarrow> (\<exists>xs rest. rs = map Inr xs @ Inl e # rest)"
      by (rule Cons.IH)
    also have "\<dots> \<longleftrightarrow> (\<exists>xs rest. r # rs = map Inr xs @ Inl e # rest)"
      by (auto simp: Inr Cons_eq_append_conv Cons_eq_map_conv)
    finally show ?thesis .
  qed
qed

section \<open>Panics\<close>

text \<open>A call that can panic yields an \<open>outcome\<close>; \<open>Panic\<close> is the unwound thread.\<close>

datatype 'a outcome = Panic | Ret 'a

definition obind :: "'a outcome \<Rightarrow> ('a \<Rightarrow> 'b outcome) \<Rightarrow> 'b outcome" where
  "obind m f = (case m of Panic \<Rightarrow> Panic | Ret x \<Rightarrow> f x)"

definition expect :: "'a option \<Rightarrow> 'a outcome" where
  "expect m = (case m of None \<Rightarrow> Panic | Some x \<Rightarrow> Ret x)"

lemma obind_simps [simp, outcome_simps]:
  "obind Panic f = Panic"
  "obind (Ret x) f = f x"
  by (simp_all add: obind_def)

lemma expect_simps [simp, outcome_simps]:
  "expect None = Panic"
  "expect (Some x) = Ret x"
  by (simp_all add: expect_def)

lemma obind_Panic [simp]: "obind m (\<lambda>_. Panic) = Panic"
  by (cases m) simp_all

lemma obind_eq_Ret: "obind m f = Ret y \<longleftrightarrow> (\<exists>x. m = Ret x \<and> f x = Ret y)"
  by (cases m) auto

lemma obind_assoc: "obind (obind m f) g = obind m (\<lambda>x. obind (f x) g)"
  by (cases m) auto

section \<open>Overflow-aware arithmetic\<close>

text \<open>
  Rust's \<open>+\<close>, \<open>-\<close>, \<open>*\<close> on unsigned integers panic on overflow when the crate is built with
  overflow checks (the dev profile) and wrap when it is not (the release profile). The
  Boolean \<open>oc\<close> is that build setting; every theorem is stated for both.
\<close>

definition checked_plus :: "bool \<Rightarrow> 'w::len word \<Rightarrow> 'w word \<Rightarrow> 'w word outcome" where
  [arith_ops]: "checked_plus oc a b =
     (if oc \<and> 2 ^ LENGTH('w) \<le> unat a + unat b then Panic else Ret (a + b))"

definition checked_minus :: "bool \<Rightarrow> 'w::len word \<Rightarrow> 'w word \<Rightarrow> 'w word outcome" where
  [arith_ops]: "checked_minus oc a b = (if oc \<and> a < b then Panic else Ret (a - b))"

definition checked_times :: "bool \<Rightarrow> 'w::len word \<Rightarrow> 'w word \<Rightarrow> 'w word outcome" where
  [arith_ops]: "checked_times oc a b =
     (if oc \<and> 2 ^ LENGTH('w) \<le> unat a * unat b then Panic else Ret (a * b))"

lemma checked_plus_exact:
  fixes a b :: "'w::len word"
  assumes "unat a + unat b < 2 ^ LENGTH('w)"
  shows "checked_plus oc a b = Ret (a + b)" and "unat (a + b) = unat a + unat b"
  using assms by (simp_all add: checked_plus_def unat_word_ariths)

lemma checked_minus_exact:
  fixes a b :: "'w::len word"
  assumes "b \<le> a"
  shows "checked_minus oc a b = Ret (a - b)" and "unat (a - b) = unat a - unat b"
  using assms by (simp_all add: checked_minus_def unat_sub not_less)

lemma checked_times_exact:
  fixes a b :: "'w::len word"
  assumes "unat a * unat b < 2 ^ LENGTH('w)"
  shows "checked_times oc a b = Ret (a * b)" and "unat (a * b) = unat a * unat b"
  using assms by (simp_all add: checked_times_def unat_word_ariths)

text \<open>The half-open range \<open>a..b\<close> over an unsigned type, as the list it iterates over.\<close>

definition word_range :: "'w::len word \<Rightarrow> 'w word \<Rightarrow> 'w word list" where
  "word_range a b = map word_of_nat [unat a..<unat b]"

lemma length_word_range [simp]: "length (word_range a b) = unat b - unat a"
  by (simp add: word_range_def)

lemma unat_word_of_nat_below:
  "n < unat (b :: 'w::len word) \<Longrightarrow> unat (word_of_nat n :: 'w word) = n"
  by (metis le_unat_uoi less_imp_le)

lemma unat_word_of_nat_small:
  "n < 2 ^ LENGTH('w) \<Longrightarrow> unat (word_of_nat n :: 'w::len word) = n"
  by (simp add: unat_of_nat)

lemma set_word_range: "set (word_range a b) = {x. a \<le> x \<and> x < b}"
proof (rule set_eqI)
  fix x :: "'a word"
  have "x \<in> set (word_range a b) \<longleftrightarrow> (\<exists>n. unat a \<le> n \<and> n < unat b \<and> x = word_of_nat n)"
    by (auto simp: word_range_def)
  also have "\<dots> \<longleftrightarrow> unat a \<le> unat x \<and> unat x < unat b"
  proof
    assume "\<exists>n. unat a \<le> n \<and> n < unat b \<and> x = word_of_nat n"
    then show "unat a \<le> unat x \<and> unat x < unat b"
      by (auto simp: unat_word_of_nat_below)
  next
    assume "unat a \<le> unat x \<and> unat x < unat b"
    then show "\<exists>n. unat a \<le> n \<and> n < unat b \<and> x = word_of_nat n"
      by (intro exI [of _ "unat x"]) simp
  qed
  finally show "x \<in> set (word_range a b) \<longleftrightarrow> x \<in> {x. a \<le> x \<and> x < b}"
    by (simp add: word_le_nat_alt word_less_nat_alt)
qed

lemma map_unat_word_range: "map unat (word_range a b) = [unat a..<unat b]"
  by (auto simp: word_range_def unat_word_of_nat_below intro!: map_idI)

lemma distinct_word_range: "distinct (word_range a b)"
  using map_unat_word_range [of a b] by (metis distinct_map distinct_upt)

lemma sorted_word_range: "sorted_wrt (<) (word_range a b)"
proof -
  have "sorted_wrt (<) (map unat (word_range a b))"
    by (simp add: map_unat_word_range)
  then have "sorted_wrt (\<lambda>x y. unat x < unat y) (word_range a b)"
    by (simp add: sorted_wrt_map)
  then show ?thesis by (rule sorted_wrt_mono_rel [rotated]) (simp add: word_less_nat_alt)
qed

section \<open>Polling\<close>

text \<open>\<open>Async<T>\<close> of futures 0.1; \<open>Poll<T, E>\<close> is \<open>Result<Async<T>, E>\<close>.\<close>

datatype 'a async = Ready 'a | NotReady

section \<open>JSON values\<close>

text \<open>
  \<open>serde_json::Value\<close>. The program builds values through \<open>ser\<close> and takes them apart through
  \<open>de\<close>; a number is kept as its decimal text, which the program never looks at.
\<close>

datatype json =
    JNull
  | JBool bool
  | JNumber string
  | JString string
  | JArray "json list"
  | JObject "(string \<times> json) list"

section \<open>Reachability and invariants\<close>

inductive reach :: "('s \<Rightarrow> bool) \<Rightarrow> ('s \<Rightarrow> 's \<Rightarrow> bool) \<Rightarrow> 's \<Rightarrow> bool"
  for start :: "'s \<Rightarrow> bool" and step :: "'s \<Rightarrow> 's \<Rightarrow> bool" where
  reach_start: "start s \<Longrightarrow> reach start step s"
| reach_step: "reach start step s \<Longrightarrow> step s t \<Longrightarrow> reach start step t"

lemma reach_from: "reach P step s \<Longrightarrow> (\<And>x. P x \<Longrightarrow> Q x) \<Longrightarrow> reach Q step s"
  by (induction rule: reach.induct) (auto intro: reach.intros)

text \<open>
  An inductive invariant of a transition system: the two laws are discharged by each
  interpretation, and every reachable state then satisfies the invariant.
\<close>

locale inductive_invariant =
  fixes start :: "'s \<Rightarrow> bool"
    and step :: "'s \<Rightarrow> 's \<Rightarrow> bool"
    and inv :: "'s \<Rightarrow> bool"
  assumes inv_start: "start s \<Longrightarrow> inv s"
    and inv_step: "inv s \<Longrightarrow> step s t \<Longrightarrow> inv t"
begin

lemma inv_reach: "reach start step s \<Longrightarrow> inv s"
  by (induction rule: reach.induct) (auto intro: inv_start inv_step)

lemma inv_steps: "step\<^sup>*\<^sup>* s t \<Longrightarrow> inv s \<Longrightarrow> inv t"
  by (induction rule: rtranclp_induct) (auto intro: inv_step)

end

section \<open>Maps and lists\<close>

definition map_inj :: "('k \<rightharpoonup> 'v) \<Rightarrow> bool" where
  "map_inj m \<longleftrightarrow> (\<forall>i j v. m i = Some v \<longrightarrow> m j = Some v \<longrightarrow> i = j)"

lemma map_injD: "map_inj m \<Longrightarrow> m i = Some v \<Longrightarrow> m j = Some v \<Longrightarrow> i = j"
  unfolding map_inj_def by blast

lemma map_inj_empty [simp]: "map_inj Map.empty"
  by (simp add: map_inj_def)

lemma map_inj_upd: "map_inj m \<Longrightarrow> v \<notin> ran m \<Longrightarrow> map_inj (m(k \<mapsto> v))"
  unfolding map_inj_def by (auto simp: ran_def)

lemma map_inj_delete: "map_inj m \<Longrightarrow> map_inj (m(k := None))"
  unfolding map_inj_def by simp

lemma ran_upd_subset: "ran (m(k \<mapsto> v)) \<subseteq> insert v (ran m)"
  unfolding ran_def by auto

lemma ran_delete_subset: "ran (m(k := None)) \<subseteq> ran m"
  unfolding ran_def by auto

lemma ran_delete:
  assumes "map_inj m" and "m k = Some v"
  shows "ran (m(k := None)) = ran m - {v}"
proof (rule set_eqI)
  fix c
  have "c \<in> ran (m(k := None)) \<longleftrightarrow> (\<exists>j. j \<noteq> k \<and> m j = Some c)"
    unfolding ran_def by auto
  also have "\<dots> \<longleftrightarrow> c \<in> ran m \<and> c \<noteq> v"
  proof
    assume "\<exists>j. j \<noteq> k \<and> m j = Some c"
    then obtain j where j: "j \<noteq> k" "m j = Some c" by blast
    then have "c \<noteq> v" using map_injD [OF assms(1) _ assms(2), of j] by auto
    with j show "c \<in> ran m \<and> c \<noteq> v" by (auto intro: ranI)
  next
    assume "c \<in> ran m \<and> c \<noteq> v"
    then obtain j where "m j = Some c" "c \<noteq> v" by (auto simp: ran_def)
    with assms(2) show "\<exists>j. j \<noteq> k \<and> m j = Some c" by (intro exI [of _ j]) auto
  qed
  finally show "c \<in> ran (m(k := None)) \<longleftrightarrow> c \<in> ran m - {v}" by simp
qed

lemma ran_overwrite:
  assumes "map_inj m" and "m k = Some old"
  shows "ran (m(k \<mapsto> v)) = insert v (ran m - {old})"
proof -
  have "ran ((m(k := None))(k \<mapsto> v)) = insert v (ran (m(k := None)))"
    by (rule ran_map_upd) simp
  with assms show ?thesis by (simp add: ran_delete)
qed

end
