(* ===== verification/Yum_Error.thy ===== *)
theory Yum_Error
  imports Yum_Prelude
begin

text \<open>
  The error type of the crate (\<open>src/error.rs\<close>) and the messages a client hands to a socket
  worker (\<open>SocketRequest\<close> in \<open>src/client/mod.rs\<close>), which one error carries as its payload.

  \<open>error_chain!\<close> wraps an \<open>ErrorKind\<close> and a backtrace into \<open>Error\<close>; only the kind is kept.
  The payload of a foreign error is kept as far as the program looks at it: \<open>Canceled\<close> and
  \<open>RecvError\<close> have one value, an I/O error is its kind, the others are the text they display.
\<close>

section \<open>Messages to a socket worker\<close>

datatype socket_request =
    Text string
  | Binary "byte list"
  | ConnectedStatus chan
  | Ping chan
  | Pong
  | Stop

section \<open>Errors\<close>

datatype io_error = WouldBlock | TimedOut | IoOther string

datatype ws_error = WsIo io_error | WsOther string

datatype error =
    Crossbeam
  | Io io_error
  | Futurs
  | Http string
  | Json string
  | Mpsc socket_request
  | Ws ws_error
  | ParseBigDecimal string
  | HostsUnreachable
  | ClientNotConnected
  | GdaxError
  | BatchRequestError
  | RpcError string
  | SocketTimeout u64
  | ConnectionTimeout
  | ConnectError
  | YumError string

text \<open>
  \<open>description\<close> and \<open>display\<close> of the kinds declared under \<open>errors\<close>. A foreign kind forwards
  to the foreign error, given by \<open>f\<close>; \<open>dec\<close> is the decimal rendering of a \<open>u64\<close>.
\<close>

fun description :: "(error \<Rightarrow> string) \<Rightarrow> error \<Rightarrow> string" where
  "description f HostsUnreachable = ''hosts unreachable error''"
| "description f ClientNotConnected = ''client not connected error''"
| "description f GdaxError = ''problem with gdax api''"
| "description f BatchRequestError = ''batch error''"
| "description f (RpcError e) = ''rpc errpr''"
| "description f (SocketTimeout t) = ''socket timeout error''"
| "description f ConnectionTimeout = ''connection timeout error''"
| "description f ConnectError = ''connect error''"
| "description f (YumError e) = ''ethereyum error''"
| "description f e = f e"

fun display :: "(error \<Rightarrow> string) \<Rightarrow> (u64 \<Rightarrow> string) \<Rightarrow> error \<Rightarrow> string" where
  "display f dec HostsUnreachable = ''Couldn't establish connection, all hosts unreachable''"
| "display f dec ClientNotConnected = ''Request was made of a disconnected client''"
| "display f dec GdaxError = ''GDAX api request failed''"
| "display f dec BatchRequestError = ''error sending batch request''"
| "display f dec (RpcError e) = ''RPC error: '' @ e"
| "display f dec (SocketTimeout t) = ''Couldn't connect to host, socket timed out after: '' @ dec t"
| "display f dec ConnectionTimeout =
     ''Couldn't connect to host, connection timed out after the configured duration''"
| "display f dec ConnectError = ''Host unreachable''"
| "display f dec (YumError e) = ''EthereYUM: '' @ e"
| "display f dec e = f e"

type_synonym 'a rslt = "error + 'a"
type_synonym 'a poll = "error + 'a async"

end
