(* ===== verification/Hex_Codec.thy ===== *)
theory Hex_Codec
  imports Yum_Error
begin

text \<open>
  Decoding of the values a node sends: \<open>de\<close>, \<open>de_u64\<close>, \<open>de_usize\<close> and \<open>ser\<close> of
  \<open>src/yum.rs\<close>, \<open>usize_from_str\<close> of \<open>src/client/mod.rs\<close> and the decoder that
  \<open>OpSet::contract_string_var\<close> of \<open>src/ops/mod.rs\<close> installs, on top of the standard
  library's \<open>from_str_radix\<close>, \<open>chunks\<close> and \<open>str::from_utf8\<close>.

  Parameters, all from other crates: \<open>clean_0x\<close> (fixed-hash), \<open>from_hex\<close> (rustc-serialize)
  and the serde decoders. The predicates named \<open>\<dots>_contract\<close> state what their documentation
  promises.
\<close>

section \<open>Integers from text\<close>

text \<open>\<open>std::num::ParseIntError\<close> and its \<open>Display\<close>.\<close>

datatype parse_int_error = Empty | InvalidDigit | Overflow

fun parse_int_text :: "parse_int_error \<Rightarrow> string" where
  "parse_int_text Empty = ''cannot parse integer from empty string''"
| "parse_int_text InvalidDigit = ''invalid digit found in string''"
| "parse_int_text Overflow = ''number too large to fit in target type''"

text \<open>\<open>char::to_digit(16)\<close>.\<close>

definition to_digit :: "char \<Rightarrow> nat option" where
  "to_digit c =
     (let n = of_char c :: nat in
      if 48 \<le> n \<and> n \<le> 57 then Some (n - 48)
      else if 97 \<le> n \<and> n \<le> 102 then Some (n - 87)
      else if 65 \<le> n \<and> n \<le> 70 then Some (n - 55)
      else None)"

text \<open>
  The digit loop of \<open>from_str_radix(_, 16)\<close> for an unsigned type with \<open>lim\<close> values: a checked
  multiplication, then a checked addition, at every digit.
\<close>

fun radix_loop :: "nat \<Rightarrow> nat \<Rightarrow> string \<Rightarrow> parse_int_error + nat" where
  "radix_loop lim acc [] = Inr acc"
| "radix_loop lim acc (c # cs) =
     (case to_digit c of
        None \<Rightarrow> Inl InvalidDigit
      | Some d \<Rightarrow>
          if lim \<le> acc * 16 then Inl Overflow
          else if lim \<le> acc * 16 + d then Inl Overflow
          else radix_loop lim (acc * 16 + d) cs)"

definition strip_plus :: "string \<Rightarrow> string" where
  "strip_plus s = (case s of [] \<Rightarrow> [] | c # cs \<Rightarrow> if c = CHR ''+'' then cs else s)"

definition from_str_radix16 :: "string \<Rightarrow> parse_int_error + 'w::len word" where
  "from_str_radix16 s =
     (if strip_plus s = [] then Inl Empty
      else map_ok word_of_nat (radix_loop (2 ^ LENGTH('w)) 0 (strip_plus s)))"

text \<open>The value of a digit string, most significant digit first.\<close>

definition hex_value :: "string \<Rightarrow> nat" where
  "hex_value s = foldl (\<lambda>a c. a * 16 + the (to_digit c)) 0 s"

definition is_hex :: "string \<Rightarrow> bool" where
  "is_hex s = list_all (\<lambda>c. to_digit c \<noteq> None) s"

lemma is_hex_simps [simp]:
  "is_hex []"
  "is_hex (c # s) \<longleftrightarrow> to_digit c \<noteq> None \<and> is_hex s"
  "is_hex (s @ t) \<longleftrightarrow> is_hex s \<and> is_hex t"
  by (simp_all add: is_hex_def)

lemma hex_fold_mono:
  "acc \<le> foldl (\<lambda>a c. a * 16 + the (to_digit c)) acc s"
proof (induction s arbitrary: acc)
  case Nil
  then show ?case by simp
next
  case (Cons c s)
  have "acc \<le> acc * 16 + the (to_digit c)" by simp
  also have "\<dots> \<le> foldl (\<lambda>a c. a * 16 + the (to_digit c)) (acc * 16 + the (to_digit c)) s"
    by (rule Cons.IH)
  finally show ?case by simp
qed

lemma radix_loop_Inr:
  "acc < lim \<Longrightarrow> radix_loop lim acc s = Inr n \<longleftrightarrow>
     is_hex s \<and> n = foldl (\<lambda>a c. a * 16 + the (to_digit c)) acc s \<and> n < lim"
proof (induction s arbitrary: acc)
  case Nil
  then show ?case by auto
next
  case (Cons c s)
  show ?case
  proof (cases "to_digit c")
    case None
    then show ?thesis by simp
  next
    case (Some d)
    have mono: "acc * 16 + d \<le> foldl (\<lambda>a c. a * 16 + the (to_digit c)) (acc * 16 + d) s"
      by (rule hex_fold_mono)
    show ?thesis
    proof (cases "acc * 16 + d < lim")
      case True
      with Some Cons.IH [OF True] show ?thesis by auto
    next
      case False
      with Some mono show ?thesis by auto
    qed
  qed
qed

lemma from_str_radix16_Inr:
  fixes w :: "'w::len word"
  shows "from_str_radix16 s = Inr w \<longleftrightarrow>
    strip_plus s \<noteq> [] \<and> is_hex (strip_plus s) \<and> hex_value (strip_plus s) = unat w"
proof -
  have "from_str_radix16 s = Inr w \<longleftrightarrow> strip_plus s \<noteq> [] \<and> is_hex (strip_plus s) \<and>
      (\<exists>n. n = hex_value (strip_plus s) \<and> n < 2 ^ LENGTH('w) \<and> word_of_nat n = w)"
    by (auto simp: from_str_radix16_def map_ok_eq_Inr radix_loop_Inr hex_value_def)
  also have "\<dots> \<longleftrightarrow> strip_plus s \<noteq> [] \<and> is_hex (strip_plus s) \<and> hex_value (strip_plus s) = unat w"
    by (auto simp: unat_of_nat)
  finally show ?thesis .
qed

section \<open>Hexadecimal rendering\<close>

text \<open>The digits a node writes: lower case, no leading zero, \<open>0\<close> for zero.\<close>

definition hex_char :: "nat \<Rightarrow> char" where
  "hex_char d = char_of (if d < 10 then 48 + d else 87 + d)"

fun hex_digits :: "nat \<Rightarrow> string" where
  "hex_digits n = (if n < 16 then [hex_char n] else hex_digits (n div 16) @ [hex_char (n mod 16)])"

declare hex_digits.simps [simp del]

definition hex_bytes :: "byte list \<Rightarrow> string" where
  "hex_bytes bs = concat (map (\<lambda>b. [hex_char (unat b div 16), hex_char (unat b mod 16)]) bs)"

lemma to_digit_hex_char [simp]: "d < 16 \<Longrightarrow> to_digit (hex_char d) = Some d"
  by (auto simp: to_digit_def hex_char_def Let_def)

lemma hex_char_not_plus [simp]: "d < 16 \<Longrightarrow> hex_char d \<noteq> CHR ''+''"
  using to_digit_hex_char [of d] by (auto simp: to_digit_def)

lemma hex_digits_props:
  "hex_digits n \<noteq> [] \<and> is_hex (hex_digits n) \<and> hd (hex_digits n) \<noteq> CHR ''+'' \<and>
   hex_value (hex_digits n) = n"
proof (induction n rule: hex_digits.induct)
  case (1 n)
  show ?case
  proof (cases "n < 16")
    case True
    then show ?thesis by (simp add: hex_digits.simps [of n] hex_value_def)
  next
    case False
    with 1 show ?thesis by (simp add: hex_digits.simps [of n] hex_value_def)
  qed
qed

lemma strip_plus_other: "s \<noteq> [] \<Longrightarrow> hd s \<noteq> CHR ''+'' \<Longrightarrow> strip_plus s = s"
  by (cases s) (auto simp: strip_plus_def)

lemma strip_plus_hex_digits [simp]: "strip_plus (hex_digits n) = hex_digits n"
  using hex_digits_props by (intro strip_plus_other) auto

section \<open>The serde entry points\<close>

text \<open>
  \<open>clean_0x\<close> of fixed-hash; \<open>serde_json::from_value::<String>\<close> with the text of its error;
  the text serde gives to \<open>de::Error::custom\<close>; \<open>from_hex\<close> of rustc-serialize.
\<close>

record codec =
  clean_0x :: "string \<Rightarrow> string"
  string_from_value :: "json \<Rightarrow> string + string"
  custom_text :: "string \<Rightarrow> string"
  from_hex :: "string \<Rightarrow> byte list option"

definition clean_0x_contract :: "(string \<Rightarrow> string) \<Rightarrow> bool" where
  "clean_0x_contract c \<longleftrightarrow> (\<forall>s. c (''0x'' @ s) = s) \<and> (\<forall>s. take 2 s \<noteq> ''0x'' \<longrightarrow> c s = s)"

definition string_contract :: "(json \<Rightarrow> string + string) \<Rightarrow> bool" where
  "string_contract f \<longleftrightarrow> (\<forall>s. f (JString s) = Inr s)"

definition from_hex_contract :: "(string \<Rightarrow> byte list option) \<Rightarrow> bool" where
  "from_hex_contract f \<longleftrightarrow> (\<forall>bs. f (hex_bytes bs) = Some bs)"

lemma clean_0x_contractD [simp]: "clean_0x_contract c \<Longrightarrow> c (CHR ''0'' # CHR ''x'' # s) = s"
  unfolding clean_0x_contract_def by (metis append_Cons append_Nil)

text \<open>\<open>de::<T>\<close>, for a serde decoder given as \<open>f\<close>.\<close>

definition de :: "(json \<Rightarrow> string + 't) \<Rightarrow> json \<Rightarrow> 't rslt" where
  "de f v = map_err Json (f v)"

text \<open>\<open>de_u64\<close>, for the decoder of \<open>U256\<close> and its \<open>low_u64\<close>.\<close>

definition de_u64 :: "(json \<Rightarrow> string + 'u) \<Rightarrow> ('u \<Rightarrow> u64) \<Rightarrow> json \<Rightarrow> u64 rslt" where
  "de_u64 de_u256 low_u64 v = map_ok low_u64 (de de_u256 v)"

definition de_usize :: "codec \<Rightarrow> json \<Rightarrow> usize rslt" where
  "de_usize K v =
     and_then (de (string_from_value K) v) (\<lambda>n.
       map_err (\<lambda>_. YumError ''Couldn't parse usize'') (from_str_radix16 (clean_0x K n)))"

text \<open>\<open>usize_from_str\<close>, after \<open>String::deserialize\<close> has produced \<open>s\<close>.\<close>

definition usize_from_str :: "codec \<Rightarrow> string \<Rightarrow> string + usize" where
  "usize_from_str K s =
     map_err (\<lambda>e. custom_text K (parse_int_text e)) (from_str_radix16 (clean_0x K s))"

section \<open>Strings returned by contracts\<close>

text \<open>\<open>slice::chunks(n)\<close> for a positive \<open>n\<close>: the last chunk may be shorter.\<close>

function chunks :: "nat \<Rightarrow> 'a list \<Rightarrow> 'a list list" where
  "chunks n xs = (if n = 0 \<or> xs = [] then [] else take n xs # chunks n (drop n xs))"
  by pat_completeness auto
termination
  by (relation "measure (\<lambda>(n, xs). length xs)") auto

declare chunks.simps [simp del]

definition last_opt :: "'a list \<Rightarrow> 'a option" where
  "last_opt xs = (if xs = [] then None else Some (last xs))"

text \<open>\<open>str::from_utf8\<close> accepts exactly the well-formed UTF-8 byte sequences.\<close>

definition in_range :: "nat \<Rightarrow> nat \<Rightarrow> byte \<Rightarrow> bool" where
  "in_range lo hi b \<longleftrightarrow> lo \<le> unat b \<and> unat b \<le> hi"

abbreviation cont :: "byte \<Rightarrow> bool" where
  "cont \<equiv> in_range 128 191"

fun utf8_valid :: "byte list \<Rightarrow> bool" where
  "utf8_valid [] = True"
| "utf8_valid (b # bs) =
     (if unat b < 128 then utf8_valid bs
      else if in_range 194 223 b then
        (case bs of c1 # r \<Rightarrow> cont c1 \<and> utf8_valid r | _ \<Rightarrow> False)
      else if in_range 224 239 b then
        (case bs of
           c1 # c2 # r \<Rightarrow>
             in_range (if unat b = 224 then 160 else 128) (if unat b = 237 then 159 else 191) c1 \<and>
             cont c2 \<and> utf8_valid r
         | _ \<Rightarrow> False)
      else if in_range 240 244 b then
        (case bs of
           c1 # c2 # c3 # r \<Rightarrow>
             in_range (if unat b = 240 then 144 else 128) (if unat b = 244 then 143 else 191) c1 \<and>
             cont c2 \<and> cont c3 \<and> utf8_valid r
         | _ \<Rightarrow> False)
      else False)"

text \<open>A Rust string is its UTF-8 bytes; a \<open>char\<close> of the model is one byte.\<close>

definition bytes_text :: "byte list \<Rightarrow> string" where
  "bytes_text bs = map (\<lambda>b. char_of (unat b)) bs"

definition contract_string :: "codec \<Rightarrow> json \<Rightarrow> string rslt" where
  "contract_string K v =
     and_then (de (string_from_value K) v) (\<lambda>s.
       and_then
         (ok_or (YumError (''Couldn't parse string: '' @ s))
           (Option.bind (last_opt (chunks 64 (clean_0x K s))) (from_hex K)))
         (\<lambda>r. let r' = filter (\<lambda>x. x \<noteq> 0) r in
            if utf8_valid r' then Inr (bytes_text r')
            else Inl (YumError (''Couldn't parse string: '' @ s))))"

subsection \<open>Chunks\<close>

lemma chunks_unfold:
  "0 < n \<Longrightarrow> xs \<noteq> [] \<Longrightarrow> chunks n xs = take n xs # chunks n (drop n xs)"
  by (simp add: chunks.simps [of n])

lemma chunks_Nil [simp]: "chunks n [] = []"
  by (simp add: chunks.simps [of n])

lemma last_opt_Cons: "xs \<noteq> [] \<Longrightarrow> last_opt (x # xs) = last_opt xs"
  by (simp add: last_opt_def)

lemma chunks_not_Nil: "0 < n \<Longrightarrow> xs \<noteq> [] \<Longrightarrow> chunks n xs \<noteq> []"
  by (simp add: chunks_unfold)

lemma last_chunk:
  "0 < n \<Longrightarrow> xs \<noteq> [] \<Longrightarrow>
     last_opt (chunks n xs) = Some (drop (n * ((length xs - 1) div n)) xs)"
proof (induction xs rule: length_induct)
  case (1 xs)
  show ?case
  proof (cases "length xs \<le> n")
    case True
    have "length xs - 1 < n" using True "1.prems" by (cases xs) auto
    then have "(length xs - 1) div n = 0" by simp
    with True "1.prems" show ?thesis by (simp add: chunks_unfold last_opt_def)
  next
    case False
    define ys where "ys = drop n xs"
    have ne: "ys \<noteq> []" and len: "length ys < length xs" and sum: "length xs - 1 = n + (length ys - 1)"
      using False "1.prems" by (auto simp: ys_def)
    have div: "(length xs - 1) div n = Suc ((length ys - 1) div n)"
      unfolding sum using "1.prems"(1) by (simp add: div_add_self1)
    have "last_opt (chunks n xs) = last_opt (chunks n ys)"
      using "1.prems" ne by (simp add: chunks_unfold [of n xs] last_opt_Cons chunks_not_Nil ys_def)
    also have "\<dots> = Some (drop (n * ((length ys - 1) div n)) ys)"
      using "1.IH" len ne "1.prems"(1) by blast
    also have "\<dots> = Some (drop (n * ((length xs - 1) div n)) xs)"
      unfolding div by (simp add: ys_def ac_simps)
    finally show ?thesis .
  qed
qed

lemma length_hex_bytes [simp]: "length (hex_bytes bs) = 2 * length bs"
  by (induction bs) (simp_all add: hex_bytes_def)

lemma drop_hex_bytes: "drop (2 * k) (hex_bytes bs) = hex_bytes (drop k bs)"
proof (induction bs arbitrary: k)
  case Nil
  then show ?case by (simp add: hex_bytes_def)
next
  case (Cons b bs)
  then show ?case by (cases k) (simp_all add: hex_bytes_def)
qed

lemma hex_bytes_Nil [simp]: "hex_bytes bs = [] \<longleftrightarrow> bs = []"
  by (cases bs) (simp_all add: hex_bytes_def)

lemma last_chunk_hex_bytes:
  assumes "bs \<noteq> []"
  shows "last_opt (chunks 64 (hex_bytes bs)) = Some (hex_bytes (drop (32 * ((length bs - 1) div 32)) bs))"
proof -
  have "(2 * Suc m - 1) div 64 = m div 32" for m :: nat
    using div_mult2_eq [of "2 * Suc m - 1" 2 32] by simp
  from this [of "length bs - 1"] have "(2 * length bs - 1) div 64 = (length bs - 1) div 32"
    using assms by simp
  then have "64 * ((length (hex_bytes bs) - 1) div 64) = 2 * (32 * ((length bs - 1) div 32))"
    by simp
  moreover have "last_opt (chunks 64 (hex_bytes bs)) =
      Some (drop (64 * ((length (hex_bytes bs) - 1) div 64)) (hex_bytes bs))"
    using assms by (intro last_chunk) simp_all
  ultimately show ?thesis by (simp only: drop_hex_bytes)
qed

subsection \<open>The ABI encoding of a string result\<close>

text \<open>
  What an \<open>eth_call\<close> of a method returning \<open>string\<close> gives back: the offset 32, the length, and
  the bytes padded with zeros to a multiple of 32.
\<close>

definition abi_word :: "nat \<Rightarrow> byte list" where
  "abi_word n = rev (map (\<lambda>i. word_of_nat (n div 256 ^ i mod 256)) [0..<32])"

definition abi_pad :: "nat \<Rightarrow> nat" where
  "abi_pad n = (32 - n mod 32) mod 32"

definition abi_string :: "byte list \<Rightarrow> byte list" where
  "abi_string bs =
     abi_word 32 @ abi_word (length bs) @ bs @ replicate (abi_pad (length bs)) 0"

definition string_tail :: "byte list \<Rightarrow> byte list" where
  "string_tail bs = drop (32 * ((length bs - 1) div 32)) bs"

lemma abi_pad_Suc: "abi_pad (Suc m) = 31 - m mod 32"
proof -
  have "m mod 32 < 32" by simp
  then show ?thesis
    by (cases "Suc (m mod 32) = 32") (simp_all add: abi_pad_def mod_Suc)
qed

lemma abi_pad_div: "(Suc m + abi_pad (Suc m) - 1) div 32 = m div 32"
proof -
  have "m mod 32 < 32" by simp
  then have "Suc m + abi_pad (Suc m) - 1 = 31 + 32 * (m div 32)"
    using mult_div_mod_eq [of 32 m] unfolding abi_pad_Suc by linarith
  then show ?thesis by simp
qed

lemma length_abi_word [simp]: "length (abi_word n) = 32"
  by (simp add: abi_word_def)

lemma abi_word_0: "abi_word 0 = replicate 32 0"
  by (simp add: abi_word_def map_replicate_const rev_replicate)

lemma abi_string_not_Nil [simp]: "abi_string bs \<noteq> []"
  unfolding abi_string_def by (metis append_is_Nil_conv length_0_conv length_abi_word zero_neq_numeral)

lemma filter_last_chunk_abi:
  assumes "0 \<notin> set bs"
  shows "filter (\<lambda>x. x \<noteq> 0)
    (drop (32 * ((length (abi_string bs) - 1) div 32)) (abi_string bs)) = string_tail bs"
proof (cases "bs = []")
  case True
  then show ?thesis
    by (simp add: abi_string_def abi_pad_def abi_word_0 string_tail_def)
next
  case False
  define k where "k = (length bs - 1) div 32"
  have "(Suc m + abi_pad (Suc m) - 1) div 32 = m div 32" for m
    by (rule abi_pad_div)
  from this [of "length bs - 1"] have "(length bs + abi_pad (length bs) - 1) div 32 = k"
    using False by (simp add: k_def)
  then have "(length (abi_string bs) - 1) div 32 = k + 2"
    using False by (cases bs) (simp_all add: abi_string_def)
  then have "drop (32 * ((length (abi_string bs) - 1) div 32)) (abi_string bs) =
      drop (32 * k) bs @ drop (32 * k - length bs) (replicate (abi_pad (length bs)) 0)"
    by (simp add: abi_string_def algebra_simps)
  moreover have "filter (\<lambda>x. x \<noteq> 0) (drop (32 * k) bs) = drop (32 * k) bs"
    using assms by (auto simp: filter_id_conv dest: in_set_dropD)
  ultimately show ?thesis by (simp add: string_tail_def k_def)
qed

text \<open>What the installed decoder makes of an encoded string, whatever its length.\<close>

lemma contract_string_abi:
  assumes "clean_0x_contract (clean_0x K)" and "string_contract (string_from_value K)"
    and "from_hex_contract (from_hex K)" and "0 \<notin> set bs"
  shows "contract_string K (JString (''0x'' @ hex_bytes (abi_string bs))) =
    (if utf8_valid (string_tail bs) then Inr (bytes_text (string_tail bs))
     else Inl (YumError (''Couldn't parse string: '' @ ''0x'' @ hex_bytes (abi_string bs))))"
  using assms(1-3) filter_last_chunk_abi [OF assms(4)]
  by (simp add: contract_string_def de_def string_contract_def from_hex_contract_def
      last_chunk_hex_bytes Let_def)

section \<open>A codec that meets the contracts\<close>

text \<open>Concrete functions for the parameters, with the promised behaviour.\<close>

fun ref_from_hex :: "string \<Rightarrow> byte list option" where
  "ref_from_hex [] = Some []"
| "ref_from_hex [c] = None"
| "ref_from_hex (c # d # s) =
     (case (to_digit c, to_digit d, ref_from_hex s) of
        (Some x, Some y, Some bs) \<Rightarrow> Some (word_of_nat (16 * x + y) # bs)
      | _ \<Rightarrow> None)"

definition ref_codec :: codec where
  "ref_codec =
     \<lparr>clean_0x = (\<lambda>s. if take 2 s = ''0x'' then drop 2 s else s),
      string_from_value = (\<lambda>v. case v of JString s \<Rightarrow> Inr s | _ \<Rightarrow> Inl ''invalid type''),
      custom_text = (\<lambda>s. s),
      from_hex = ref_from_hex\<rparr>"

lemma ref_from_hex_hex_bytes: "ref_from_hex (hex_bytes bs) = Some bs"
proof (induction bs)
  case Nil
  then show ?case by (simp add: hex_bytes_def)
next
  case (Cons b bs)
  have "unat b < 256" using unsigned_less [of b] by simp
  then have "unat b div 16 < 16" by (simp add: div_less_iff_less_mult)
  with Cons show ?case by (simp add: hex_bytes_def)
qed

lemma ref_codec_contracts:
  "clean_0x_contract (clean_0x ref_codec)"
  "string_contract (string_from_value ref_codec)"
  "from_hex_contract (from_hex ref_codec)"
  by (auto simp: ref_codec_def clean_0x_contract_def string_contract_def from_hex_contract_def
      ref_from_hex_hex_bytes)

section \<open>Properties\<close>

text \<open>
  C33: Which texts are an id. Given that serde decodes a JSON string to its text, \<open>de_usize\<close>
  accepts a JSON string exactly when its text without the prefix (and without an optional
  plus sign) is a non-empty sequence of hexadecimal digits whose value fits in 64 bits, and
  then yields that value: it never wraps around and never accepts a partial parse.
\<close>

theorem de_usize_accepts:
  assumes "string_contract (string_from_value K)"
  shows "de_usize K (JString s) = Inr n \<longleftrightarrow>
    (let d = strip_plus (clean_0x K s) in d \<noteq> [] \<and> is_hex d \<and> hex_value d = unat n)"
  using assms
  by (cases "from_str_radix16 (clean_0x K s) :: parse_int_error + usize")
    (auto simp: de_usize_def de_def string_contract_def Let_def
      from_str_radix16_Inr [symmetric])

theorem de_usize_accepts_witness:
  "de_usize ref_codec (JString ''0x1f'') = Inr 31"
  unfolding de_usize_accepts [OF ref_codec_contracts(2)]
  by (simp add: ref_codec_def strip_plus_def hex_value_def to_digit_def)

text \<open>
  Round trip of ids: every 64-bit id, written the way a node writes quantities (the prefix
  and lower-case digits without leading zeros), is read back unchanged by \<open>de_usize\<close> (the id
  of a new subscription) and by \<open>usize_from_str\<close> (the id in a notification), so both sides
  of the subscription table use the same key.
\<close>

lemma subscription_id_roundtrip:
  assumes "string_contract (string_from_value K)" and "clean_0x_contract (clean_0x K)"
  shows "de_usize K (JString (''0x'' @ hex_digits (unat n))) = Inr n \<and>
    usize_from_str K (''0x'' @ hex_digits (unat n)) = Inr n"
proof -
  have "from_str_radix16 (hex_digits (unat n)) = Inr n"
    using hex_digits_props [of "unat n"] by (simp add: from_str_radix16_Inr)
  with assms show ?thesis
    by (simp add: de_usize_def usize_from_str_def de_def string_contract_def)
qed

text \<open>
  Strings of contracts, up to 32 bytes. The ABI encoding of a string of at most 32 bytes
  that is well-formed UTF-8 without NUL is decoded to exactly that string by the decoder of
  \<open>contract_string_var\<close> (token names and symbols).
\<close>

lemma contract_string_short:
  assumes "clean_0x_contract (clean_0x K)" and "string_contract (string_from_value K)"
    and "from_hex_contract (from_hex K)"
    and "length bs \<le> 32" and "0 \<notin> set bs" and "utf8_valid bs"
  shows "contract_string K (JString (''0x'' @ hex_bytes (abi_string bs))) = Inr (bytes_text bs)"
proof -
  have "(length bs - 1) div 32 = 0" using assms(4) by simp
  then have "string_tail bs = bs" by (simp add: string_tail_def)
  with contract_string_abi [OF assms(1-3,5)] assms(6) show ?thesis by simp
qed

text \<open>
  Strings of contracts, beyond 32 bytes. The decoder keeps only the last 32-byte word of
  the encoding: a longer string of ASCII characters is decoded, without an error, to its last
  \<open>(n - 1) mod 32 + 1\<close> bytes, so everything before the last word is lost.
\<close>

lemma contract_string_truncates:
  assumes "clean_0x_contract (clean_0x K)" and "string_contract (string_from_value K)"
    and "from_hex_contract (from_hex K)"
    and "32 < length bs" and "list_all (\<lambda>b. b \<noteq> 0 \<and> unat b < 128) bs"
  shows "\<exists>t. contract_string K (JString (''0x'' @ hex_bytes (abi_string bs))) = Inr t \<and>
    length t = (length bs - 1) mod 32 + 1 \<and>
    t = drop (32 * ((length bs - 1) div 32)) (bytes_text bs) \<and> length t < length bs"
proof -
  have ascii: "list_all (\<lambda>b. unat b < 128) xs \<Longrightarrow> utf8_valid xs" for xs
    by (induction xs) simp_all
  have "list_all (\<lambda>b. unat b < 128) (string_tail bs)"
    using assms(5) by (auto simp: string_tail_def list_all_iff dest: in_set_dropD)
  then have valid: "utf8_valid (string_tail bs)" by (rule ascii)
  have "0 \<notin> set bs" using assms(5) by (auto simp: list_all_iff)
  from contract_string_abi [OF assms(1-3) this] valid
  have "contract_string K (JString (''0x'' @ hex_bytes (abi_string bs))) =
      Inr (bytes_text (string_tail bs))" by simp
  moreover have "length bs - 32 * ((length bs - 1) div 32) = (length bs - 1) mod 32 + 1"
    using assms(4) mult_div_mod_eq [of 32 "length bs - 1"] by linarith
  moreover have "(length bs - 1) mod 32 + 1 < length bs"
    using assms(4) mod_less_divisor [of 32 "length bs - 1"] by linarith
  ultimately show ?thesis
    by (simp add: string_tail_def bytes_text_def drop_map)
qed

text \<open>
  C34: Names and symbols of tokens. The ABI encoding of a string is decoded to its last 32-byte
  word: a string of at most 32 bytes that is well-formed UTF-8 without NUL comes back exactly,
  and of a longer string of ASCII characters only the last \<open>(n - 1) mod 32 + 1\<close> bytes come back,
  without an error.
\<close>

theorem contract_string_last_word:
  assumes "clean_0x_contract (clean_0x K)" and "string_contract (string_from_value K)"
    and "from_hex_contract (from_hex K)"
    and "if length bs \<le> 32 then 0 \<notin> set bs \<and> utf8_valid bs else list_all (\<lambda>b. b \<noteq> 0 \<and> unat b < 128) bs"
  shows "\<exists>t. contract_string K (JString (''0x'' @ hex_bytes (abi_string bs))) = Inr t \<and>
    (if length bs \<le> 32 then t = bytes_text bs
     else t = drop (32 * ((length bs - 1) div 32)) (bytes_text bs) \<and>
       length t = (length bs - 1) mod 32 + 1 \<and> length t < length bs)"
proof (cases "length bs \<le> 32")
  case True
  with contract_string_short [OF assms(1-3) True] assms(4) show ?thesis by simp
next
  case False
  with contract_string_truncates [OF assms(1-3), of bs] assms(4) show ?thesis by auto
qed

theorem contract_string_last_word_witness:
  "contract_string ref_codec (JString (''0x'' @ hex_bytes (abi_string [84, 82, 88]))) = Inr ''TRX'' \<and>
   contract_string ref_codec (JString (''0x'' @ hex_bytes (abi_string (replicate 32 65 @ [66])))) = Inr ''B''"
proof
  have "bytes_text [84, 82, 88] = ''TRX''" by (simp add: bytes_text_def char_of_def bit_0)
  then show "contract_string ref_codec (JString (''0x'' @ hex_bytes (abi_string [84, 82, 88]))) = Inr ''TRX''"
    using contract_string_last_word [OF ref_codec_contracts, of "[84, 82, 88]"] by simp
  have "drop 32 (bytes_text (replicate 32 65 @ [66])) = ''B''" by (simp add: bytes_text_def char_of_def bit_0)
  then show "contract_string ref_codec (JString (''0x'' @ hex_bytes (abi_string (replicate 32 65 @ [66])))) = Inr ''B''"
    using contract_string_last_word [OF ref_codec_contracts, of "replicate 32 65 @ [66]"]
    by (auto simp: list_all_iff)
qed

end
