(* ===== verification/Rpc_Message.thy ===== *)
theory Rpc_Message
  imports Hex_Codec
begin

text \<open>
  The JSON-RPC messages of \<open>src/client/mod.rs\<close>: \<open>build_request\<close> on the way out; on the way
  in \<open>handle_message\<close> and the functions below it, which turn a socket message into the list
  of \<open>RpcResponse\<close>s that the read loop and \<open>send_http\<close> dispatch.

  The types of \<open>jsonrpc_core\<close> are kept with the constructors the code names. The parsers of
  serde and the \<open>Debug\<close> renderings are parameters (\<open>rpc_lib\<close>).
\<close>

section \<open>Calls and responses\<close>

datatype rpc_id = IdNull | IdNum u64 | IdStr string

datatype rpc_version = V1 | V2

datatype rpc_params = ParamsArray "json list" | ParamsMap "(string \<times> json) list" | ParamsNone

record method_call =
  call_jsonrpc :: "rpc_version option"
  call_method :: string
  call_params :: "rpc_params option"
  call_id :: rpc_id

datatype rpc_call = MethodCall method_call

record rpc_success =
  success_result :: json
  success_id :: rpc_id

record rpc_failure =
  failure_error :: json
  failure_id :: rpc_id

datatype rpc_output = OutSuccess rpc_success | OutFailure rpc_failure

datatype rpc_response = RespSingle rpc_output | RespBatch "rpc_output list"

text \<open>\<open>Message\<close> of tungstenite, as the code matches it.\<close>

datatype ws_message =
    MsgText string
  | MsgBinary "byte list"
  | MsgPing "byte list"
  | MsgPong "byte list"

section \<open>Notifications\<close>

text \<open>
  \<open>SubscriptionUpdate\<close> and \<open>Notification\<close>. The derived deserializer reads the fields of the
  JSON text; the field \<open>subscription\<close> goes through \<open>usize_from_str\<close>.
\<close>

record subscription_update =
  subscription :: usize
  update_result :: json

record notification =
  notification_method :: string
  params :: subscription_update

record raw_notification =
  raw_method :: string
  raw_subscription :: string
  raw_result :: json

record rpc_lib = codec +
  response_from_str :: "string \<Rightarrow> string + rpc_response"
  response_from_slice :: "byte list \<Rightarrow> string + rpc_response"
  raw_notification_from_str :: "string \<Rightarrow> string + raw_notification"
  debug_id :: "rpc_id \<Rightarrow> string"
  debug_rpc_error :: "json \<Rightarrow> string"
  call_to_string :: "rpc_call \<Rightarrow> string"
  batch_to_string :: "rpc_call list \<Rightarrow> string"

definition notification_from_str :: "rpc_lib \<Rightarrow> string \<Rightarrow> string + notification" where
  "notification_from_str L text =
     and_then (raw_notification_from_str L text) (\<lambda>n.
       map_ok (\<lambda>sub. \<lparr>notification_method = raw_method n,
                      params = \<lparr>subscription = sub, update_result = raw_result n\<rparr>\<rparr>)
         (usize_from_str (codec.truncate L) (raw_subscription n)))"

section \<open>Responses of the client\<close>

datatype rpc_reply =
    Subscription usize json
  | Success usize json
  | Failure usize error

fun into_response :: "rpc_reply \<Rightarrow> usize \<times> json rslt" where
  "into_response (Subscription i result) = (i, Inr result)"
| "into_response (Success i result) = (i, Inr result)"
| "into_response (Failure i result) = (i, Inl result)"

definition bad_id :: "rpc_lib \<Rightarrow> rpc_id \<Rightarrow> error" where
  "bad_id L i = RpcError (''invalid correlation id, expected int, got: '' @ debug_id L i)"

definition handle_success :: "rpc_lib \<Rightarrow> rpc_success \<Rightarrow> rpc_reply rslt" where
  "handle_success L success =
     (case success_id success of
        IdNum response_id \<Rightarrow> Inr (Success response_id (success_result success))
      | i \<Rightarrow> Inl (bad_id L i))"

definition handle_failure :: "rpc_lib \<Rightarrow> rpc_failure \<Rightarrow> rpc_reply rslt" where
  "handle_failure L failure =
     (case failure_id failure of
        IdNum response_id \<Rightarrow>
          Inr (Failure response_id (YumError (debug_rpc_error L (failure_error failure))))
      | i \<Rightarrow> Inl (bad_id L i))"

fun handle_output :: "rpc_lib \<Rightarrow> rpc_output \<Rightarrow> rpc_reply rslt" where
  "handle_output L (OutSuccess success) = handle_success L success"
| "handle_output L (OutFailure failure) = handle_failure L failure"

definition handle_batch_output :: "rpc_lib \<Rightarrow> rpc_output list \<Rightarrow> rpc_reply rslt list" where
  "handle_batch_output L output = map (handle_output L) output"

fun handle_response :: "rpc_lib \<Rightarrow> rpc_response \<Rightarrow> rpc_reply list rslt" where
  "handle_response L (RespSingle output) =
     and_then (handle_output L output) (\<lambda>rpc_response. Inr [rpc_response])"
| "handle_response L (RespBatch vec_output) = collect_results (handle_batch_output L vec_output)"

definition handle_text_message :: "rpc_lib \<Rightarrow> string \<Rightarrow> rpc_reply list rslt" where
  "handle_text_message L text =
     (case response_from_str L text of
        Inr resp \<Rightarrow> handle_response L resp
      | Inl _ \<Rightarrow>
          (case notification_from_str L text of
             Inr sub \<Rightarrow> Inr [Subscription (subscription (params sub)) (update_result (params sub))]
           | Inl e \<Rightarrow> Inl (Json e)))"

definition handle_binary_message :: "rpc_lib \<Rightarrow> byte list \<Rightarrow> rpc_reply list rslt" where
  "handle_binary_message L binary =
     and_then (map_err Json (response_from_slice L binary)) (handle_response L)"

text \<open>The two \<open>unreachable!()\<close> arms panic.\<close>

fun handle_message :: "rpc_lib \<Rightarrow> ws_message \<Rightarrow> rpc_reply list rslt outcome" where
  "handle_message L (MsgText response) = Ret (handle_text_message L response)"
| "handle_message L (MsgBinary response) = Ret (handle_binary_message L response)"
| "handle_message L (MsgPing _) = Panic"
| "handle_message L (MsgPong _) = Panic"

definition build_request :: "usize \<Rightarrow> string \<Rightarrow> json list \<Rightarrow> rpc_call" where
  "build_request i method ps =
     MethodCall \<lparr>call_jsonrpc = Some V2, call_method = method,
       call_params = Some (ParamsArray ps), call_id = IdNum i\<rparr>"

section \<open>Lemmas\<close>

definition output_id :: "rpc_output \<Rightarrow> rpc_id" where
  "output_id out = (case out of OutSuccess s \<Rightarrow> success_id s | OutFailure f \<Rightarrow> failure_id f)"

definition reply_id :: "rpc_reply \<Rightarrow> usize" where
  "reply_id r = fst (into_response r)"

definition reply_result :: "rpc_reply \<Rightarrow> json rslt" where
  "reply_result r = snd (into_response r)"

definition is_subscription :: "rpc_reply \<Rightarrow> bool" where
  "is_subscription r = (case r of Subscription _ _ \<Rightarrow> True | _ \<Rightarrow> False)"

lemma reply_simps [simp]:
  "reply_id (Subscription i v) = i" "reply_id (Success i v) = i" "reply_id (Failure i e) = i"
  "reply_result (Subscription i v) = Inr v" "reply_result (Success i v) = Inr v"
  "reply_result (Failure i e) = Inl e"
  "is_subscription (Subscription i v)" "\<not> is_subscription (Success i v)"
  "\<not> is_subscription (Failure i e)"
  by (simp_all add: reply_id_def reply_result_def is_subscription_def)

lemma handle_output_Inr:
  "handle_output L out = Inr r \<Longrightarrow> output_id out = IdNum (reply_id r) \<and> \<not> is_subscription r"
  by (cases out) (auto simp: handle_success_def handle_failure_def output_id_def split: rpc_id.splits)

lemma handle_output_Inl:
  "(\<exists>e. handle_output L out = Inl e) \<longleftrightarrow> (\<forall>i. output_id out \<noteq> IdNum i)"
  by (cases out) (auto simp: handle_success_def handle_failure_def output_id_def split: rpc_id.splits)

lemma handle_output_numeric: "output_id out = IdNum i \<Longrightarrow> \<exists>r. handle_output L out = Inr r"
  using handle_output_Inl [of L out] by (cases "handle_output L out") auto

lemma handle_batch_Inr:
  "handle_response L (RespBatch outs) = Inr rs \<longleftrightarrow> map (handle_output L) outs = map Inr rs"
  by (simp add: handle_batch_output_def collect_results_Inr)

text \<open>
  The reply an output with a numeric id stands for: its result under its id, or its error
  under its id.
\<close>

fun id_number :: "rpc_id \<Rightarrow> usize option" where
  "id_number (IdNum n) = Some n"
| "id_number i = None"

definition has_number :: "rpc_output \<Rightarrow> bool" where
  "has_number out \<longleftrightarrow> id_number (output_id out) \<noteq> None"

definition reply_of :: "rpc_lib \<Rightarrow> rpc_output \<Rightarrow> rpc_reply" where
  "reply_of L out =
     (let i = the (id_number (output_id out)) in
      case out of
        OutSuccess s \<Rightarrow> Success i (success_result s)
      | OutFailure f \<Rightarrow> Failure i (YumError (debug_rpc_error L (failure_error f))))"

lemma handle_output_reply:
  "handle_output L out =
     (if has_number out then Inr (reply_of L out) else Inl (bad_id L (output_id out)))"
  by (cases out)
    (auto simp: handle_success_def handle_failure_def has_number_def reply_of_def output_id_def
      split: rpc_id.splits)

section \<open>Properties\<close>

text \<open>
  A batch answer is taken whole or not at all. If every output of a batch response carries
  a numeric id, the client gets exactly one reply per output, in the order of the outputs,
  each under its output's id: the result of a success, the rendered error of a failure. If
  some output carries any other id, the answer of the whole batch is rejected with the error
  of the first such output, and no output of it is delivered.
\<close>

lemma batch_response_all_or_nothing:
  "handle_response L (RespBatch outs) =
     (case find (\<lambda>out. \<not> has_number out) outs of
        None \<Rightarrow> Inr (map (reply_of L) outs)
      | Some out \<Rightarrow> Inl (bad_id L (output_id out)))"
  by (induction outs)
    (auto simp: handle_batch_output_def handle_output_reply split: option.splits)

end
