(* ===== verification/Yum_Future.thy ===== *)
theory Yum_Future
  imports Yum_Error
begin

text \<open>
  The futures a client hands out (\<open>src/client/result.rs\<close>): \<open>YumFuture\<close>, \<open>YumBatchFuture\<close> and
  \<open>YumBatchFutureT\<close>, with their \<open>poll\<close> functions on every branch.

  Polling a oneshot receiver is a call into the futures crate. What it answers at one moment
  is an argument \<open>w\<close> of every \<open>poll\<close>: \<open>w c\<close> is the answer of the receiver of channel \<open>c\<close>.
  \<open>JoinAll\<close> is a parameter too (\<open>join_lib\<close>); \<open>join_contract\<close> states its documented behaviour.
\<close>

section \<open>YumFuture\<close>

text \<open>
  \<open>Receiver<Result<Value, Error>>::poll\<close>: the message, nothing yet, or the sender is gone.
\<close>

datatype rx_poll = RxReady "json rslt" | RxNotReady | RxCanceled

type_synonym world = "chan \<Rightarrow> rx_poll"
type_synonym 't decoder = "json \<Rightarrow> 't rslt"

datatype 't yum_future =
    FWaiting chan "'t decoder"
  | FWaitingFn chan "'t decoder"
  | FNow 't
  | FComplete
  | FError error

text \<open>
  \<open>mem::replace(self, Complete)\<close> leaves \<open>Complete\<close> behind on every path that does not write
  \<open>self\<close> back; \<open>f.poll()?\<close> turns a cancelled channel into \<open>ErrorKind::Futurs\<close>.
\<close>

fun yf_poll :: "world \<Rightarrow> 't yum_future \<Rightarrow> 't poll \<times> 't yum_future" where
  "yf_poll w (FWaiting f t) =
     (case w f of
        RxCanceled \<Rightarrow> (Inl Futurs, FComplete)
      | RxNotReady \<Rightarrow> (Inr NotReady, FWaiting f t)
      | RxReady rv \<Rightarrow>
          (case and_then rv t of
             Inr ret_t \<Rightarrow> (Inr (Ready ret_t), FComplete)
           | Inl e \<Rightarrow> (Inl e, FComplete)))"
| "yf_poll w (FWaitingFn f t) =
     (case w f of
        RxCanceled \<Rightarrow> (Inl Futurs, FComplete)
      | RxNotReady \<Rightarrow> (Inr NotReady, FWaitingFn f t)
      | RxReady rv \<Rightarrow>
          (case and_then rv t of
             Inr ret_t \<Rightarrow> (Inr (Ready ret_t), FComplete)
           | Inl e \<Rightarrow> (Inl e, FComplete)))"
| "yf_poll w (FNow t) = (Inr (Ready t), FComplete)"
| "yf_poll w FComplete = (Inr NotReady, FComplete)"
| "yf_poll w (FError e) = (Inl e, FComplete)"

section \<open>YumBatchFuture\<close>

text \<open>The two entry points of \<open>futures::future::JoinAll\<close> over a state type \<open>'j\<close>.\<close>

record ('t, 'j) join_lib =
  join_all :: "'t yum_future list \<Rightarrow> 'j"
  poll_join :: "world \<Rightarrow> 'j \<Rightarrow> 't list poll \<times> 'j"

datatype ('t, 'j) yum_batch_future =
    BWaiting "'t yum_future list"
  | BPolling 'j
  | BDone

text \<open>The branch \<open>Polling(mut futs)\<close>, which the branch \<open>Waiting\<close> enters by calling \<open>self.poll()\<close>.\<close>

definition poll_polling ::
  "('t, 'j) join_lib \<Rightarrow> world \<Rightarrow> 'j \<Rightarrow> 't list poll \<times> ('t, 'j) yum_batch_future" where
  "poll_polling J w futs =
     (case poll_join J w futs of
        (Inl e, _) \<Rightarrow> (Inl e, BDone)
      | (Inr (Ready yf), _) \<Rightarrow> (Inr (Ready yf), BDone)
      | (Inr NotReady, futs') \<Rightarrow> (Inr NotReady, BPolling futs'))"

fun ybf_poll ::
  "('t, 'j) join_lib \<Rightarrow> world \<Rightarrow> ('t, 'j) yum_batch_future \<Rightarrow>
     ('t list poll \<times> ('t, 'j) yum_batch_future) outcome" where
  "ybf_poll J w (BWaiting futs) = Ret (poll_polling J w (join_all J futs))"
| "ybf_poll J w (BPolling futs) = Ret (poll_polling J w futs)"
| "ybf_poll J w BDone = Panic"

section \<open>YumBatchFutureT\<close>

datatype ('t, 'j, 'u) yum_batch_future_t =
    TWaiting "('t, 'j) yum_batch_future" "'t list \<Rightarrow> 'u"
  | TComplete
  | TError error

fun ybft_poll ::
  "('t, 'j) join_lib \<Rightarrow> world \<Rightarrow> ('t, 'j, 'u) yum_batch_future_t \<Rightarrow>
     ('u poll \<times> ('t, 'j, 'u) yum_batch_future_t) outcome" where
  "ybft_poll J w (TWaiting ybf op) =
     obind (ybf_poll J w ybf) (\<lambda>(r, ybf').
       (case r of
          Inl e \<Rightarrow> Ret (Inl e, TComplete)
        | Inr (Ready vt) \<Rightarrow> Ret (Inr (Ready (op vt)), TComplete)
        | Inr NotReady \<Rightarrow> Ret (Inr NotReady, TWaiting ybf' op)))"
| "ybft_poll J w TComplete = Ret (Inr NotReady, TComplete)"
| "ybft_poll J w (TError e) = Ret (Inl e, TComplete)"

section \<open>The contract of a fused future\<close>

text \<open>A run polls a future once in each world, in order, and lists the answers.\<close>

primrec poll_run :: "('w \<Rightarrow> 'f \<Rightarrow> 'r \<times> 'f) \<Rightarrow> 'w list \<Rightarrow> 'f \<Rightarrow> 'r list" where
  "poll_run p [] f = []"
| "poll_run p (w # ws) f = (case p w f of (r, f') \<Rightarrow> r # poll_run p ws f')"

text \<open>
  What an executor may rely on: a future that has answered (a value or an error) is spent,
  and a spent future only ever answers \<open>NotReady\<close>; one that answered \<open>NotReady\<close> and was not
  spent is still the same computation.
\<close>

locale fused_future =
  fixes poll_of :: "'w \<Rightarrow> 'f \<Rightarrow> ('e + 'a async) \<times> 'f"
    and spent :: "'f \<Rightarrow> bool"
  assumes answered_spent: "poll_of w f = (r, f') \<Longrightarrow> r \<noteq> Inr NotReady \<Longrightarrow> spent f'"
    and spent_silent: "spent f \<Longrightarrow> poll_of w f = (Inr NotReady, f)"
begin

lemma run_spent: "spent f \<Longrightarrow> poll_run poll_of ws f = replicate (length ws) (Inr NotReady)"
  by (induction ws) (simp_all add: spent_silent)

lemma run_answers_at_most_once:
  "length (filter (\<lambda>r. r \<noteq> Inr NotReady) (poll_run poll_of ws f)) \<le> 1"
proof (induction ws arbitrary: f)
  case Nil
  then show ?case by simp
next
  case (Cons w ws)
  obtain r f' where p: "poll_of w f = (r, f')" by fastforce
  show ?case
  proof (cases "r = Inr NotReady")
    case True
    with p Cons.IH [of f'] show ?thesis by simp
  next
    case False
    with p have "spent f'" by (rule answered_spent)
    with p show ?thesis by (simp add: run_spent)
  qed
qed

end

text \<open>A \<open>YumFuture\<close> is spent when it is \<open>Complete\<close>.\<close>

interpretation yf: fused_future yf_poll "\<lambda>f. f = FComplete"
proof
  fix w and f :: "'t yum_future" and r f'
  assume "yf_poll w f = (r, f')" "r \<noteq> Inr NotReady"
  then show "f' = FComplete"
    by (cases f) (auto split: rx_poll.splits sum.splits)
qed simp

section \<open>The documented behaviour of JoinAll\<close>

text \<open>
  \<open>join_ref\<close> describes one poll of \<open>JoinAll\<close>: poll every element that is still pending, in
  order; stop at the first error; once every element is done, give the values in the order
  of the futures. \<open>join_contract\<close> says that a library value behaves like that through some
  view of its state.
\<close>

fun join_elems :: "world \<Rightarrow> ('t + 't yum_future) list \<Rightarrow> error + ('t + 't yum_future) list" where
  "join_elems w [] = Inr []"
| "join_elems w (Inl v # es) = map_ok (Cons (Inl v)) (join_elems w es)"
| "join_elems w (Inr f # es) =
     (case yf_poll w f of
        (Inl e, _) \<Rightarrow> Inl e
      | (Inr (Ready v), _) \<Rightarrow> map_ok (Cons (Inl v)) (join_elems w es)
      | (Inr NotReady, f') \<Rightarrow> map_ok (Cons (Inr f')) (join_elems w es))"

definition join_ref :: "world \<Rightarrow> ('t + 't yum_future) list \<Rightarrow> 't list poll \<times> ('t + 't yum_future) list" where
  "join_ref w es =
     (case join_elems w es of
        Inl e \<Rightarrow> (Inl e, [])
      | Inr es' \<Rightarrow>
          if list_all isl es' then (Inr (Ready (map projl es')), []) else (Inr NotReady, es'))"

definition join_contract :: "('t, 'j) join_lib \<Rightarrow> ('j \<Rightarrow> ('t + 't yum_future) list) \<Rightarrow> bool" where
  "join_contract J view \<longleftrightarrow>
     (\<forall>fs. view (join_all J fs) = map Inr fs) \<and>
     (\<forall>w j. map_prod id view (poll_join J w j) = join_ref w (view j))"

lemma join_contract_all: "join_contract J view \<Longrightarrow> view (join_all J fs) = map Inr fs"
  by (simp add: join_contract_def)

lemma join_contract_poll:
  assumes "join_contract J view" and "poll_join J w j = (r, j')"
  shows "join_ref w (view j) = (r, view j')"
  using assms by (metis join_contract_def map_prod_simp id_apply)

section \<open>Running a batch\<close>

text \<open>Poll a batch in one world after the other until it answers.\<close>

fun batch_run ::
  "('t, 'j) join_lib \<Rightarrow> world list \<Rightarrow> ('t, 'j) yum_batch_future \<Rightarrow> (error + 't list) option outcome" where
  "batch_run J [] b = Ret None"
| "batch_run J (w # ws) b =
     obind (ybf_poll J w b) (\<lambda>(r, b').
       (case r of
          Inl e \<Rightarrow> Ret (Some (Inl e))
        | Inr (Ready xs) \<Rightarrow> Ret (Some (Inr xs))
        | Inr NotReady \<Rightarrow> batch_run J ws b'))"

text \<open>
  The members of a batch, as \<open>Client::batch_request\<close> makes them: one channel and one decoder
  per request. An element of a running join is consistent with such a member when it still
  waits for it or has finished with the decoded answer.
\<close>

definition batch_member :: "chan \<times> 't decoder \<Rightarrow> 't yum_future" where
  "batch_member m = FWaitingFn (fst m) (snd m)"

definition elem_ok :: "(chan \<Rightarrow> json) \<Rightarrow> chan \<times> 't decoder \<Rightarrow> 't + 't yum_future \<Rightarrow> bool" where
  "elem_ok ans m e \<longleftrightarrow> e = Inr (batch_member m) \<or> (\<exists>x. e = Inl x \<and> snd m (ans (fst m)) = Inr x)"

lemma elem_ok_simps [simp]:
  "elem_ok ans m (Inl x) \<longleftrightarrow> snd m (ans (fst m)) = Inr x"
  "elem_ok ans m (Inr f) \<longleftrightarrow> f = batch_member m"
  by (auto simp: elem_ok_def)

text \<open>A world in which every member's channel is empty or holds its answer.\<close>

definition world_ok :: "(chan \<Rightarrow> json) \<Rightarrow> (chan \<times> 't decoder) list \<Rightarrow> world \<Rightarrow> bool" where
  "world_ok ans ms w \<longleftrightarrow>
     list_all (\<lambda>m. w (fst m) = RxNotReady \<or> w (fst m) = RxReady (Inr (ans (fst m)))) ms"

lemma join_elems_ok:
  assumes "list_all2 (elem_ok ans) ms es" and "world_ok ans ms w"
    and "list_all (\<lambda>m. is_ok (snd m (ans (fst m)))) ms"
  shows "\<exists>es'. join_elems w es = Inr es' \<and> list_all2 (elem_ok ans) ms es' \<and>
    (list_all (\<lambda>m. w (fst m) = RxReady (Inr (ans (fst m)))) ms \<longrightarrow> list_all isl es')"
  using assms
proof (induction ms es rule: list_all2_induct)
  case Nil
  then show ?case by simp
next
  case (Cons m ms e es)
  obtain es' where IH: "join_elems w es = Inr es'" "list_all2 (elem_ok ans) ms es'"
    "list_all (\<lambda>m. w (fst m) = RxReady (Inr (ans (fst m)))) ms \<longrightarrow> list_all isl es'"
    using Cons.IH Cons.prems by (auto simp: world_ok_def)
  obtain x where x: "snd m (ans (fst m)) = Inr x"
    using Cons.prems(2) by (auto simp: is_ok_def split: sum.splits)
  have "w (fst m) = RxNotReady \<or> w (fst m) = RxReady (Inr (ans (fst m)))"
    using Cons.prems(1) by (simp add: world_ok_def)
  then show ?case
    using Cons.hyps(1) IH x by (cases e) (auto simp: batch_member_def)
qed

lemma elems_done_values:
  assumes "list_all2 (elem_ok ans) ms es" and "list_all isl es"
  shows "map (\<lambda>m. snd m (ans (fst m))) ms = map Inr (map projl es)"
  using assms
proof (induction ms es rule: list_all2_induct)
  case Nil
  then show ?case by simp
next
  case (Cons m ms e es)
  then show ?case by (cases e) auto
qed

text \<open>One poll of a join that is consistent with its members: it answers in order or goes on.\<close>

lemma join_ref_ok:
  assumes "list_all2 (elem_ok ans) ms es" and "world_ok ans ms w"
    and "list_all (\<lambda>m. is_ok (snd m (ans (fst m)))) ms"
  shows "(\<exists>xs. join_ref w es = (Inr (Ready xs), []) \<and>
            map (\<lambda>m. snd m (ans (fst m))) ms = map Inr xs) \<or>
         (\<exists>es'. join_ref w es = (Inr NotReady, es') \<and> list_all2 (elem_ok ans) ms es' \<and>
            \<not> list_all (\<lambda>m. w (fst m) = RxReady (Inr (ans (fst m)))) ms)"
proof -
  obtain es' where es': "join_elems w es = Inr es'" "list_all2 (elem_ok ans) ms es'"
    "list_all (\<lambda>m. w (fst m) = RxReady (Inr (ans (fst m)))) ms \<longrightarrow> list_all isl es'"
    using join_elems_ok [OF assms] by blast
  show ?thesis
  proof (cases "list_all isl es'")
    case True
    with es' elems_done_values [OF es'(2) True] show ?thesis by (simp add: join_ref_def)
  next
    case False
    with es' show ?thesis by (auto simp: join_ref_def)
  qed
qed

lemma batch_run_polling:
  assumes "join_contract J view"
    and "list_all (world_ok ans ms) ws"
    and "ws \<noteq> []" and "list_all (\<lambda>m. last ws (fst m) = RxReady (Inr (ans (fst m)))) ms"
    and "list_all (\<lambda>m. is_ok (snd m (ans (fst m)))) ms"
    and "list_all2 (elem_ok ans) ms (view j)"
  shows "\<exists>xs. batch_run J ws (BPolling j) = Ret (Some (Inr xs)) \<and>
    map (\<lambda>m. snd m (ans (fst m))) ms = map Inr xs"
  using assms(2-4,6)
proof (induction ws arbitrary: j)
  case Nil
  then show ?case by simp
next
  case (Cons w ws)
  obtain r j' where p: "poll_join J w j = (r, j')" by fastforce
  have ref: "join_ref w (view j) = (r, view j')"
    using join_contract_poll [OF assms(1) p] .
  have "world_ok ans ms w" using Cons.prems(1) by simp
  from join_ref_ok [OF Cons.prems(4) this assms(5)] show ?case
  proof (elim disjE exE conjE)
    fix xs
    assume "join_ref w (view j) = (Inr (Ready xs), [])"
      and xs: "map (\<lambda>m. snd m (ans (fst m))) ms = map Inr xs"
    with ref have "r = Inr (Ready xs)" by simp
    with p have "batch_run J (w # ws) (BPolling j) = Ret (Some (Inr xs))"
      by (simp add: poll_polling_def)
    with xs show ?thesis by blast
  next
    fix es'
    assume es': "join_ref w (view j) = (Inr NotReady, es')" "list_all2 (elem_ok ans) ms es'"
      and open_chan: "\<not> list_all (\<lambda>m. w (fst m) = RxReady (Inr (ans (fst m)))) ms"
    from open_chan Cons.prems(3) have "ws \<noteq> []" by auto
    with Cons.prems(1,3) es' ref Cons.IH [of j'] have
      "\<exists>xs. batch_run J ws (BPolling j') = Ret (Some (Inr xs)) \<and>
         map (\<lambda>m. snd m (ans (fst m))) ms = map Inr xs"
      by simp
    with es' ref p show ?thesis by (simp add: poll_polling_def)
  qed
qed

lemma batch_run_waiting:
  "batch_run J (w # ws) (BWaiting fs) = batch_run J (w # ws) (BPolling (join_all J fs))"
  by simp

lemma elem_ok_members: "list_all2 (elem_ok ans) ms (map Inr (map batch_member ms))"
  by (auto simp: list_all2_conv_all_nth elem_ok_def)

lemma batch_resolves:
  assumes "join_contract J view"
    and "list_all (world_ok ans ms) ws"
    and "ws \<noteq> []" and "list_all (\<lambda>m. last ws (fst m) = RxReady (Inr (ans (fst m)))) ms"
    and "list_all (\<lambda>m. is_ok (snd m (ans (fst m)))) ms"
  shows "\<exists>xs. batch_run J ws (BWaiting (map batch_member ms)) = Ret (Some (Inr xs)) \<and>
    map (\<lambda>m. snd m (ans (fst m))) ms = map Inr xs"
proof -
  obtain w ws' where ws: "ws = w # ws'" using assms(3) by (cases ws) auto
  have "list_all2 (elem_ok ans) ms (view (join_all J (map batch_member ms)))"
    by (simp only: join_contract_all [OF assms(1)] elem_ok_members)
  from batch_run_polling [OF assms this] show ?thesis
    unfolding ws batch_run_waiting .
qed

section \<open>Properties\<close>

text \<open>
  C10: A batch resolves with its answers in request order. Poll a batch of any number of
  members in worlds where each member's channel is either still empty or holds the answer
  sent to it, the last world holding every answer, and let every answer decode. Then the
  batch returns (it neither panics nor stays pending), and its value at each position is
  the decoded answer of the request at that position, whatever the order in which the
  answers arrived.
\<close>

theorem batch_resolves_in_order:
  assumes "join_contract J view"
    and "list_all (world_ok ans ms) ws"
    and "ws \<noteq> []" and "list_all (\<lambda>m. last ws (fst m) = RxReady (Inr (ans (fst m)))) ms"
    and "list_all (\<lambda>m. is_ok (snd m (ans (fst m)))) ms"
  shows "\<exists>xs. batch_run J ws (BWaiting (map batch_member ms)) = Ret (Some (Inr xs)) \<and>
    map (\<lambda>m. snd m (ans (fst m))) ms = map Inr xs"
  using assms by (rule batch_resolves)

text \<open>The reference behaviour itself, as a library value: the contract can be met.\<close>

definition ref_join :: "('t, ('t + 't yum_future) list) join_lib" where
  "ref_join = \<lparr>join_all = map Inr, poll_join = join_ref\<rparr>"

lemma ref_join_contract: "join_contract ref_join id"
  by (simp add: join_contract_def ref_join_def prod.map_id)

theorem batch_resolves_in_order_witness:
  "\<exists>xs. batch_run ref_join
      [\<lambda>c. if c = 5 then RxReady (Inr (JBool True)) else RxNotReady,
       \<lambda>c. if c = 5 then RxReady (Inr (JBool True)) else RxReady (Inr JNull)]
      (BWaiting (map batch_member [(4::chan, \<lambda>v. Inr (v, 0::nat)), (5, \<lambda>v. Inr (v, 1))])) =
        Ret (Some (Inr xs)) \<and>
    map (\<lambda>m. snd m ((\<lambda>c. if c = 5 then JBool True else JNull) (fst m)))
      [(4::chan, \<lambda>v. Inr (v, 0::nat)), (5, \<lambda>v. Inr (v, 1))] = map (Inr :: _ \<Rightarrow> error + _) xs"
  by (rule batch_resolves_in_order [OF ref_join_contract]) (simp_all add: world_ok_def)

text \<open>
  A future answers at most once. Polled any number of times, whatever the channel does,
  a \<open>YumFuture\<close> gives at most one answer that is not \<open>NotReady\<close>; after that answer every
  poll is \<open>Ok(NotReady)\<close> and none panics.
\<close>

lemma yum_future_answers_once:
  "length (filter (\<lambda>r. r \<noteq> Inr NotReady) (poll_run yf_poll ws f)) \<le> 1"
  by (rule yf.run_answers_at_most_once)

end
