(* ===== verification/Client_State.thy ===== *)
theory Client_State
  imports Rpc_Message Yum_Future
begin

text \<open>
  The shared state of \<open>src/client/mod.rs\<close> (the fields of \<open>Client\<close> and \<open>SocketWorker\<close>) and the
  operations that touch it under one lock: registering a request, taking a sender out of the
  table to answer it, notifying a subscriber, stamping a request, the round-robin queue of
  workers. Everything in the client is composed of these; \<open>client_step\<close> is the transition
  relation they generate, so that a statement about every state reachable by it covers every
  interleaving of the user's threads, the socket threads, the timeout thread and the sentinel.

  Calls into other crates leave an entry in \<open>trace\<close>, in program order. A map of the source
  behind \<open>Arc<Mutex<_>>\<close> is one field of the state. \<open>ts\<close> is a list of buckets because the
  timeout thread iterates over it; its order stands for the arbitrary order of the hash map.
\<close>

section \<open>State\<close>

record worker =
  wk_id :: usize
  wk_host :: string
  wk_tx :: chan
  wk_thread :: "nat option"

datatype event =
    Answer chan "json rslt"
  | Cancel chan
  | Notify chan json
  | Queue chan socket_request
  | HttpPost string

record client =
  hosts :: "string list"
  cl_timeout :: nat
  worker_id :: usize
  sockets :: "worker list"
  ids :: usize
  pending :: "usize \<rightharpoonup> chan"
  subscriptions :: "usize \<rightharpoonup> chan"
  ts :: "(int \<times> usize list) list"
  ts_thread :: "nat option"
  sentinel_thread :: "nat option"
  reconnection_attempts :: usize

record sys = client +
  next_chan :: chan
  next_thread :: nat
  trace :: "event list"

text \<open>
  What the outside answers during one operation: whether the receiving half of a worker's
  channel still exists, what the node answers over HTTP (the error of \<open>send\<close>, the error of
  \<open>text\<close>, or the body), what comes back on a status or ping channel (\<open>None\<close>: the other side
  dropped it).
\<close>

record net =
  ws_open :: "chan \<Rightarrow> bool"
  http_post :: "string \<Rightarrow> string + (string + string)"
  status_reply :: "chan \<Rightarrow> bool option"
  ping_reply :: "chan \<Rightarrow> socket_request option"

section \<open>Operations under one lock\<close>

definition log :: "event \<Rightarrow> sys \<Rightarrow> sys" where
  "log e s = s\<lparr>trace := trace s @ [e]\<rparr>"

text \<open>\<open>oneshot::channel()\<close> or \<open>mpsc::unbounded()\<close>: a channel nobody else knows.\<close>

definition new_chan :: "sys \<Rightarrow> chan \<times> sys" where
  "new_chan s = (next_chan s, s\<lparr>next_chan := Suc (next_chan s)\<rparr>)"

definition next_id :: "sys \<Rightarrow> usize \<times> sys" where
  "next_id s = (ids s, s\<lparr>ids := ids s + 1\<rparr>)"

text \<open>\<open>pending.lock().insert(id, tx)\<close>; a sender that was there is dropped.\<close>

definition insert_pending :: "usize \<Rightarrow> chan \<Rightarrow> sys \<Rightarrow> sys" where
  "insert_pending i tx s =
     s\<lparr>pending := (pending s)(i \<mapsto> tx),
       trace := trace s @ (case pending s i of None \<Rightarrow> [] | Some old \<Rightarrow> [Cancel old])\<rparr>"

text \<open>A new channel, a new id, and the sender in the table: the start of every request.\<close>

definition register :: "sys \<Rightarrow> usize \<times> chan \<times> sys" where
  "register s =
     (let (tx, s1) = new_chan s; (i, s2) = next_id s1 in (i, tx, insert_pending i tx s2))"

text \<open>\<open>if let Some(f) = pending.remove(&id) { f.send(result) }\<close>.\<close>

definition answer :: "usize \<Rightarrow> json rslt \<Rightarrow> sys \<Rightarrow> sys" where
  "answer i result s =
     (case pending s i of
        None \<Rightarrow> s
      | Some f \<Rightarrow> log (Answer f result) (s\<lparr>pending := (pending s)(i := None)\<rparr>))"

text \<open>\<open>if let Some(sub) = subscriptions.get_mut(&id) { sub.unbounded_send(result) }\<close>.\<close>

definition notify :: "usize \<Rightarrow> json \<Rightarrow> sys \<Rightarrow> sys" where
  "notify i result s =
     (case subscriptions s i of None \<Rightarrow> s | Some sub \<Rightarrow> log (Notify sub result) s)"

definition add_subscription :: "usize \<Rightarrow> chan \<Rightarrow> sys \<Rightarrow> sys" where
  "add_subscription i tx s = s\<lparr>subscriptions := (subscriptions s)(i \<mapsto> tx)\<rparr>"

text \<open>\<open>ts.lock().entry(now).or_insert(Vec::new()).push(id)\<close>.\<close>

fun ts_push :: "int \<Rightarrow> usize \<Rightarrow> (int \<times> usize list) list \<Rightarrow> (int \<times> usize list) list" where
  "ts_push now i [] = [(now, [i])]"
| "ts_push now i ((k, vs) # bs) =
     (if k = now then (k, vs @ [i]) # bs else (k, vs) # ts_push now i bs)"

definition stamp :: "int \<Rightarrow> usize \<Rightarrow> sys \<Rightarrow> sys" where
  "stamp now i s = s\<lparr>ts := ts_push now i (ts s)\<rparr>"

text \<open>\<open>Drop for Client\<close>: both tables are cleared, every waiting sender is dropped.\<close>

definition drop_client :: "chan list \<Rightarrow> sys \<Rightarrow> sys" where
  "drop_client order s =
     s\<lparr>sockets := [], pending := Map.empty, trace := trace s @ map Cancel order\<rparr>"

section \<open>The transition relation\<close>

inductive client_step :: "sys \<Rightarrow> sys \<Rightarrow> bool" where
  step_register: "client_step s (snd (snd (register s)))"
| step_answer: "client_step s (answer i r s)"
| step_notify: "client_step s (notify i v s)"
| step_subscribe: "client_step s (add_subscription i c s)"
| step_stamp: "client_step s (s\<lparr>ts := t\<rparr>)"
| step_sockets: "client_step s (s\<lparr>sockets := ws\<rparr>)"
| step_chan: "client_step s (s\<lparr>next_chan := Suc (next_chan s)\<rparr>)"
| step_thread: "client_step s (s\<lparr>next_thread := n\<rparr>)"
| step_worker_id: "client_step s (s\<lparr>worker_id := n\<rparr>)"
| step_threads: "client_step s (s\<lparr>ts_thread := a, sentinel_thread := b\<rparr>)"
| step_queue: "client_step s (log (Queue c m) s)"
| step_http: "client_step s (log (HttpPost t) s)"
| step_drop: "set order = ran (pending s) \<Longrightarrow> distinct order \<Longrightarrow> client_step s (drop_client order s)"

abbreviation client_steps :: "sys \<Rightarrow> sys \<Rightarrow> bool" where
  "client_steps \<equiv> client_step\<^sup>*\<^sup>*"

definition client_start :: "sys \<Rightarrow> bool" where
  "client_start s \<longleftrightarrow> pending s = Map.empty \<and> trace s = []"

lemmas client_defs =
  log_def new_chan_def next_id_def insert_pending_def register_def answer_def notify_def
  add_subscription_def stamp_def drop_client_def Let_def

section \<open>Invariant\<close>

text \<open>The channels whose request has been answered, and those that have been dropped.\<close>

fun answered :: "event list \<Rightarrow> chan list" where
  "answered [] = []"
| "answered (Answer c r # es) = c # answered es"
| "answered (_ # es) = answered es"

fun cancelled :: "event list \<Rightarrow> chan list" where
  "cancelled [] = []"
| "cancelled (Cancel c # es) = c # cancelled es"
| "cancelled (_ # es) = cancelled es"

lemma answered_append [simp]: "answered (xs @ ys) = answered xs @ answered ys"
  by (induction xs rule: answered.induct) simp_all

lemma cancelled_append [simp]: "cancelled (xs @ ys) = cancelled xs @ cancelled ys"
  by (induction xs rule: cancelled.induct) simp_all

lemma answered_map_Cancel [simp]: "answered (map Cancel cs) = []"
  by (induction cs) simp_all

lemma cancelled_map_Cancel [simp]: "cancelled (map Cancel cs) = cs"
  by (induction cs) simp_all

text \<open>
  Every request in the table has a channel of its own, which exists and is neither answered
  nor dropped; a channel is used up (answered or dropped) at most once.
\<close>

definition used :: "sys \<Rightarrow> chan list" where
  "used s = answered (trace s) @ cancelled (trace s)"

definition table_inv :: "sys \<Rightarrow> bool" where
  "table_inv s \<longleftrightarrow>
     map_inj (pending s) \<and> (\<forall>c \<in> ran (pending s). c < next_chan s) \<and>
     distinct (used s) \<and> (\<forall>c \<in> set (used s). c < next_chan s \<and> c \<notin> ran (pending s))"

lemma table_inv_register:
  assumes "table_inv s"
  shows "table_inv (snd (snd (register s)))"
proof -
  let ?t = "snd (snd (register s))"
  have fresh: "next_chan s \<notin> ran (pending s)" using assms by (auto simp: table_inv_def)
  have pend: "pending ?t = (pending s)(ids s \<mapsto> next_chan s)"
    and chan: "next_chan ?t = Suc (next_chan s)"
    by (simp_all add: client_defs)
  show ?thesis
  proof (cases "pending s (ids s)")
    case None
    then have "used ?t = used s" by (simp add: used_def client_defs)
    moreover have "ran (pending ?t) = insert (next_chan s) (ran (pending s))"
      using None by (simp add: pend)
    ultimately show ?thesis
      using assms fresh by (auto simp: table_inv_def pend chan map_inj_upd less_Suc_eq)
  next
    case (Some old)
    then have used: "used ?t = used s @ [old]" by (simp add: used_def client_defs)
    have ran: "ran (pending ?t) = insert (next_chan s) (ran (pending s) - {old})"
      using assms Some by (simp add: pend table_inv_def ran_overwrite)
    have "old \<in> ran (pending s)" using Some by (rule ranI)
    then show ?thesis
      using assms fresh unfolding table_inv_def used ran chan
      by (auto simp: pend map_inj_upd less_Suc_eq)
  qed
qed

lemma table_inv_answer:
  assumes "table_inv s"
  shows "table_inv (answer i r s)"
proof (cases "pending s i")
  case None
  with assms show ?thesis by (simp add: answer_def)
next
  case (Some f)
  have "ran ((pending s)(i := None)) = ran (pending s) - {f}"
    using assms Some by (simp add: table_inv_def ran_delete)
  moreover have "f \<in> ran (pending s)" using Some by (rule ranI)
  ultimately show ?thesis
    using assms Some by (auto simp: table_inv_def used_def answer_def log_def map_inj_delete)
qed

lemma table_inv_frame:
  "table_inv s \<Longrightarrow> pending t = pending s \<Longrightarrow> used t = used s \<Longrightarrow> next_chan s \<le> next_chan t \<Longrightarrow>
     table_inv t"
  by (auto simp: table_inv_def dest: less_le_trans)

lemma table_inv_drop:
  assumes "table_inv s" and "set order = ran (pending s)" and "distinct order"
  shows "table_inv (drop_client order s)"
proof -
  have "used (drop_client order s) = answered (trace s) @ cancelled (trace s) @ order"
    by (simp add: used_def drop_client_def)
  with assms show ?thesis
    unfolding table_inv_def by (auto simp: used_def drop_client_def)
qed

lemma table_inv_notify: "table_inv s \<Longrightarrow> table_inv (notify i v s)"
  by (cases "subscriptions s i") (auto simp: notify_def log_def used_def intro: table_inv_frame)

lemma table_inv_step:
  assumes "client_step s t" and "table_inv s"
  shows "table_inv t"
  using assms
proof (cases rule: client_step.cases)
  case step_register
  with assms(2) show ?thesis by (simp add: table_inv_register)
next
  case (step_answer i r)
  with assms(2) show ?thesis by (simp add: table_inv_answer)
next
  case (step_notify i v)
  with assms(2) show ?thesis by (simp add: table_inv_notify)
next
  case (step_drop order)
  with assms(2) show ?thesis by (simp add: table_inv_drop)
qed (use assms(2) in \<open>simp_all add: table_inv_frame add_subscription_def log_def used_def\<close>)

interpretation table: inductive_invariant client_start client_step table_inv
proof
  fix s
  assume "client_start s"
  then show "table_inv s" by (simp add: client_start_def table_inv_def used_def)
next
  fix s t
  assume "table_inv s" "client_step s t"
  then show "table_inv t" by (blast intro: table_inv_step)
qed

section \<open>A registered request is never lost\<close>

lemma used_mono_step: "client_step s t \<Longrightarrow> set (used s) \<subseteq> set (used t)"
  by (erule client_step.cases)
    (auto simp: used_def client_defs split: option.split)

lemma pending_step:
  assumes "client_step s t" and "pending s i = Some c"
  shows "pending t i = Some c \<or> c \<in> set (used t)"
  using assms
proof (cases rule: client_step.cases)
  case step_register
  with assms(2) show ?thesis by (cases "i = ids s") (simp_all add: client_defs used_def)
next
  case (step_answer j r)
  with assms(2) show ?thesis
    by (cases "i = j") (simp_all add: answer_def log_def used_def split: option.split)
next
  case (step_notify j v)
  with assms(2) show ?thesis by (simp add: notify_def log_def split: option.split)
next
  case (step_drop order)
  then have "c \<in> set order" using assms(2) by (simp add: ranI)
  with step_drop show ?thesis by (simp add: drop_client_def used_def)
qed (use assms(2) in \<open>simp_all add: add_subscription_def log_def\<close>)

lemma pending_steps:
  "client_steps s t \<Longrightarrow> pending s i = Some c \<Longrightarrow> pending t i = Some c \<or> c \<in> set (used t)"
proof (induction rule: rtranclp_induct)
  case base
  then show ?case by simp
next
  case (step t u)
  with pending_step [OF step.hyps(2)] used_mono_step [OF step.hyps(2)] show ?case by blast
qed

end
