(* ===== verification/Yum_Client.thy ===== *)
theory Yum_Client
  imports Client_State
begin

text \<open>
  \<open>Client\<close> of \<open>src/client/mod.rs\<close>: \<open>request\<close>, \<open>batch_request\<close>, \<open>send\<close> and \<open>send_http\<close>, the
  message handler of the socket's read loop, and one pass of the timeout thread. Each is
  composed of the operations of \<open>Client_State\<close>, and each is shown to be a sequence of
  \<open>client_step\<close>s. The current time \<open>now\<close> is an argument, the answers of the outside are \<open>N\<close>.
\<close>

section \<open>Dispatching responses\<close>

text \<open>The loop of \<open>send_http\<close>: every response goes through \<open>into_response\<close>.\<close>

definition http_dispatch :: "rpc_reply \<Rightarrow> sys \<Rightarrow> sys" where
  "http_dispatch response s = (case into_response response of (i, result) \<Rightarrow> answer i result s)"

text \<open>The loop of the read stream: a subscription goes to its subscriber.\<close>

fun dispatch :: "rpc_reply \<Rightarrow> sys \<Rightarrow> sys" where
  "dispatch (Subscription i result) s = notify i result s"
| "dispatch other_response s = (case into_response other_response of (i, result) \<Rightarrow> answer i result s)"

text \<open>The closure of \<open>stream.for_each\<close> in \<open>SocketWorker::connect\<close>.\<close>

definition read_message :: "rpc_lib \<Rightarrow> ws_message \<Rightarrow> sys \<Rightarrow> sys outcome" where
  "read_message L msg s =
     obind (handle_message L msg) (\<lambda>decoded_msg.
       (case decoded_msg of
          Inl _ \<Rightarrow> Ret s
        | Inr rpc_result \<Rightarrow> Ret (fold dispatch rpc_result s)))"

section \<open>Sending\<close>

definition send_http :: "rpc_lib \<Rightarrow> net \<Rightarrow> string \<Rightarrow> sys \<Rightarrow> unit rslt \<times> sys" where
  "send_http L N msg s =
     (let s1 = log (HttpPost msg) s in
      case http_post N msg of
        Inl e \<Rightarrow> (Inl (Http e), s1)
      | Inr (Inl e) \<Rightarrow> (Inl (Http e), s1)
      | Inr (Inr resp_text) \<Rightarrow>
          (case handle_text_message L resp_text of
             Inr rpc_result \<Rightarrow> (Inr (), fold http_dispatch rpc_result s1)
           | Inl _ \<Rightarrow> (Inr (), s1)))"

text \<open>\<open>SocketWorker::send_request\<close>: refused when the receiving half is gone.\<close>

definition send_request :: "net \<Rightarrow> worker \<Rightarrow> socket_request \<Rightarrow> sys \<Rightarrow> socket_request + sys" where
  "send_request N w req s =
     (if ws_open N (wk_tx w) then Inr (log (Queue (wk_tx w) req) s) else Inl req)"

definition send :: "rpc_lib \<Rightarrow> net \<Rightarrow> socket_request \<Rightarrow> sys \<Rightarrow> unit rslt \<times> sys" where
  "send L N msg s =
     (case sockets s of
        w # rest \<Rightarrow>
          (let s1 = s\<lparr>sockets := rest\<rparr> in
           case send_request N w msg s1 of
             Inr s2 \<Rightarrow> (Inr (), s2\<lparr>sockets := sockets s2 @ [w]\<rparr>)
           | Inl (Text t) \<Rightarrow> send_http L N t s1
           | Inl _ \<Rightarrow> (Inr (), s1))
      | [] \<Rightarrow>
          (case msg of
             Text t \<Rightarrow> send_http L N t s
           | _ \<Rightarrow> (Inr (), s)))"

section \<open>Requests\<close>

definition request ::
  "rpc_lib \<Rightarrow> net \<Rightarrow> int \<Rightarrow> string \<Rightarrow> json list \<Rightarrow> 't decoder \<Rightarrow> sys \<Rightarrow> 't yum_future \<times> sys" where
  "request L N now method ps d s =
     (let (i, rx, s1) = register s;
          s2 = stamp now i s1;
          serialized_request = call_to_string L (build_request i method ps)
      in case send L N (Text serialized_request) s2 of
           (Inl _, s3) \<Rightarrow> (FError (YumError (''Couldn't send request: '' @ serialized_request)), s3)
         | (Inr _, s3) \<Rightarrow> (FWaiting rx d, s3))"

type_synonym 't req = "string \<times> json list \<times> 't decoder"

fun register_all ::
  "'t req list \<Rightarrow> sys \<Rightarrow> rpc_call list \<times> (chan \<times> 't decoder) list \<times> sys" where
  "register_all [] s = ([], [], s)"
| "register_all ((method, ps, d) # reqs) s =
     (let (i, rx, s1) = register s;
          (calls, responses, s2) = register_all reqs s1
      in (build_request i method ps # calls, (rx, d) # responses, s2))"

definition batch_request ::
  "rpc_lib \<Rightarrow> net \<Rightarrow> 't req list \<Rightarrow> sys \<Rightarrow> ('t, 'j) yum_batch_future \<times> sys" where
  "batch_request L N requests s =
     (let (calls, responses, s1) = register_all requests s in
      case send L N (Text (batch_to_string L calls)) s1 of
        (Inl _, s2) \<Rightarrow>
          (BWaiting (map (\<lambda>_. FError (YumError ''Couldn't send request'')) responses), s2)
      | (Inr _, s2) \<Rightarrow> (BWaiting (map (\<lambda>(rx, d). FWaitingFn rx d) responses), s2))"

section \<open>The timeout thread\<close>

definition timed_out :: "json rslt" where
  "timed_out = Inl (RpcError ''Rpc request timed out'')"

text \<open>The inner loop over the ids of one bucket; the ids it answered are \<open>removed\<close>.\<close>

fun sweep_ids :: "usize list \<Rightarrow> sys \<Rightarrow> usize list \<times> sys" where
  "sweep_ids [] s = ([], s)"
| "sweep_ids (v # vs) s =
     (case pending s v of
        None \<Rightarrow> sweep_ids vs s
      | Some f \<Rightarrow> apfst (Cons v) (sweep_ids vs (answer v timed_out s)))"

fun sweep_buckets :: "int \<Rightarrow> (int \<times> usize list) list \<Rightarrow> sys \<Rightarrow> usize list \<times> sys" where
  "sweep_buckets now [] s = ([], s)"
| "sweep_buckets now ((k, vs) # bs) s =
     (if now - k \<ge> 10
      then (case sweep_ids vs s of (r, s1) \<Rightarrow> apfst (append r) (sweep_buckets now bs s1))
      else sweep_buckets now bs s)"

text \<open>
  One pass of the loop body: the answered ids, cast to \<open>i64\<close>, are the keys that are removed
  from the map of timestamps.
\<close>

definition sweep :: "int \<Rightarrow> sys \<Rightarrow> sys" where
  "sweep now s =
     (case sweep_buckets now (ts s) s of
        (removed, s1) \<Rightarrow>
          s1\<lparr>ts := fold (\<lambda>rem. filter (\<lambda>b. fst b \<noteq> sint rem)) removed (ts s1)\<rparr>)"

section \<open>Every operation is a sequence of steps\<close>

lemma steps_log: "client_steps s (log (Queue c m) s)" "client_steps s (log (HttpPost t) s)"
  by (blast intro: client_step.intros)+

lemma steps_answer: "client_steps s (answer i r s)"
  by (blast intro: client_step.intros)

lemma steps_dispatch: "client_steps s (dispatch r s)"
  by (cases r) (auto intro!: r_into_rtranclp client_step.intros)

lemma steps_http_dispatch: "client_steps s (http_dispatch r s)"
  by (auto simp: http_dispatch_def intro!: r_into_rtranclp client_step.intros split: prod.split)

lemma steps_fold:
  assumes "\<And>x s. client_steps s (f x s)"
  shows "client_steps s (fold f xs s)"
proof (induction xs arbitrary: s)
  case Nil
  then show ?case by simp
next
  case (Cons x xs)
  from assms [of s x] Cons [of "f x s"] show ?case by simp
qed

lemma steps_read_message: "read_message L msg s = Ret t \<Longrightarrow> client_steps s t"
  by (cases "handle_message L msg")
    (auto simp: read_message_def steps_fold steps_dispatch split: sum.splits)

lemma steps_send_http: "client_steps s (snd (send_http L N msg s))"
proof -
  have "client_steps (log (HttpPost msg) s) (snd (send_http L N msg s))"
    by (auto simp: send_http_def Let_def steps_fold steps_http_dispatch split: sum.split)
  with steps_log(2) show ?thesis by (rule rtranclp_trans)
qed

lemma steps_sockets: "client_steps s (s\<lparr>sockets := ws\<rparr>)"
  by (blast intro: client_step.intros)

lemma steps_send: "client_steps s (snd (send L N msg s))"
proof (cases "sockets s")
  case Nil
  then show ?thesis by (auto simp: send_def steps_send_http split: socket_request.split)
next
  case (Cons w rest)
  let ?s1 = "s\<lparr>sockets := rest\<rparr>"
  have "client_steps ?s1 (snd (send L N msg s))"
  proof (cases "ws_open N (wk_tx w)")
    case True
    let ?s2 = "log (Queue (wk_tx w) msg) ?s1"
    have "client_steps ?s2 (?s2\<lparr>sockets := sockets ?s2 @ [w]\<rparr>)" by (rule steps_sockets)
    with steps_log(1) have "client_steps ?s1 (?s2\<lparr>sockets := sockets ?s2 @ [w]\<rparr>)"
      by (rule rtranclp_trans)
    with True Cons show ?thesis by (simp add: send_def send_request_def Let_def)
  next
    case False
    with Cons show ?thesis
      by (auto simp: send_def send_request_def Let_def steps_send_http split: socket_request.split)
  qed
  with steps_sockets show ?thesis by (rule rtranclp_trans)
qed

lemma steps_stamp: "client_steps s (stamp now i s)"
  unfolding stamp_def by (blast intro: client_step.intros)

lemma steps_register: "client_steps s (snd (snd (register s)))"
  by (blast intro: client_step.intros)

lemma steps_register_all: "client_steps s (snd (snd (register_all reqs s)))"
proof (induction reqs s rule: register_all.induct)
  case (1 s)
  then show ?case by simp
next
  case (2 mth ps d reqs s)
  obtain i rx s1 where reg: "register s = (i, rx, s1)" by (cases "register s") auto
  obtain calls resp s2 where all: "register_all reqs s1 = (calls, resp, s2)"
    by (cases "register_all reqs s1") auto
  have "client_steps s1 s2" using "2.IH" [OF reg [symmetric]] all by auto
  with steps_register [of s] have "client_steps s s2" by (simp add: reg)
  then show ?case by (simp add: reg all)
qed

lemma steps_request: "client_steps s (snd (request L N now method ps d s))"
proof -
  obtain i rx s1 where reg: "register s = (i, rx, s1)" by (cases "register s") auto
  let ?m = "Text (call_to_string L (build_request i method ps))"
  have "client_steps s s1" using steps_register [of s] by (simp add: reg)
  also have "client_steps s1 (stamp now i s1)" by (rule steps_stamp)
  also have "client_steps (stamp now i s1) (snd (send L N ?m (stamp now i s1)))"
    by (rule steps_send)
  finally show ?thesis
    by (cases "send L N ?m (stamp now i s1)") (auto simp: request_def reg Let_def split: sum.split)
qed

lemma steps_batch_request: "client_steps s (snd (batch_request L N reqs s))"
proof -
  obtain calls resp s1 where all: "register_all reqs s = (calls, resp, s1)"
    by (cases "register_all reqs s") auto
  have "client_steps s s1" using steps_register_all [of s reqs] by (simp add: all)
  also have "client_steps s1 (snd (send L N (Text (batch_to_string L calls)) s1))"
    by (rule steps_send)
  finally show ?thesis
    by (cases "send L N (Text (batch_to_string L calls)) s1")
      (auto simp: batch_request_def all split: sum.split)
qed

lemma steps_sweep_ids: "client_steps s (snd (sweep_ids vs s))"
proof (induction vs s rule: sweep_ids.induct)
  case (1 s)
  then show ?case by simp
next
  case (2 v vs s)
  show ?case
  proof (cases "pending s v")
    case None
    with 2(1) show ?thesis by simp
  next
    case (Some f)
    from steps_answer [of s v timed_out] 2(2) [OF Some] Some show ?thesis by simp
  qed
qed

lemma steps_sweep_buckets: "client_steps s (snd (sweep_buckets now bs s))"
proof (induction now bs s rule: sweep_buckets.induct)
  case (1 now s)
  then show ?case by simp
next
  case (2 now k vs bs s)
  show ?case
  proof (cases "now - k \<ge> 10")
    case True
    obtain r s1 where ids: "sweep_ids vs s = (r, s1)" by fastforce
    have "client_steps s s1" using steps_sweep_ids [of s vs] by (simp add: ids)
    also have "client_steps s1 (snd (sweep_buckets now bs s1))" using 2(1) [OF True] ids by simp
    finally show ?thesis using True ids by simp
  next
    case False
    with 2(2) show ?thesis by simp
  qed
qed

lemma steps_sweep: "client_steps s (sweep now s)"
proof -
  obtain removed s1 where b: "sweep_buckets now (ts s) s = (removed, s1)" by fastforce
  have "client_steps s s1" using steps_sweep_buckets [of s now "ts s"] by (simp add: b)
  also have "client_steps s1 (sweep now s)" by (auto simp: sweep_def b intro: client_step.intros)
  finally show ?thesis .
qed

section \<open>What the operations do to the table\<close>

lemma register_simps [simp]:
  "fst (register s) = ids s"
  "fst (snd (register s)) = next_chan s"
  "pending (snd (snd (register s))) = (pending s)(ids s \<mapsto> next_chan s)"
  "ids (snd (snd (register s))) = ids s + 1"
  "next_chan (snd (snd (register s))) = Suc (next_chan s)"
  "ts (snd (snd (register s))) = ts s"
  "sockets (snd (snd (register s))) = sockets s"
  "subscriptions (snd (snd (register s))) = subscriptions s"
  by (simp_all add: client_defs)

lemma register_all_Cons:
  "register_all ((method, ps, d) # reqs) s =
     (case register_all reqs (snd (snd (register s))) of
        (calls, responses, t) \<Rightarrow>
          (build_request (ids s) method ps # calls, (next_chan s, d) # responses, t))"
proof -
  have reg: "register s = (ids s, next_chan s, snd (snd (register s)))"
    by (simp add: prod_eq_iff)
  show ?thesis unfolding register_all.simps by (subst reg) (simp add: Let_def)
qed

declare register_all.simps(2) [simp del]

lemma register_all_state:
  "snd (snd (register_all (req # reqs) s)) = snd (snd (register_all reqs (snd (snd (register s)))))"
  by (cases req; cases "register_all reqs (snd (snd (register s)))") (simp add: register_all_Cons)

text \<open>
  The members of a batch: consecutive ids, consecutive new channels, the given decoders; the
  table holds each of them, and the timestamps and workers are untouched.
\<close>

lemma register_all_frame:
  "ts (snd (snd (register_all reqs s))) = ts s \<and>
   sockets (snd (snd (register_all reqs s))) = sockets s \<and>
   ids (snd (snd (register_all reqs s))) = ids s + word_of_nat (length reqs) \<and>
   next_chan (snd (snd (register_all reqs s))) = next_chan s + length reqs \<and>
   map fst (fst (snd (register_all reqs s))) = [next_chan s..<next_chan s + length reqs] \<and>
   map snd (fst (snd (register_all reqs s))) = map (snd \<circ> snd) reqs"
proof (induction reqs arbitrary: s)
  case Nil
  then show ?case by simp
next
  case (Cons req reqs)
  obtain mth ps d where "req = (mth, ps, d)" by (cases req)
  with Cons [of "snd (snd (register s))"] show ?case
    by (auto simp: register_all_Cons upt_conv_Cons simp del: upt_Suc split: prod.splits)
qed

lemma register_all_keeps:
  "(\<forall>k < length reqs. i \<noteq> ids s + word_of_nat k) \<Longrightarrow>
     pending (snd (snd (register_all reqs s))) i = pending s i"
proof (induction reqs arbitrary: s)
  case Nil
  then show ?case by simp
next
  case (Cons req reqs)
  have "\<forall>k < length reqs. i \<noteq> ids (snd (snd (register s))) + word_of_nat k"
  proof (intro allI impI)
    fix k
    assume "k < length reqs"
    then have "i \<noteq> ids s + word_of_nat (Suc k)" using Cons.prems by auto
    then show "i \<noteq> ids (snd (snd (register s))) + word_of_nat k" by (simp add: ac_simps)
  qed
  from Cons.IH [OF this] have "pending (snd (snd (register_all (req # reqs) s))) i =
      pending (snd (snd (register s))) i"
    by (simp only: register_all_state)
  also have "\<dots> = pending s i"
    using Cons.prems by (auto dest!: spec [where x = 0])
  finally show ?case .
qed

text \<open>The state of a request between its registration and the sending of its message.\<close>

definition enrolled :: "int \<Rightarrow> sys \<Rightarrow> sys" where
  "enrolled now s = stamp now (ids s) (snd (snd (register s)))"

lemma request_send:
  "request L N now method ps d s =
     (let m = call_to_string L (build_request (ids s) method ps);
          (r, t) = send L N (Text m) (enrolled now s)
      in ((case r of Inl _ \<Rightarrow> FError (YumError (''Couldn't send request: '' @ m))
           | Inr _ \<Rightarrow> FWaiting (next_chan s) d), t))"
proof -
  have reg: "register s = (ids s, next_chan s, snd (snd (register s)))"
    by (simp add: prod_eq_iff)
  show ?thesis
    unfolding request_def enrolled_def
    by (subst reg) (auto simp: Let_def split: sum.split prod.split)
qed

lemma enrolled_simps [simp]:
  "pending (enrolled now s) = (pending s)(ids s \<mapsto> next_chan s)"
  "ids (enrolled now s) = ids s + 1"
  "sockets (enrolled now s) = sockets s"
  "ts (enrolled now s) = ts_push now (ids s) (ts s)"
  by (simp_all add: enrolled_def stamp_def)

lemma request_waiting:
  assumes "request L N now method ps d s = (FWaiting rx d', t)"
  shows "rx = next_chan s \<and> d' = d \<and> client_steps (enrolled now s) t"
proof -
  let ?m = "call_to_string L (build_request (ids s) method ps)"
  obtain r t' where send: "send L N (Text ?m) (enrolled now s) = (r, t')" by fastforce
  have "client_steps (enrolled now s) t'"
    using steps_send [of "enrolled now s" L N "Text ?m"] by (simp add: send)
  with assms send show ?thesis
    by (auto simp: request_send Let_def split: sum.splits)
qed

lemma request_tracked:
  assumes "request L N now method ps d s = (FWaiting rx d', t)" and "client_steps t u"
  shows "pending u (ids s) = Some rx \<or> rx \<in> set (used u)"
proof -
  from request_waiting [OF assms(1)] have rx: "rx = next_chan s"
    and steps: "client_steps (enrolled now s) t" by auto
  from steps assms(2) have "client_steps (enrolled now s) u" by (rule rtranclp_trans)
  from pending_steps [OF this, of "ids s" rx] show ?thesis by (simp add: rx)
qed

subsection \<open>Delivery\<close>

lemma dispatch_reply_of: "dispatch (reply_of L out) s =
    answer (reply_id (reply_of L out)) (reply_result (reply_of L out)) s"
  by (cases out) (simp_all add: reply_of_def Let_def)

lemma answer_Some:
  "pending s i = Some c \<Longrightarrow>
     answer i r s = s\<lparr>pending := (pending s)(i := None), trace := trace s @ [Answer c r]\<rparr>"
  by (simp add: answer_def log_def)

lemma read_single:
  assumes "response_from_str L txt = Inr (RespSingle out)" and "output_id out = IdNum i"
  shows "read_message L (MsgText txt) s = Ret (answer i (reply_result (reply_of L out)) s)"
proof -
  have num: "has_number out" and "reply_id (reply_of L out) = i"
    using assms(2) by (cases out; simp add: has_number_def reply_of_def)+
  then show ?thesis
    using assms(1)
    by (simp add: read_message_def handle_text_message_def handle_output_reply dispatch_reply_of)
qed

text \<open>Delivering a list of replies whose ids are distinct and all registered.\<close>

lemma fold_dispatch_registered:
  assumes "list_all2 (\<lambda>r c. \<not> is_subscription r \<and> pending s (reply_id r) = Some c) rs cs"
    and "distinct (map reply_id rs)"
  shows "fold dispatch rs s =
    s\<lparr>pending := (\<lambda>i. if i \<in> reply_id ` set rs then None else pending s i),
      trace := trace s @ map2 Answer cs (map reply_result rs)\<rparr>"
  using assms
proof (induction rs arbitrary: s cs)
  case Nil
  then show ?case by simp
next
  case (Cons r rs)
  then obtain c cs' where cs: "cs = c # cs'" and c: "\<not> is_subscription r" "pending s (reply_id r) = Some c"
    and rest: "list_all2 (\<lambda>r c. \<not> is_subscription r \<and> pending s (reply_id r) = Some c) rs cs'"
    by (auto simp: list_all2_Cons1)
  let ?s1 = "s\<lparr>pending := (pending s)(reply_id r := None),
    trace := trace s @ [Answer c (reply_result r)]\<rparr>"
  have "dispatch r s = ?s1"
    using c by (cases r) (auto simp: answer_def log_def)
  moreover have "list_all2 (\<lambda>r c. \<not> is_subscription r \<and> pending ?s1 (reply_id r) = Some c) rs cs'"
    using Cons.prems(2) by (intro list.rel_mono_strong [OF rest]) (auto simp: image_iff)
  ultimately show ?case
    using Cons.IH [of ?s1 cs'] Cons.prems(2) cs by (auto simp: fun_eq_iff)
qed

lemma numeric_outputs:
  "map output_id outs = map IdNum js \<Longrightarrow>
     list_all has_number outs \<and> map reply_id (map (reply_of L) outs) = js"
proof (induction outs arbitrary: js)
  case Nil
  then show ?case by simp
next
  case (Cons out outs)
  then obtain j js' where "js = j # js'" "output_id out = IdNum j" "map output_id outs = map IdNum js'"
    by (auto simp: Cons_eq_map_conv)
  with Cons.IH show ?case by (cases out) (auto simp: reply_of_def has_number_def)
qed

subsection \<open>The timeout pass\<close>

text \<open>The answers owed to a set of ids, and the table without these ids.\<close>

definition late :: "(usize \<rightharpoonup> chan) \<Rightarrow> usize set \<Rightarrow> event set" where
  "late p V = {e. \<exists>v c. v \<in> V \<and> p v = Some c \<and> e = Answer c timed_out}"

definition without :: "(usize \<rightharpoonup> chan) \<Rightarrow> usize set \<Rightarrow> (usize \<rightharpoonup> chan)" where
  "without p V = (\<lambda>i. if i \<in> V then None else p i)"

lemma late_empty [simp]: "late p {} = {}"
  by (simp add: late_def)

lemma late_Un: "late p (V \<union> W) = late p V \<union> late (without p V) W"
  unfolding late_def without_def by (auto split: if_splits)

lemma late_insert: "late p (insert v W) =
    (case p v of None \<Rightarrow> {} | Some c \<Rightarrow> {Answer c timed_out}) \<union> late (without p {v}) W"
  using late_Un [of p "{v}" W] by (auto simp: late_def split: option.split)

lemma without_simps [simp]:
  "without p {} = p"
  "without (without p V) W = without p (V \<union> W)"
  "p v = None \<Longrightarrow> without p (insert v V) = without p V"
  "without (p(v := None)) V = without p (insert v V)"
  by (auto simp: without_def fun_eq_iff)

text \<open>
  What a pass over the ids \<open>V\<close> does: it empties their entries, leaves the timestamps alone,
  reports the ids that were pending, and appends exactly the answers owed to them.
\<close>

definition swept :: "usize set \<Rightarrow> sys \<Rightarrow> usize list \<times> sys \<Rightarrow> bool" where
  "swept V s res \<longleftrightarrow>
     pending (snd res) = without (pending s) V \<and> ts (snd res) = ts s \<and>
     set (fst res) = {v \<in> V. pending s v \<noteq> None} \<and>
     (\<exists>es. trace (snd res) = trace s @ es \<and> set es = late (pending s) V)"

lemma sweptI:
  assumes "pending t = without (pending s) V" and "ts t = ts s" and "set r = {v \<in> V. pending s v \<noteq> None}"
    and "trace t = trace s @ es" and "set es = late (pending s) V"
  shows "swept V s (r, t)"
  using assms by (auto simp: swept_def)

lemma swept_append:
  assumes "swept V s (r1, s1)" and "swept W s1 (r2, s2)"
  shows "swept (V \<union> W) s (r1 @ r2, s2)"
proof -
  obtain es1 where 1: "pending s1 = without (pending s) V" "ts s1 = ts s" "set r1 = {v \<in> V. pending s v \<noteq> None}"
    "trace s1 = trace s @ es1" "set es1 = late (pending s) V"
    using assms(1) by (auto simp: swept_def)
  obtain es2 where 2: "pending s2 = without (pending s1) W" "ts s2 = ts s1" "set r2 = {v \<in> W. pending s1 v \<noteq> None}"
    "trace s2 = trace s1 @ es2" "set es2 = late (pending s1) W"
    using assms(2) by (auto simp: swept_def)
  show ?thesis
    using 1 2 by (intro sweptI [where es = "es1 @ es2"]) (auto simp: late_Un without_def)
qed

lemma sweep_ids_swept: "swept (set vs) s (sweep_ids vs s)"
proof (induction vs s rule: sweep_ids.induct)
  case (1 s)
  then show ?case by (simp add: swept_def)
next
  case (2 v vs s)
  show ?case
  proof (cases "pending s v")
    case None
    have "late (pending s) (insert v (set vs)) = late (pending s) (set vs)"
      using None by (simp add: late_insert)
    with 2(1) [OF None] None show ?thesis by (auto simp: swept_def)
  next
    case (Some c)
    let ?s1 = "answer v timed_out s"
    have one: "swept {v} s ([v], ?s1)"
      using Some
      by (intro sweptI [where es = "[Answer c timed_out]"])
        (auto simp: answer_def log_def without_def late_def fun_eq_iff)
    obtain r t where rest: "sweep_ids vs ?s1 = (r, t)" by fastforce
    from swept_append [OF one] 2(2) [OF Some] have "swept ({v} \<union> set vs) s ([v] @ r, t)"
      by (simp add: rest)
    with Some rest show ?thesis by simp
  qed
qed

definition expired :: "int \<Rightarrow> (int \<times> usize list) list \<Rightarrow> usize set" where
  "expired now bs = (\<Union>b \<in> {b \<in> set bs. now - fst b \<ge> 10}. set (snd b))"

lemma expired_simps [simp]:
  "expired now [] = {}"
  "expired now ((k, vs) # bs) = (if now - k \<ge> 10 then set vs else {}) \<union> expired now bs"
  by (auto simp: expired_def)

lemma sweep_buckets_swept: "swept (expired now bs) s (sweep_buckets now bs s)"
proof (induction now bs s rule: sweep_buckets.induct)
  case (1 now s)
  then show ?case by (simp add: swept_def)
next
  case (2 now k vs bs s)
  show ?case
  proof (cases "now - k \<ge> 10")
    case False
    with 2(2) show ?thesis by simp
  next
    case True
    obtain r s1 where ids: "sweep_ids vs s = (r, s1)" by fastforce
    obtain r' t where rest: "sweep_buckets now bs s1 = (r', t)" by fastforce
    have "swept (set vs) s (r, s1)" using sweep_ids_swept [of vs s] by (simp add: ids)
    moreover have "swept (expired now bs) s1 (r', t)"
      using 2(1) [OF True ids [symmetric]] by (simp add: rest)
    ultimately have "swept (set vs \<union> expired now bs) s (r @ r', t)" by (rule swept_append)
    with True ids rest show ?thesis by simp
  qed
qed

lemma sweep_pending: "pending (sweep now s) = without (pending s) (expired now (ts s))"
  using sweep_buckets_swept [of now "ts s" s]
  by (auto simp: sweep_def swept_def split: prod.splits)

lemma sweep_trace:
  "\<exists>es. trace (sweep now s) = trace s @ es \<and> set es = late (pending s) (expired now (ts s))"
  using sweep_buckets_swept [of now "ts s" s]
  by (auto simp: sweep_def swept_def split: prod.splits)

lemma fold_filter_keys:
  "fold (\<lambda>rem. filter (\<lambda>b. fst b \<noteq> sint rem)) rs bs = filter (\<lambda>b. fst b \<notin> sint ` set rs) bs"
  by (induction rs arbitrary: bs) (auto intro!: filter_cong)

lemma sweep_ts: "ts (sweep now s) =
    filter (\<lambda>b. fst b \<notin> sint ` {v \<in> expired now (ts s). pending s v \<noteq> None}) (ts s)"
  using sweep_buckets_swept [of now "ts s" s]
  by (auto simp: sweep_def swept_def fold_filter_keys split: prod.splits)

subsection \<open>Sending\<close>

lemma answer_frame [simp]:
  "ts (answer i r s) = ts s" "sockets (answer i r s) = sockets s" "ids (answer i r s) = ids s"
  "subscriptions (answer i r s) = subscriptions s"
  by (simp_all add: answer_def log_def split: option.split)

lemma fold_http_dispatch_frame [simp]:
  "ts (fold http_dispatch rs s) = ts s" "sockets (fold http_dispatch rs s) = sockets s"
  "ids (fold http_dispatch rs s) = ids s"
  by (induction rs arbitrary: s) (simp_all add: http_dispatch_def split: prod.split)

lemma send_http_frame [simp]:
  "ts (snd (send_http L N m s)) = ts s" "sockets (snd (send_http L N m s)) = sockets s"
  "ids (snd (send_http L N m s)) = ids s"
  by (auto simp: send_http_def Let_def log_def split: sum.split)

lemma send_open:
  "sockets s = w # rest \<Longrightarrow> ws_open N (wk_tx w) \<Longrightarrow>
     send L N msg s = (Inr (), s\<lparr>sockets := rest @ [w], trace := trace s @ [Queue (wk_tx w) msg]\<rparr>)"
  by (simp add: send_def send_request_def Let_def log_def)

lemma send_closed:
  "sockets s = w # rest \<Longrightarrow> \<not> ws_open N (wk_tx w) \<Longrightarrow>
     send L N (Text m) s = send_http L N m (s\<lparr>sockets := rest\<rparr>)"
  by (simp add: send_def send_request_def Let_def)

lemma send_ts [simp]: "ts (snd (send L N msg s)) = ts s"
  by (auto simp: send_def send_request_def Let_def log_def split: list.split socket_request.split)

lemma read_batch:
  assumes "response_from_str L txt = Inr (RespBatch outs)"
    and "map output_id outs = map IdNum js" and "distinct js"
    and "map (pending s) js = map Some cs"
  shows "read_message L (MsgText txt) s =
    Ret (s\<lparr>pending := without (pending s) (set js),
           trace := trace s @ map2 Answer cs (map (reply_result \<circ> reply_of L) outs)\<rparr>)"
proof -
  let ?rs = "map (reply_of L) outs"
  have num: "list_all has_number outs" and ids: "map reply_id ?rs = js"
    using numeric_outputs [OF assms(2)] by auto
  have "list_all2 (\<lambda>r c. \<not> is_subscription r \<and> pending s (reply_id r) = Some c) ?rs cs"
    using assms(4) unfolding ids [symmetric]
    by (auto simp: list_all2_conv_all_nth list_eq_iff_nth_eq reply_of_def Let_def
        split: rpc_output.split)
  from fold_dispatch_registered [OF this] have
    "fold dispatch ?rs s =
      s\<lparr>pending := (\<lambda>i. if i \<in> reply_id ` set ?rs then None else pending s i),
        trace := trace s @ map2 Answer cs (map reply_result ?rs)\<rparr>"
    using assms(3) unfolding ids by blast
  moreover have "reply_id ` set ?rs = set js"
    using arg_cong [OF ids, of set] by (simp add: image_comp comp_def)
  moreover have "handle_response L (RespBatch outs) = Inr ?rs"
    using num by (simp add: handle_batch_output_def collect_results_Inr handle_output_reply list_all_iff)
  ultimately show ?thesis
    using assms(1) by (simp only: read_message_def handle_text_message_def handle_message.simps
        sum.case obind_simps without_def map_map)
qed

section \<open>The oneshot channel\<close>

text \<open>
  What the futures crate promises of a oneshot channel: the receiver of a channel on which a
  message was sent yields that message, and the receiver of a dropped sender is cancelled.
\<close>

definition oneshot_contract :: "event list \<Rightarrow> world \<Rightarrow> bool" where
  "oneshot_contract es w \<longleftrightarrow>
     (\<forall>c r. Answer c r \<in> set es \<longrightarrow> w c = RxReady r) \<and>
     (\<forall>c. Cancel c \<in> set es \<longrightarrow> w c = RxCanceled)"

lemma poll_ready: "w c = RxReady r \<Longrightarrow> fst (yf_poll w (FWaiting c d)) = map_ok Ready (and_then r d)"
  by (simp add: map_ok_def split: sum.split)

section \<open>A small client\<close>

text \<open>A library value that reads every text as one response, and a client with one worker.\<close>

definition demo_lib :: "rpc_response \<Rightarrow> rpc_lib" where
  "demo_lib resp = codec.extend ref_codec
     (rpc_lib.fields (\<lambda>_. Inr resp) (\<lambda>_. Inr resp) (\<lambda>_. Inl ''eof'') (\<lambda>_. ''id'') (\<lambda>_. ''error'')
        (\<lambda>_. ''call'') (\<lambda>_. ''batch''))"

lemma demo_lib_simps [simp]:
  "response_from_str (demo_lib resp) txt = Inr resp"
  "call_to_string (demo_lib resp) call = ''call''"
  "batch_to_string (demo_lib resp) calls = ''batch''"
  by (simp_all add: demo_lib_def codec.defs rpc_lib.defs)

definition demo_worker :: worker where
  "demo_worker = \<lparr>wk_id = 0, wk_host = ''127.0.0.1:8546'', wk_tx = 0, wk_thread = Some 0\<rparr>"

definition demo_sys :: sys where
  "demo_sys = \<lparr>hosts = [''127.0.0.1:8546''], cl_timeout = 5, worker_id = 1, sockets = [demo_worker],
     ids = 1, pending = Map.empty, subscriptions = Map.empty, ts = [], ts_thread = None,
     sentinel_thread = None, reconnection_attempts = 0, next_chan = 1, next_thread = 1, trace = []\<rparr>"

definition demo_net :: net where
  "demo_net = \<lparr>ws_open = (\<lambda>_. True), http_post = (\<lambda>_. Inl ''refused''),
     status_reply = (\<lambda>_. Some True), ping_reply = (\<lambda>_. Some Pong)\<rparr>"

section \<open>Properties\<close>

text \<open>
  C2: No request is answered twice. In every state that any interleaving of the user's
  threads, the socket threads, the timeout thread and the drop of the client can reach, the
  channels that were answered or dropped are pairwise different, none of them is still in the
  table of pending requests, and no two entries of the table share a channel.
\<close>

theorem answered_at_most_once:
  assumes "reach client_start client_step s"
  shows "distinct (answered (trace s) @ cancelled (trace s)) \<and>
    set (answered (trace s) @ cancelled (trace s)) \<inter> ran (pending s) = {} \<and> map_inj (pending s)"
  using table.inv_reach [OF assms] by (auto simp: table_inv_def used_def)

theorem answered_at_most_once_witness:
  "let s = answer 1 (Inr JNull) (snd (snd (register demo_sys))) in
   distinct (answered (trace s) @ cancelled (trace s)) \<and>
    set (answered (trace s) @ cancelled (trace s)) \<inter> ran (pending s) = {} \<and> map_inj (pending s)"
proof -
  have "reach client_start client_step demo_sys"
    by (rule reach_start) (simp add: client_start_def demo_sys_def)
  then have "reach client_start client_step (snd (snd (register demo_sys)))"
    by (rule reach_step) (rule step_register)
  then have "reach client_start client_step (answer 1 (Inr JNull) (snd (snd (register demo_sys))))"
    by (rule reach_step) (rule step_answer)
  from answered_at_most_once [OF this] show ?thesis by (simp only: Let_def)
qed

text \<open>
  C5: A request is never lost. From the moment \<open>request\<close> returns a waiting future, in every
  later state the request is still registered under its id with the channel of that future,
  or that channel has been answered, or it has been dropped (by the drop of the client or by
  an id that came around again after 2^64 requests).
\<close>

theorem request_never_lost:
  assumes "request L N now method ps d s = (FWaiting rx d', t)" and "client_steps t u"
  shows "pending u (ids s) = Some rx \<or> rx \<in> set (answered (trace u)) \<or> rx \<in> set (cancelled (trace u))"
  using request_tracked [OF assms] by (simp add: used_def)

theorem request_never_lost_witness:
  "\<exists>t. request (demo_lib (RespBatch [])) demo_net 100 ''eth_accounts'' [] Inr demo_sys =
      (FWaiting 1 Inr, t) \<and>
    (pending t (ids demo_sys) = Some 1 \<or> 1 \<in> set (answered (trace t)) \<or> 1 \<in> set (cancelled (trace t)))"
proof -
  let ?r = "request (demo_lib (RespBatch [])) demo_net 100 ''eth_accounts'' [] Inr demo_sys"
  have r: "?r = (FWaiting 1 Inr, snd ?r)"
    by (simp add: request_send send_def send_request_def demo_net_def demo_sys_def demo_worker_def
        prod_eq_iff Let_def)
  from r request_never_lost [OF r rtranclp.rtrancl_refl] show ?thesis by blast
qed

text \<open>
  C1: A response reaches the future of its request. Let \<open>request\<close> return a waiting future,
  let anything happen for as long as the request stays pending, and let a text message arrive
  that parses as a single response carrying the request's id. Then handling it removes the
  request from the table, and, the oneshot channel keeping its contract, the next poll of that
  future yields the decoded result of a success, the decoder's error, or the rendered error
  of a failure.
\<close>

theorem response_resolves_future:
  assumes "request L N now method ps d s = (FWaiting rx d', t)" and "client_steps t u"
    and "rx \<notin> set (answered (trace u))" and "rx \<notin> set (cancelled (trace u))"
    and "response_from_str L txt = Inr (RespSingle out)" and "output_id out = IdNum (ids s)"
    and "read_message L (MsgText txt) u = Ret v" and "oneshot_contract (trace v) w"
  shows "pending v (ids s) = None \<and>
    fst (yf_poll w (FWaiting rx d')) =
      (case out of
         OutSuccess x \<Rightarrow> map_ok Ready (d (success_result x))
       | OutFailure x \<Rightarrow> Inl (YumError (debug_rpc_error L (failure_error x))))"
proof -
  have pend: "pending u (ids s) = Some rx" and d': "d' = d"
    using request_tracked [OF assms(1,2)] assms(3,4) request_waiting [OF assms(1)]
    by (auto simp: used_def)
  let ?r = "reply_result (reply_of L out)"
  have v: "v = answer (ids s) ?r u"
    using read_single [OF assms(5,6), of u] assms(7) by simp
  then have "Answer rx ?r \<in> set (trace v)" and none: "pending v (ids s) = None"
    using answer_Some [OF pend] by auto
  then have "w rx = RxReady ?r" using assms(8) by (simp add: oneshot_contract_def)
  from poll_ready [of w rx ?r d, OF this] none show ?thesis
    by (cases out) (simp_all add: d' reply_of_def Let_def)
qed

theorem response_resolves_future_witness:
  "\<exists>rx t u v. let L = demo_lib (RespSingle (OutSuccess \<lparr>success_result = JBool True, success_id = IdNum 1\<rparr>)) in
    request L demo_net 100 ''eth_syncing'' [] Inr demo_sys = (FWaiting rx Inr, t) \<and>
    read_message L (MsgText ''reply'') t = Ret v \<and> pending v 1 = None \<and>
    fst (yf_poll (\<lambda>_. RxReady (Inr (JBool True))) (FWaiting rx Inr)) = Inr (Ready (JBool True))"
proof -
  let ?out = "OutSuccess \<lparr>success_result = JBool True, success_id = IdNum 1\<rparr>"
  let ?L = "demo_lib (RespSingle ?out)"
  let ?r = "request ?L demo_net 100 ''eth_syncing'' [] Inr demo_sys"
  have r: "?r = (FWaiting 1 Inr, snd ?r)" and tr: "trace (snd ?r) = [Queue 0 (Text ''call'')]"
    and pend: "pending (snd ?r) 1 = Some 1"
    by (simp_all add: request_send send_def send_request_def demo_net_def demo_sys_def
        demo_worker_def prod_eq_iff enrolled_def client_defs Let_def)
  let ?v = "answer 1 (Inr (JBool True)) (snd ?r)"
  have v: "read_message ?L (MsgText ''reply'') (snd ?r) = Ret ?v"
    by (simp add: read_single [where out = ?out and i = 1] output_id_def reply_of_def)
  have "oneshot_contract (trace ?v) (\<lambda>_. RxReady (Inr (JBool True)))"
    using tr pend by (simp add: oneshot_contract_def answer_def log_def)
  from response_resolves_future [OF r rtranclp.rtrancl_refl _ _ _ _ v this, of ?out] tr
  have "pending ?v 1 = None \<and>
      fst (yf_poll (\<lambda>_. RxReady (Inr (JBool True))) (FWaiting 1 Inr)) = Inr (Ready (JBool True))"
    by (simp add: output_id_def demo_sys_def)
  with r v show ?thesis
    by (intro exI [of _ 1] exI [of _ "snd ?r"] exI [of _ ?v]) (simp add: Let_def)
qed

text \<open>
  C11: A batch answer reaches every member. When a text message parses as a batch response
  whose outputs carry distinct numeric ids that are all registered, handling it sends each
  output's result to the channel registered under its id, once, in the order of the outputs,
  removes exactly these ids from the table, and touches nothing else.
\<close>

theorem batch_answers_delivered:
  assumes "response_from_str L txt = Inr (RespBatch outs)"
    and "map output_id outs = map IdNum js" and "distinct js"
    and "map (pending s) js = map Some cs"
  shows "read_message L (MsgText txt) s =
    Ret (s\<lparr>pending := without (pending s) (set js),
           trace := trace s @ map2 Answer cs (map (reply_result \<circ> reply_of L) outs)\<rparr>)"
  using assms by (rule read_batch)

theorem batch_answers_delivered_witness:
  "let s = demo_sys\<lparr>pending := [1 \<mapsto> 7, 2 \<mapsto> 8]\<rparr>;
       outs = [OutSuccess \<lparr>success_result = JBool True, success_id = IdNum 2\<rparr>,
               OutFailure \<lparr>failure_error = JNull, failure_id = IdNum 1\<rparr>]
   in read_message (demo_lib (RespBatch outs)) (MsgText ''reply'') s =
     Ret (s\<lparr>pending := without (pending s) (set [2, 1]),
            trace := trace s @ map2 Answer [8, 7] (map (reply_result \<circ> reply_of (demo_lib (RespBatch outs))) outs)\<rparr>)"
  unfolding Let_def
  by (rule batch_answers_delivered) (simp_all add: output_id_def)

text \<open>
  C15: The timeout pass. One pass of the timeout thread at time \<open>now\<close> empties the table of
  exactly the pending ids that a bucket at least ten seconds old lists, and appends, for each
  of them, the answer \<open>Rpc request timed out\<close> on its channel and nothing else. In particular
  a request made ten or more seconds ago does not survive the next pass.
\<close>

theorem sweep_times_out:
  "pending (sweep now s) = without (pending s) (expired now (ts s)) \<and>
   (\<exists>es. trace (sweep now s) = trace s @ es \<and>
      set es = {Answer c (Inl (RpcError ''Rpc request timed out'')) |v c.
                  v \<in> expired now (ts s) \<and> pending s v = Some c})"
proof -
  have "late p V = {Answer c (Inl (RpcError ''Rpc request timed out'')) |v c. v \<in> V \<and> p v = Some c}"
    for p V by (auto simp: late_def timed_out_def)
  with sweep_pending sweep_trace show ?thesis by metis
qed

text \<open>
  Batches never time out. \<open>batch_request\<close> registers its members without a timestamp: it
  leaves the buckets as they were. So a pass of the timeout thread right after it, however
  late, answers only ids that some bucket listed before the call: every other entry of the
  table, the members of the batch included, keeps its channel.
\<close>

lemma batch_never_times_out:
  assumes "batch_request L N reqs s = (b, t)" and "i \<notin> (\<Union>k \<in> set (ts s). set (snd k))"
  shows "ts t = ts s \<and> pending (sweep now t) i = pending t i"
proof -
  obtain calls resp s1 where all: "register_all reqs s = (calls, resp, s1)"
    by (cases "register_all reqs s") auto
  have "t = snd (send L N (Text (batch_to_string L calls)) s1)"
    using assms(1)
    by (cases "send L N (Text (batch_to_string L calls)) s1")
      (auto simp: batch_request_def all split: sum.splits)
  moreover have "ts s1 = ts s" using register_all_frame [of reqs s] by (simp add: all)
  ultimately have ts: "ts t = ts s" by simp
  then have "i \<notin> expired now (ts t)" using assms(2) by (auto simp: expired_def)
  with ts show ?thesis by (simp add: sweep_pending without_def)
qed

text \<open>
  C40: Buckets are freed by request id. A pass of the timeout thread keeps a bucket of the
  timestamp map exactly if its second is not the id (read as \<open>i64\<close>) of a request that the pass
  timed out. So the buckets that were swept stay in the map, to be scanned by every later
  pass, and once ids reach the order of timestamps a younger bucket can be removed, whose
  requests then never time out.
\<close>

theorem sweep_frees_by_id:
  "ts (sweep now s) =
     filter (\<lambda>(sec, _). \<forall>v \<in> expired now (ts s). pending s v \<noteq> None \<longrightarrow> sint v \<noteq> sec) (ts s)"
  unfolding sweep_ts by (rule filter_cong) auto

theorem sweep_frees_by_id_witness:
  "let s = demo_sys\<lparr>ts := [(1526000000, [1526000055]), (1526000055, [9])],
       pending := [1526000055 \<mapsto> 5, 9 \<mapsto> 6]\<rparr>;
       t = sweep 1526000060 s in
   ts t = [(1526000000, [1526000055])] \<and> pending t = [9 \<mapsto> 6]"
  unfolding Let_def
  by (simp add: sweep_frees_by_id sweep_pending without_def demo_sys_def fun_eq_iff)

end
