(* ===== verification/Rpc_Ops.thy ===== *)
theory Rpc_Ops
  imports Yum_Client
begin

text \<open>
  The operation traits of \<open>src/ops\<close>: \<open>OpSet\<close> (\<open>ops/mod.rs\<close>), \<open>BlockOps\<close> (\<open>ops/block.rs\<close>) and
  \<open>TransactionOps\<close> (\<open>ops/transaction.rs\<close>). Every implementor of \<open>OpSet\<close> (\<open>YumClient\<close>,
  \<open>BlockStream\<close>, \<open>TransactionStream\<close>) forwards its two methods to the client, so the methods
  of the traits are functions on the client's state.

  The models of Ethereum objects are another crate. Hashes and integers are words of their
  width; their serializers, parsers and \<open>Debug\<close> renderings are parameters (\<open>models\<close>), and so is
  the decoder of every object. Serializing a \<open>bool\<close>, a \<open>String\<close> or a \<open>Vec<Value>\<close> gives the JSON
  value of that kind; none of the serializers the code calls fails, so \<open>ser\<close> and the \<open>unwrap\<close>
  after \<open>to_value\<close> do not panic.
\<close>

section \<open>Ethereum values\<close>

type_synonym h160 = "160 word"
type_synonym h256 = "256 word"
type_synonym u256 = "256 word"

datatype block_number = Number u64 | Name string

text \<open>
  \<open>ser_contract_call a d\<close> is the serialized \<open>TransactionCall\<close> built by
  \<open>TransactionCall::empty().to(a).data(d).done()\<close>.
\<close>

record models =
  ser_h160 :: "h160 \<Rightarrow> json"
  ser_h256 :: "h256 \<Rightarrow> json"
  ser_u256 :: "u256 \<Rightarrow> json"
  ser_block_number :: "block_number \<Rightarrow> json"
  ser_contract_call :: "h160 \<Rightarrow> string \<Rightarrow> json"
  debug_h160 :: "h160 \<Rightarrow> string"
  debug_u256 :: "u256 \<Rightarrow> string"
  h160_from_str :: "string \<Rightarrow> h160 option"
  u256_from_str :: "string \<Rightarrow> u256 option"
  u256_from_value :: "json \<Rightarrow> string + u256"
  h160_from_value :: "json \<Rightarrow> string + h160"
  h160s_from_value :: "json \<Rightarrow> string + h160 list"

text \<open>\<open>U256::from(n)\<close> and \<open>U256::low_u64\<close>.\<close>

definition u256_from :: "u64 \<Rightarrow> u256" where
  "u256_from n = ucast n"

definition low_u64 :: "u256 \<Rightarrow> u64" where
  "low_u64 n = ucast n"

text \<open>What one call of an operation depends on besides the state and its arguments.\<close>

record env =
  lib :: rpc_lib
  netw :: net
  now :: int
  mdl :: models
  oc :: bool

section \<open>OpSet\<close>

definition op_request :: "env \<Rightarrow> string \<Rightarrow> json list \<Rightarrow> 't decoder \<Rightarrow> sys \<Rightarrow> 't yum_future \<times> sys" where
  "op_request E = request (lib E) (netw E) (now E)"

definition op_batch_request :: "env \<Rightarrow> 't req list \<Rightarrow> sys \<Rightarrow> ('t, 'j) yum_batch_future \<times> sys" where
  "op_batch_request E = batch_request (lib E) (netw E)"

definition kodec :: "env \<Rightarrow> codec" where
  "kodec E = codec.truncate (lib E)"

definition env_de_u64 :: "env \<Rightarrow> u64 decoder" where
  "env_de_u64 E = de_u64 (u256_from_value (mdl E)) low_u64"

definition contract_call_var :: "env \<Rightarrow> h160 \<Rightarrow> string \<Rightarrow> json" where
  "contract_call_var E address data = ser_contract_call (mdl E) address data"

definition contract_string_var :: "env \<Rightarrow> h160 \<Rightarrow> string \<Rightarrow> sys \<Rightarrow> string yum_future \<times> sys" where
  "contract_string_var E address method =
     op_request E ''eth_call'' [contract_call_var E address method] (contract_string (kodec E))"

section \<open>BlockOps\<close>

text \<open>\<open>bd\<close> is serde's decoder of \<open>Option<Block>\<close>.\<close>

definition get_block_by_hash ::
  "env \<Rightarrow> (json \<Rightarrow> string + 'b option) \<Rightarrow> h256 \<Rightarrow> bool \<Rightarrow> sys \<Rightarrow> 'b option yum_future \<times> sys" where
  "get_block_by_hash E bd block with_tx =
     op_request E ''eth_getBlockByHash'' [ser_h256 (mdl E) block, JBool with_tx] (de bd)"

definition get_block_by_number ::
  "env \<Rightarrow> (json \<Rightarrow> string + 'b option) \<Rightarrow> u64 \<Rightarrow> bool \<Rightarrow> sys \<Rightarrow> 'b option yum_future \<times> sys" where
  "get_block_by_number E bd block with_tx =
     op_request E ''eth_getBlockByNumber'' [ser_u256 (mdl E) (u256_from block), JBool with_tx] (de bd)"

definition block_arg :: "env \<Rightarrow> block_number \<Rightarrow> json" where
  "block_arg E block =
     (case block of Number n \<Rightarrow> ser_u256 (mdl E) (u256_from n) | Name n \<Rightarrow> JString n)"

definition block_req ::
  "env \<Rightarrow> (json \<Rightarrow> string + 'b option) \<Rightarrow> bool \<Rightarrow> block_number \<Rightarrow> 'b option req" where
  "block_req E bd with_tx block =
     (''eth_getBlockByNumber'', [block_arg E block, JBool with_tx], de bd)"

definition get_blocks_named ::
  "env \<Rightarrow> (json \<Rightarrow> string + 'b option) \<Rightarrow> bool \<Rightarrow> block_number list \<Rightarrow> sys \<Rightarrow>
     ('b option, 'j) yum_batch_future \<times> sys" where
  "get_blocks_named E bd with_tx blocks =
     op_batch_request E (map (block_req E bd with_tx) blocks)"

definition get_blocks ::
  "env \<Rightarrow> (json \<Rightarrow> string + 'b option) \<Rightarrow> bool \<Rightarrow> u64 list \<Rightarrow> sys \<Rightarrow>
     ('b option, 'j) yum_batch_future \<times> sys" where
  "get_blocks E bd with_tx blocks = get_blocks_named E bd with_tx (map Number blocks)"

text \<open>The range is \<open>from..to + 1\<close>: the addition is the program's and may overflow.\<close>

definition get_block_range ::
  "env \<Rightarrow> (json \<Rightarrow> string + 'b option) \<Rightarrow> bool \<Rightarrow> u64 \<Rightarrow> u64 \<Rightarrow> sys \<Rightarrow>
     (('b option, 'j) yum_batch_future \<times> sys) outcome" where
  "get_block_range E bd with_tx lo hi s =
     obind (checked_plus (oc E) hi 1) (\<lambda>till.
       Ret (get_blocks_named E bd with_tx (map Number (word_range lo till)) s))"

section \<open>TransactionOps\<close>

definition get_num_transactions_sent ::
  "env \<Rightarrow> h160 \<Rightarrow> block_number \<Rightarrow> sys \<Rightarrow> u64 yum_future \<times> sys" where
  "get_num_transactions_sent E address block =
     op_request E ''eth_getTransactionCount''
       [ser_h160 (mdl E) address, ser_block_number (mdl E) block] (env_de_u64 E)"

definition get_transaction ::
  "env \<Rightarrow> (json \<Rightarrow> string + 'x option) \<Rightarrow> h256 \<Rightarrow> sys \<Rightarrow> 'x option yum_future \<times> sys" where
  "get_transaction E xd tx_hash =
     op_request E ''eth_getTransactionByHash'' [ser_h256 (mdl E) tx_hash] (de xd)"

definition transaction_req :: "env \<Rightarrow> (json \<Rightarrow> string + 'x option) \<Rightarrow> h256 \<Rightarrow> 'x option req" where
  "transaction_req E xd tx = (''eth_getTransactionByHash'', [ser_h256 (mdl E) tx], de xd)"

definition get_transactions ::
  "env \<Rightarrow> (json \<Rightarrow> string + 'x option) \<Rightarrow> h256 list \<Rightarrow> sys \<Rightarrow>
     ('x option, 'j) yum_batch_future \<times> sys" where
  "get_transactions E xd txns = op_batch_request E (map (transaction_req E xd) txns)"

definition get_transaction_receipt ::
  "env \<Rightarrow> (json \<Rightarrow> string + 'r option) \<Rightarrow> h256 \<Rightarrow> sys \<Rightarrow> 'r option yum_future \<times> sys" where
  "get_transaction_receipt E rd tx =
     op_request E ''eth_getTransactionReceipt'' [ser_h256 (mdl E) tx] (de rd)"

definition receipt_req :: "env \<Rightarrow> (json \<Rightarrow> string + 'r option) \<Rightarrow> h256 \<Rightarrow> 'r option req" where
  "receipt_req E rd tx = (''eth_getTransactionReceipt'', [ser_h256 (mdl E) tx], de rd)"

definition get_transaction_receipts ::
  "env \<Rightarrow> (json \<Rightarrow> string + 'r option) \<Rightarrow> h256 list \<Rightarrow> sys \<Rightarrow>
     ('r option, 'j) yum_batch_future \<times> sys" where
  "get_transaction_receipts E rd txns = op_batch_request E (map (receipt_req E rd) txns)"

section \<open>The contract of a batch operation\<close>

text \<open>
  What the streams and the token operations rely on: a batch operation answers with one
  future per key, in order; either all of them are errors, or the \<open>k\<close>-th waits on the \<open>k\<close>-th
  of the channels that were fresh when it was called, with the decoder of its key.
\<close>

definition fresh_futures :: "chan \<Rightarrow> 't decoder list \<Rightarrow> 't yum_future list" where
  "fresh_futures c ds = map2 FWaitingFn [c..<c + length ds] ds"

lemma length_fresh_futures [simp]: "length (fresh_futures c ds) = length ds"
  by (simp add: fresh_futures_def)

lemma fresh_futures_const:
  assumes "length ds = n" and "\<And>d. d \<in> set ds \<Longrightarrow> d = e"
  shows "fresh_futures c ds = map batch_member (map (\<lambda>k. (c + k, e)) [0..<n])"
proof (rule nth_equalityI)
  fix i
  assume "i < length (fresh_futures c ds)"
  with assms show "fresh_futures c ds ! i = map batch_member (map (\<lambda>k. (c + k, e)) [0..<n]) ! i"
    by (simp add: fresh_futures_def batch_member_def)
qed (use assms(1) in simp)

lemma fresh_not_complete: "list_all (\<lambda>f. f \<noteq> FComplete) (fresh_futures c ds)"
  by (auto simp: fresh_futures_def list_all_iff)

locale batch_source =
  fixes ask :: "'k list \<Rightarrow> sys \<Rightarrow> ('t, 'j) yum_batch_future \<times> sys"
    and dec :: "'k \<Rightarrow> 't decoder"
  assumes ask_futures:
      "fst (ask ks s) = BWaiting (map (\<lambda>_. FError (YumError ''Couldn't send request'')) ks) \<or>
       fst (ask ks s) = BWaiting (fresh_futures (next_chan s) (map dec ks))"
    and ask_steps: "client_steps s (snd (ask ks s))"
begin

lemma one_future_per_key:
  "\<exists>futs. fst (ask ks s) = BWaiting futs \<and> length futs = length ks \<and> list_all (\<lambda>f. f \<noteq> FComplete) futs"
  using ask_futures [of ks s] fresh_not_complete [of "next_chan s" "map dec ks"]
  by (auto simp: list_all_iff)

lemma ask_cases:
  obtains futs where "fst (ask ks s) = BWaiting futs" "length futs = length ks"
    "list_all (\<lambda>f. f \<noteq> FComplete) futs"
  using one_future_per_key by blast

lemma ask_reach: "reach client_start client_step s \<Longrightarrow> table_inv (snd (ask ks s))"
  using ask_steps [of s ks] by (blast intro: table.inv_steps table.inv_reach)

end

lemma batch_request_futures:
  "fst (batch_request L N reqs s) =
     (case send L N (Text (batch_to_string L (fst (register_all reqs s)))) (snd (snd (register_all reqs s))) of
        (Inl _, _) \<Rightarrow> BWaiting (map (\<lambda>_. FError (YumError ''Couldn't send request'')) reqs)
      | (Inr _, _) \<Rightarrow> BWaiting (fresh_futures (next_chan s) (map (snd \<circ> snd) reqs)))"
proof -
  obtain calls resp s1 where all: "register_all reqs s = (calls, resp, s1)"
    by (cases "register_all reqs s") auto
  have fst: "map fst resp = [next_chan s..<next_chan s + length reqs]"
    and snd: "map snd resp = map (snd \<circ> snd) reqs"
    using register_all_frame [of reqs s] by (simp_all add: all)
  have "map (\<lambda>(rx, d). FWaitingFn rx d) resp = map2 FWaitingFn (map fst resp) (map snd resp)"
    by (induction resp) auto
  then have ok: "map (\<lambda>(rx, d). FWaitingFn rx d) resp = fresh_futures (next_chan s) (map (snd \<circ> snd) reqs)"
    by (simp add: fresh_futures_def fst snd)
  have "length resp = length reqs" using arg_cong [OF snd, of length] by simp
  then have err: "map (\<lambda>_. e) resp = map (\<lambda>_. e) reqs" for e :: "'a yum_future"
    by (simp add: map_replicate_const)
  show ?thesis
    by (simp add: batch_request_def all ok err split: prod.split sum.split)
qed

text \<open>Every operation that maps its keys to requests and sends them as one batch keeps it.\<close>

lemma batch_source_batch_request:
  "batch_source (\<lambda>ks. op_batch_request E (map f ks)) (\<lambda>k. snd (snd (f k)))"
proof
  fix ks s
  show "fst (op_batch_request E (map f ks) s) =
      BWaiting (map (\<lambda>_. FError (YumError ''Couldn't send request'')) ks) \<or>
    fst (op_batch_request E (map f ks) s) =
      BWaiting (fresh_futures (next_chan s) (map (\<lambda>k. snd (snd (f k))) ks))"
    by (simp add: op_batch_request_def batch_request_futures comp_def split: prod.split sum.split)
  show "client_steps s (snd (op_batch_request E (map f ks) s))"
    by (simp add: op_batch_request_def steps_batch_request)
qed

interpretation blocks_named: batch_source "get_blocks_named E bd with_tx" "\<lambda>_. de bd"
  using batch_source_batch_request [of E "block_req E bd with_tx"]
  by (simp add: get_blocks_named_def [abs_def] block_req_def)

interpretation blocks: batch_source "get_blocks E bd with_tx" "\<lambda>_. de bd"
  using batch_source_batch_request [of E "\<lambda>b. block_req E bd with_tx (Number b)"]
  by (simp add: get_blocks_def [abs_def] get_blocks_named_def [abs_def] block_req_def comp_def)

interpretation transactions: batch_source "get_transactions E xd" "\<lambda>_. de xd"
  using batch_source_batch_request [of E "transaction_req E xd"]
  by (simp add: get_transactions_def [abs_def] transaction_req_def)

interpretation receipts: batch_source "get_transaction_receipts E rd" "\<lambda>_. de rd"
  using batch_source_batch_request [of E "receipt_req E rd"]
  by (simp add: get_transaction_receipts_def [abs_def] receipt_req_def)


section \<open>Reference models\<close>

text \<open>
  The 20 bytes of an address, most significant first. \<open>fixed-hash\<close> renders an \<open>H160\<close> with
  \<open>{:?}\<close> as the hexadecimal digits of these bytes, without a prefix.
\<close>

definition h160_bytes :: "h160 \<Rightarrow> byte list" where
  "h160_bytes a = map (\<lambda>k. ucast (drop_bit (8 * (19 - k)) a)) [0..<20]"

definition debug_h160_contract :: "(h160 \<Rightarrow> string) \<Rightarrow> bool" where
  "debug_h160_contract f \<longleftrightarrow> (\<forall>a. f a = hex_bytes (h160_bytes a))"

definition ref_models :: models where
  "ref_models =
     \<lparr>ser_h160 = (\<lambda>a. JString (''0x'' @ hex_bytes (h160_bytes a))),
      ser_h256 = (\<lambda>h. JString (''0x'' @ hex_digits (unat h))),
      ser_u256 = (\<lambda>n. JString (''0x'' @ hex_digits (unat n))),
      ser_block_number = (\<lambda>b. case b of Number n \<Rightarrow> JString (''0x'' @ hex_digits (unat n)) | Name n \<Rightarrow> JString n),
      ser_contract_call = (\<lambda>a d. JObject [(''to'', JString (''0x'' @ hex_bytes (h160_bytes a))), (''data'', JString d)]),
      debug_h160 = (\<lambda>a. hex_bytes (h160_bytes a)),
      debug_u256 = (\<lambda>n. hex_digits (unat n)),
      h160_from_str = (\<lambda>s. Some (word_of_nat (hex_value s))),
      u256_from_str = (\<lambda>s. if is_hex s then Some (word_of_nat (hex_value s)) else None),
      u256_from_value = (\<lambda>v. Inl ''invalid type''),
      h160_from_value = (\<lambda>v. Inl ''invalid type''),
      h160s_from_value = (\<lambda>v. Inl ''invalid type'')\<rparr>"

definition demo_env :: env where
  "demo_env = \<lparr>lib = demo_lib (RespBatch []), netw = demo_net, now = 100, mdl = ref_models, oc = True\<rparr>"

section \<open>Frames\<close>

lemma send_ids [simp]: "ids (snd (send L N msg s)) = ids s"
  by (auto simp: send_def send_request_def Let_def log_def split: list.split socket_request.split)

lemma batch_request_state:
  "snd (batch_request L N reqs s) =
     snd (send L N (Text (batch_to_string L (fst (register_all reqs s)))) (snd (snd (register_all reqs s))))"
  by (simp add: batch_request_def split: prod.split sum.split)

lemma batch_request_ids: "ids (snd (batch_request L N reqs s)) = ids s + word_of_nat (length reqs)"
  using register_all_frame [of reqs s] by (simp add: batch_request_state)

section \<open>Ranges\<close>

text \<open>
  A range is inclusive and ascending, but for the largest \<open>u64\<close> as upper end.
\<close>

lemma block_range_blocks:
  "get_block_range E bd with_tx lo hi s =
     (if hi = - 1 then (if oc E then Panic else Ret (get_blocks E bd with_tx [] s))
      else Ret (get_blocks E bd with_tx (map word_of_nat [unat lo..<Suc (unat hi)]) s))"
proof (cases "hi = - 1")
  case True
  have "unat (- 1 :: u64) = 2 ^ 64 - 1"
    by (simp add: unsigned_minus_1_eq_mask mask_eq_exp_minus_1)
  with True show ?thesis
    by (simp add: get_block_range_def checked_plus_def get_blocks_def word_range_def)
next
  case False
  have "unat (- 1 :: u64) = 2 ^ 64 - 1"
    by (simp add: unsigned_minus_1_eq_mask mask_eq_exp_minus_1)
  with False have "unat hi \<noteq> 2 ^ 64 - 1" by (metis unsigned_word_eqI)
  moreover have "unat hi < 2 ^ 64" using unsigned_less [of hi] by simp
  ultimately have "unat hi + unat (1::u64) < 2 ^ LENGTH(64)" by simp
  note exact = checked_plus_exact [OF this]
  with False show ?thesis
    by (simp add: get_block_range_def get_blocks_def word_range_def del: upt_Suc)
qed

end
