(* ===== verification/Token_Ops.thy ===== *)
theory Token_Ops
  imports Rpc_Ops
begin

text \<open>
  \<open>TokenOps\<close> (\<open>src/ops/erc20.rs\<close>) and \<open>MarketOps\<close> (\<open>src/ops/market.rs\<close>): the table of tokens
  that do not follow the standard, the calls into token contracts with their call data and
  decoders, and the price lookup. Floating point, \<open>BigDecimal\<close>, dates and the GDAX service are
  parameters.

  \<open>Option::unwrap_or\<close> evaluates its argument: an operation on a token of the table builds and
  sends its request before the table's answer is returned, and the model keeps that order.
\<close>

section \<open>The table of non-compliant tokens\<close>

definition token_table :: "(string \<times> string \<times> string \<times> u8) list" where
  "token_table =
    [(''0000000000000000000000000000000000000000'', ''Ether'', ''ETH'', 18),
     (''84119cb33e8f590d75c2d6ea4e6b0741a7494eda'', ''GigaWatt Token'', ''WTT'', 0),
     (''ef68e7c694f40c8202821edf525de3782458639f'', ''Loopring'', ''LRC'', 18),
     (''e0b7927c4af23765cb51314a0e0521a9645f0e2a'', ''DigixDAO'', ''DGD'', 9),
     (''ff3519eeeea3e76f1f699ccce5e23ee0bdda41ac'', ''Blockchain Capital'', ''BCAP'', 0),
     (''5554e04e76533e1d14c52f05beef6c9d329e1e30'', ''Autonio'', ''NIO'', 0),
     (''b5a5f22694352c15b00323844ad545abb2b11028'', ''ICON'', ''ICX'', 18),
     (''c66ea802717bfb9833400264dd12c2bceaa34a6d'', ''MakerDAO'', ''MKR'', 18),
     (''5c543e7ae0a1104f78406c340e9c64fd9fce5170'', ''vSlice'', ''VSL'', 18),
     (''52903256dd18d85c2dc4a6c999907c9793ea61e3'', ''INS Promo'', ''INSP'', 0),
     (''d2308446536a0bad028ab8c090d62e1ea2a51f24'', ''GNEISS Coin'', ''GNEISS'', 0),
     (''014b50466590340d41307cc54dcee990c8d58aa8'', ''ICOS'', ''ICOS'', 6),
     (''8effd494eb698cc399af6231fccd39e08fd20b15'', ''PIX Token'', ''PIX'', 0),
     (''2df8286c9396f52e17dfee75d2e41e52609cf897'', ''Silent Notary'', ''SNTR'', 4),
     (''62a56a4a2ef4d355d34d10fbf837e747504d38d4'', ''Paypex'', ''PAYX'', 2),
     (''d51e852630debc24e9e1041a03d80a0107f8ef0c'', ''Orium'', ''ORM'', 0),
     (''01afc37f4f85babc47c0e2d0eababc7fb49793c8'', ''W-GNT'', ''GNTM'', 18),
     (''ce3d9c3f3d302436d12f18eca97a3b00e97be7cd'', ''EPOSY'', ''EPOSY'', 18),
     (''289fe11c6f46e28f9f1cfc72119aee92c1da50d0'', ''EPOSN'', ''EPOSN'', 18),
     (''dfbd6a960a55bcfcf59d5925351e05a51498bcef'', ''ROCKCoin'', ''ROCK'', 0),
     (''717f0cc11366818ba350aba9e7c7515ded8f8474'', ''AiO'', ''AiO'', 6),
     (''b15fe5a123e647ba594cea7a1e648646f95eb4aa'', ''SharderToken'', ''SS'', 18),
     (''20f5426df591a14b262327dc9866b0b5480a9f3f'', ''iBTC'', ''iBTC'', 8),
     (''6aedbf8dff31437220df351950ba2a3362168d1b'', ''Dragonglass'', ''DGS'', 8)]"

text \<open>The arms of the \<open>match\<close> are tried in order.\<close>

definition non_compliant_tokens :: "env \<Rightarrow> h160 \<Rightarrow> (string \<times> string \<times> u8) option" where
  "non_compliant_tokens E address = map_of token_table (clean_0x (kodec E) (debug_h160 (mdl E) address))"

section \<open>Decimals\<close>

text \<open>\<open>{:?}\<close> of a \<open>ParseIntError\<close> is \<open>pe\<close>.\<close>

definition decimals_op ::
  "env \<Rightarrow> (parse_int_error \<Rightarrow> string) \<Rightarrow> h160 \<Rightarrow> u8 decoder" where
  "decimals_op E pe address v =
     and_then (de (string_from_value (kodec E)) v) (\<lambda>s.
       map_err (\<lambda>e. YumError (''['' @ debug_h160 (mdl E) address @
           ''] Couldn't parse decimal string value as u8: '' @ pe e))
         (from_str_radix16 (clean_0x (kodec E) s)))"

text \<open>
  \<open>futs.pop().unwrap()\<close> on the futures of a batch of one request; any other variant of the
  batch is the \<open>unreachable!()\<close> arm.
\<close>

definition pop_future :: "('t, 'j) yum_batch_future \<Rightarrow> 't yum_future outcome" where
  "pop_future b = (case b of BWaiting futs \<Rightarrow> expect (last_opt futs) | _ \<Rightarrow> Panic)"

definition ask_decimals :: "env \<Rightarrow> h160 \<Rightarrow> 't decoder \<Rightarrow> sys \<Rightarrow> ('t, unit) yum_batch_future \<times> sys" where
  "ask_decimals E address op =
     op_batch_request E [(''eth_call'', [ser_contract_call (mdl E) address ''0x313ce567''], op)]"

definition token_decimals_raw :: "env \<Rightarrow> h160 \<Rightarrow> u8 decoder \<Rightarrow> sys \<Rightarrow> (u8 yum_future \<times> sys) outcome" where
  "token_decimals_raw E address op s =
     (case ask_decimals E address op s of
        (b, s1) \<Rightarrow> obind (pop_future b) (\<lambda>req. Ret (req, s1)))"

definition unwrap_or :: "'a option \<Rightarrow> 'a \<Rightarrow> 'a" where
  "unwrap_or m x = (case m of None \<Rightarrow> x | Some y \<Rightarrow> y)"

definition token_decimals ::
  "env \<Rightarrow> (parse_int_error \<Rightarrow> string) \<Rightarrow> h160 \<Rightarrow> sys \<Rightarrow> (u8 yum_future \<times> sys) outcome" where
  "token_decimals E pe address s =
     (let listed = map_option (\<lambda>(_, _, decimals). FNow decimals) (non_compliant_tokens E address) in
      obind (token_decimals_raw E address (decimals_op E pe address) s) (\<lambda>(req, s1).
        Ret (unwrap_or listed req, s1)))"

section \<open>Amounts\<close>

text \<open>
  \<open>dec_scale x d\<close> is \<open>x / BigDecimal::from(1.0 * 10_f64.powi(d as i32))\<close>; \<open>dec_from_str\<close> gives
  the text of its error.
\<close>

record ('d, 'f) decimal_lib =
  dec_from_str :: "string \<Rightarrow> string + 'd"
  dec_scale :: "'d \<Rightarrow> u8 \<Rightarrow> 'd"
  dec_to_f64 :: "'d \<Rightarrow> 'f option"

definition scaled_amount ::
  "env \<Rightarrow> ('d, 'f) decimal_lib \<Rightarrow> h160 \<Rightarrow> u256 \<Rightarrow> u8 \<Rightarrow> 'f rslt" where
  "scaled_amount E D address amount decimals =
     (let amt = debug_u256 (mdl E) amount in
      and_then (map_err ParseBigDecimal (dec_from_str D (clean_0x (kodec E) amt))) (\<lambda>x.
        ok_or (YumError (''['' @ debug_h160 (mdl E) address @ ''] Couldn't convert amount ('' @ amt @
            '') to BigDecimal''))
          (dec_to_f64 D (dec_scale D x decimals))))"

definition amount_op ::
  "env \<Rightarrow> ('d, 'f) decimal_lib \<Rightarrow> (parse_int_error \<Rightarrow> string) \<Rightarrow> h160 \<Rightarrow> u256 \<Rightarrow> 'f decoder" where
  "amount_op E D pe address amount v =
     and_then (de (string_from_value (kodec E)) v) (\<lambda>s.
       and_then
         (map_err (\<lambda>e. YumError (''['' @ debug_h160 (mdl E) address @
             ''] Couldn't parse decimal string value ('' @ s @ '') as u8: '' @ pe e))
           (from_str_radix16 (clean_0x (kodec E) s)))
         (scaled_amount E D address amount))"

definition token_amount_in_eth ::
  "env \<Rightarrow> ('d, 'f) decimal_lib \<Rightarrow> (parse_int_error \<Rightarrow> string) \<Rightarrow> h160 \<Rightarrow> u256 \<Rightarrow> sys \<Rightarrow>
     ('f yum_future \<times> sys) outcome" where
  "token_amount_in_eth E D pe address amount s =
     obind (case non_compliant_tokens E address of
              None \<Rightarrow> Ret None
            | Some (_, _, decimals) \<Rightarrow>
                (case scaled_amount E D address amount decimals of
                   Inl _ \<Rightarrow> Panic
                 | Inr y \<Rightarrow> Ret (Some (FNow y))))
       (\<lambda>listed.
         (case ask_decimals E address (amount_op E D pe address amount) s of
            (b, s1) \<Rightarrow> obind (pop_future b) (\<lambda>req. Ret (unwrap_or listed req, s1))))"

section \<open>Balances\<close>

definition zeros24 :: string where
  "zeros24 = ''000000000000000000000000''"

definition block_or_latest :: "block_number option \<Rightarrow> block_number" where
  "block_or_latest block = (case block of Some b \<Rightarrow> b | None \<Rightarrow> Name ''latest'')"

definition block_num_arg :: "env \<Rightarrow> block_number \<Rightarrow> json" where
  "block_num_arg E block =
     (case block of
        Name n \<Rightarrow> ser_block_number (mdl E) block
      | Number n \<Rightarrow> ser_u256 (mdl E) (u256_from n))"

definition balance_op :: "env \<Rightarrow> u256 decoder" where
  "balance_op E v =
     and_then (de (string_from_value (kodec E)) v) (\<lambda>s.
       ok_or (YumError ''Couldn't parse u256'') (u256_from_str (mdl E) (clean_0x (kodec E) s)))"

definition etherdelta_data :: "env \<Rightarrow> h160 \<Rightarrow> h160 \<Rightarrow> string" where
  "etherdelta_data E token user =
     ''0xf7888aec'' @ zeros24 @ debug_h160 (mdl E) token @ zeros24 @ debug_h160 (mdl E) user"

definition etherdelta_get_balance ::
  "env \<Rightarrow> h160 \<Rightarrow> h160 \<Rightarrow> block_number option \<Rightarrow> sys \<Rightarrow> (u256 yum_future \<times> sys) outcome" where
  "etherdelta_get_balance E token user block s =
     obind (expect (h160_from_str (mdl E) ''8d12a197cb00d4747a1fe03395095ce2a5cc6819'')) (\<lambda>contract.
       Ret (op_request E ''eth_call''
         [ser_contract_call (mdl E) contract (etherdelta_data E token user),
          block_num_arg E (block_or_latest block)] (balance_op E) s))"

definition token_balance_data :: "env \<Rightarrow> h160 \<Rightarrow> string" where
  "token_balance_data E address = ''0x70a08231'' @ zeros24 @ debug_h160 (mdl E) address"

definition token_get_balance ::
  "env \<Rightarrow> h160 \<Rightarrow> h160 \<Rightarrow> block_number option \<Rightarrow> sys \<Rightarrow> u256 yum_future \<times> sys" where
  "token_get_balance E token address block =
     op_request E ''eth_call''
       [ser_contract_call (mdl E) token (token_balance_data E address),
        block_num_arg E (block_or_latest block)] (balance_op E)"

section \<open>Names\<close>

definition token_name :: "env \<Rightarrow> h160 \<Rightarrow> sys \<Rightarrow> string yum_future \<times> sys" where
  "token_name E address s =
     (let listed = map_option (\<lambda>(name, _, _). FNow name) (non_compliant_tokens E address);
          (req, s1) = contract_string_var E address ''0x06fdde03'' s
      in (unwrap_or listed req, s1))"

definition token_symbol :: "env \<Rightarrow> h160 \<Rightarrow> sys \<Rightarrow> string yum_future \<times> sys" where
  "token_symbol E address s =
     (let listed = map_option (\<lambda>(_, symbol, _). FNow symbol) (non_compliant_tokens E address);
          (req, s1) = contract_string_var E address ''0x95d89b41'' s
      in (unwrap_or listed req, s1))"

section \<open>Prices\<close>

text \<open>
  A \<open>Candle\<close> over the float type \<open>'f\<close> and the date type \<open>'d\<close>. \<open>set_hms d h m s\<close> is
  \<open>d.with_hour(h).and_then(with_minute(m)).and_then(with_second(s))\<close> of chrono,
  \<open>format_ft\<close> is \<open>format("%FT%T")\<close>, \<open>http_get\<close> fetches a URL (its error or the body), and
  \<open>candles_from_str\<close> is serde's decoder.
\<close>

record ('d, 'f) candle =
  candle_time :: 'd
  low :: 'f
  high :: 'f
  open_price :: 'f
  close_price :: 'f
  volume :: 'f

record ('d, 'f) market_lib =
  with_hour :: "nat \<Rightarrow> 'd \<Rightarrow> 'd option"
  with_minute :: "nat \<Rightarrow> 'd \<Rightarrow> 'd option"
  with_second :: "nat \<Rightarrow> 'd \<Rightarrow> 'd option"
  format_ft :: "'d \<Rightarrow> string"
  display_u64 :: "u64 \<Rightarrow> string"
  http_get :: "string \<Rightarrow> string + string"
  candles_from_str :: "string \<Rightarrow> string + ('d, 'f) candle list"

definition candles_url :: "('d, 'f) market_lib \<Rightarrow> 'd \<Rightarrow> 'd \<Rightarrow> u64 \<Rightarrow> string" where
  "candles_url K start end_date granularity =
     ''https://api.gdax.com/products/ETH-USD/candles?start='' @ format_ft K start @ ''&end='' @
     format_ft K end_date @ ''&granularity='' @ display_u64 K granularity"

definition get_candles ::
  "('d, 'f) market_lib \<Rightarrow> 'd \<Rightarrow> 'd \<Rightarrow> u64 \<Rightarrow> ('d, 'f) candle list rslt" where
  "get_candles K start end_date granularity =
     and_then (map_err Http (http_get K (candles_url K start end_date granularity))) (\<lambda>resp.
       map_err Json (candles_from_str K resp))"

definition at_time :: "('d, 'f) market_lib \<Rightarrow> nat \<Rightarrow> nat \<Rightarrow> nat \<Rightarrow> 'd \<Rightarrow> 'd" where
  "at_time K h m sec date =
     unwrap_or (Option.bind (Option.bind (with_hour K h date) (with_minute K m)) (with_second K sec)) date"

definition eth_price_usd :: "('d, 'f) market_lib \<Rightarrow> 'd \<Rightarrow> 'f rslt" where
  "eth_price_usd K date =
     (let dt_start = at_time K 0 0 0 date; dt_end = at_time K 23 59 59 date in
      and_then (get_candles K dt_start dt_end 86400) (\<lambda>res.
        map_ok close_price (ok_or GdaxError (case res of [] \<Rightarrow> None | c # _ \<Rightarrow> Some c))))"


section \<open>Call data and return words\<close>

text \<open>The ABI encoding of a call: a selector and one 32-byte word per argument.\<close>

definition abi_address :: "h160 \<Rightarrow> byte list" where
  "abi_address a = replicate 12 0 @ h160_bytes a"

definition abi_call :: "byte list \<Rightarrow> h160 list \<Rightarrow> byte list" where
  "abi_call selector args = selector @ concat (map abi_address args)"

lemma hex_bytes_append [simp]: "hex_bytes (bs @ cs) = hex_bytes bs @ hex_bytes cs"
  by (simp add: hex_bytes_def)

lemma hex_bytes_Cons: "hex_bytes (b # bs) = hex_char (unat b div 16) # hex_char (unat b mod 16) # hex_bytes bs"
  by (simp add: hex_bytes_def)

lemma zeros24_hex: "zeros24 = hex_bytes (replicate 12 0)"
  by code_simp

lemma hex_nibbles: "unat (b::byte) div 16 < 16"
  using unsigned_less [of b] by (simp add: div_less_iff_less_mult)

lemma hex_value_hex_bytes_acc:
  "foldl (\<lambda>a c. a * 16 + the (to_digit c)) acc (hex_bytes bs) = foldl (\<lambda>a b. a * 256 + unat b) acc bs"
proof (induction bs arbitrary: acc)
  case Nil
  then show ?case by (simp add: hex_bytes_def)
next
  case (Cons b bs)
  have "(acc * 16 + unat b div 16) * 16 + unat b mod 16 = acc * 256 + unat b"
    using div_mult_mod_eq [of "unat b" 16] by simp
  with Cons show ?case by (simp add: hex_bytes_Cons hex_nibbles ac_simps)
qed

lemma is_hex_hex_bytes [simp]: "is_hex (hex_bytes bs)"
  by (induction bs) (simp_all add: hex_bytes_Cons hex_nibbles, simp add: hex_bytes_def)

lemma strip_plus_hex_bytes [simp]: "strip_plus (hex_bytes bs) = hex_bytes bs"
  by (cases bs) (simp_all add: hex_bytes_Cons strip_plus_def hex_nibbles, simp add: hex_bytes_def)

lemma abi_word_byte: "n < 256 \<Longrightarrow> abi_word n = replicate 31 0 @ [word_of_nat n]"
proof -
  assume n: "n < 256"
  have "n div 256 ^ Suc i = 0" for i
    using n by (simp add: div_mult2_eq)
  then have "map (\<lambda>i. word_of_nat (n div 256 ^ i mod 256)) (map Suc [0..<31]) = replicate 31 (0 :: byte)"
    by (simp add: comp_def map_replicate_const del: map_Suc_upt upt_Suc power_Suc)
  moreover have "[0..<32] = 0 # map Suc [0..<31]" by (simp add: upt_rec)
  ultimately have "map (\<lambda>i. word_of_nat (n div 256 ^ i mod 256)) [0..<32] =
      (word_of_nat n :: byte) # replicate 31 0"
    using n by (simp del: map_Suc_upt upt_Suc upt_rec_numeral)
  then show ?thesis by (simp add: abi_word_def)
qed


section \<open>Asking a contract\<close>

lemma pop_ask_decimals:
  "\<exists>f. pop_future (fst (ask_decimals E a op s)) = Ret f \<and>
     (f = FError (YumError ''Couldn't send request'') \<or> f = FWaitingFn (next_chan s) op)"
  by (simp add: ask_decimals_def op_batch_request_def batch_request_futures pop_future_def
      last_opt_def fresh_futures_def split: prod.split sum.split)

lemma ask_decimals_ids: "ids (snd (ask_decimals E a op s)) = ids s + 1"
  by (simp add: ask_decimals_def op_batch_request_def batch_request_ids)

lemma ask_decimals_steps: "client_steps s (snd (ask_decimals E a op s))"
  by (simp add: ask_decimals_def op_batch_request_def steps_batch_request)

lemma token_decimals_eq:
  "\<exists>f. (f = FError (YumError ''Couldn't send request'') \<or> f = FWaitingFn (next_chan s) (decimals_op E pe a)) \<and>
     token_decimals E pe a s =
      Ret (unwrap_or (map_option (\<lambda>(_, _, decimals). FNow decimals) (non_compliant_tokens E a)) f,
           snd (ask_decimals E a (decimals_op E pe a) s))"
proof -
  obtain f where f: "pop_future (fst (ask_decimals E a (decimals_op E pe a) s)) = Ret f"
    "f = FError (YumError ''Couldn't send request'') \<or> f = FWaitingFn (next_chan s) (decimals_op E pe a)"
    using pop_ask_decimals by blast
  then show ?thesis
    by (cases "ask_decimals E a (decimals_op E pe a) s")
      (auto simp: token_decimals_def token_decimals_raw_def case_prod_unfold)
qed

lemma steps_token_decimals: "token_decimals E pe a s = Ret (f, t) \<Longrightarrow> client_steps s t"
  using token_decimals_eq [of s E pe a] ask_decimals_steps by auto

lemma demo_env_contracts:
  "clean_0x_contract (clean_0x (kodec demo_env))"
  "string_contract (string_from_value (kodec demo_env))"
  "debug_h160_contract (debug_h160 (mdl demo_env))"
proof -
  have "kodec demo_env = ref_codec"
    by (simp add: kodec_def demo_env_def demo_lib_def codec.defs)
  then show "clean_0x_contract (clean_0x (kodec demo_env))"
    and "string_contract (string_from_value (kodec demo_env))"
    using ref_codec_contracts by simp_all
  show "debug_h160_contract (debug_h160 (mdl demo_env))"
    by (simp add: demo_env_def ref_models_def debug_h160_contract_def)
qed

section \<open>Properties\<close>

text \<open>
  C31: The call data of the balance queries is the ABI encoding of the call. Given the documented
  rendering of addresses, \<open>token_get_balance\<close> sends the selector of \<open>balanceOf(address)\<close>
  followed by the address as one 32-byte word, and \<open>etherdelta_get_balance\<close> the selector of
  \<open>balanceOf(address,address)\<close> followed by the token and the user, in that order.
\<close>

theorem balance_calldata_is_abi:
  assumes "debug_h160_contract (debug_h160 (mdl E))"
  shows "token_balance_data E a = ''0x'' @ hex_bytes (abi_call [112, 160, 130, 49] [a]) \<and>
    etherdelta_data E a b = ''0x'' @ hex_bytes (abi_call [247, 136, 138, 236] [a, b])"
proof -
  have "hex_bytes [112, 160, 130, 49] = ''70a08231''" "hex_bytes [247, 136, 138, 236] = ''f7888aec''"
    by code_simp+
  then have "hex_bytes ([112, 160, 130, 49] @ bs) = ''70a08231'' @ hex_bytes bs"
    and "hex_bytes ([247, 136, 138, 236] @ bs) = ''f7888aec'' @ hex_bytes bs" for bs
    by (simp_all only: hex_bytes_append)
  with assms show ?thesis
    by (simp add: token_balance_data_def etherdelta_data_def abi_call_def abi_address_def
        zeros24_hex debug_h160_contract_def)
qed

theorem balance_calldata_is_abi_witness:
  "token_balance_data demo_env 5 = ''0x'' @ hex_bytes (abi_call [112, 160, 130, 49] [5]) \<and>
   etherdelta_data demo_env 5 6 = ''0x'' @ hex_bytes (abi_call [247, 136, 138, 236] [5, 6])"
  by (rule balance_calldata_is_abi [OF demo_env_contracts(3)])

text \<open>
  C32: The return word of \<open>decimals()\<close>. A number below 256, returned by a contract as one
  32-byte word, is decoded to that number by the decoder of \<open>token_decimals\<close>; a word whose
  value is 256 or more is an error, never a truncated number.
\<close>

theorem decimals_word_roundtrip:
  assumes "clean_0x_contract (clean_0x (kodec E))" and "string_contract (string_from_value (kodec E))"
    and "foldl (\<lambda>a b. a * 256 + unat b) 0 bs = n" and "bs \<noteq> []"
  shows "decimals_op E pe a (JString (''0x'' @ hex_bytes bs)) = Inr d \<longleftrightarrow> n = unat d"
proof -
  have "hex_value (hex_bytes bs) = n"
    using assms(3) by (simp add: hex_value_def hex_value_hex_bytes_acc)
  then have "from_str_radix16 (hex_bytes bs) = Inr d \<longleftrightarrow> n = unat d"
    using assms(4) by (simp add: from_str_radix16_Inr)
  with assms(1,2) show ?thesis
    by (cases "from_str_radix16 (hex_bytes bs) :: parse_int_error + u8")
      (simp_all add: decimals_op_def de_def string_contract_def)
qed

theorem decimals_word_roundtrip_witness:
  "decimals_op demo_env (\<lambda>_. ''e'') 7 (JString (''0x'' @ hex_bytes (abi_word 18))) = Inr 18"
proof -
  have "abi_word 18 = replicate 31 0 @ [18]" using abi_word_byte [of 18] by simp
  moreover have "foldl (\<lambda>a b. a * 256 + unat b) 0 (replicate 31 (0::byte) @ [18]) = 18"
    by code_simp
  ultimately show ?thesis
    using decimals_word_roundtrip [OF demo_env_contracts(1,2), of "abi_word 18" 18 "\<lambda>_. ''e''" 7 18]
    by simp
qed

text \<open>
  \<open>token_decimals\<close> always answers, and always asks. It never panics; for a token of the
  table the future is the table's number, for every other token it waits for the contract
  with the decoder above (or is the error of a failed send). In both cases a request id is
  used up: the request for a token of the table is made as well.
\<close>

lemma token_decimals_total:
  "\<exists>f t. token_decimals E pe a s = Ret (f, t) \<and> ids t = ids s + 1 \<and> client_steps s t \<and>
     (case non_compliant_tokens E a of
        Some (_, _, d) \<Rightarrow> f = FNow d
      | None \<Rightarrow> f = FError (YumError ''Couldn't send request'') \<or>
                f = FWaitingFn (next_chan s) (decimals_op E pe a))"
  using token_decimals_eq [of s E pe a] ask_decimals_ids [of E a _ s] ask_decimals_steps [of s E a]
  by (cases "non_compliant_tokens E a") (auto simp: unwrap_or_def)

lemma to_digit_literals:
  "to_digit CHR ''0'' \<noteq> None"
  "to_digit CHR ''1'' \<noteq> None"
  "to_digit CHR ''2'' \<noteq> None"
  "to_digit CHR ''3'' \<noteq> None"
  "to_digit CHR ''4'' \<noteq> None"
  "to_digit CHR ''5'' \<noteq> None"
  "to_digit CHR ''6'' \<noteq> None"
  "to_digit CHR ''7'' \<noteq> None"
  "to_digit CHR ''8'' \<noteq> None"
  "to_digit CHR ''9'' \<noteq> None"
  "to_digit CHR ''a'' \<noteq> None"
  "to_digit CHR ''b'' \<noteq> None"
  "to_digit CHR ''c'' \<noteq> None"
  "to_digit CHR ''d'' \<noteq> None"
  "to_digit CHR ''e'' \<noteq> None"
  "to_digit CHR ''f'' \<noteq> None"
  by (simp_all add: to_digit_def)

lemma token_table_distinct: "distinct (map fst token_table)"
  by (simp add: token_table_def)

lemma token_table_hex: "list_all (\<lambda>k. length k = 40 \<and> is_hex k) (map fst token_table)"
  by (simp add: token_table_def to_digit_literals)

lemmas token_table_keys = token_table_distinct token_table_hex

text \<open>
  No arm of the token table is shadowed: the addresses of the table are pairwise different
  texts of 40 hexadecimal digits, so every token whose rendered address is an entry of the
  table gets that entry.
\<close>

lemma token_table_lookup:
  assumes "clean_0x (kodec E) (debug_h160 (mdl E) a) = k" and "(k, v) \<in> set token_table"
  shows "non_compliant_tokens E a = Some v \<and> length k = 40 \<and> is_hex k"
  using assms token_table_keys
  by (auto simp: non_compliant_tokens_def map_of_eq_Some_iff list_all_iff)

end
