(* ===== verification/Block_Stream.thy ===== *)
theory Block_Stream
  imports Rpc_Ops
begin

text \<open>
  \<open>BlockStream\<close> (\<open>src/client/stream.rs\<close>): a stream of the blocks from \<open>start_block\<close> to \<open>to\<close> that
  keeps a bounded queue of requests in flight, drops a request that is not answered within
  five seconds, and at the end asks again for the blocks it did not get.

  An \<open>Instant\<close> is a number of nanoseconds. The readings of the clock are arguments: \<open>clk k\<close> is
  the reading when the \<open>k\<close>-th future of a batch is pushed, \<open>t\<close> the reading of \<open>ts.elapsed()\<close>.
  Every path through the body of the \<open>while let\<close> of \<open>poll\<close> returns, so one call runs it at
  most once.
\<close>

section \<open>A queue of futures\<close>

type_synonym instant = nat
type_synonym 't item = "instant \<times> 't option yum_future"

text \<open>\<open>if let YumBatchFuture::Waiting(futs) = b { for f in futs { queue.push_back((now, f)) } }\<close>.\<close>

definition enqueue ::
  "(nat \<Rightarrow> instant) \<Rightarrow> ('t option, 'j) yum_batch_future \<Rightarrow> 't item list \<Rightarrow> 't item list" where
  "enqueue clk b q =
     (case b of
        BWaiting futs \<Rightarrow> q @ zip (map clk [0..<length futs]) futs
      | _ \<Rightarrow> q)"

text \<open>\<open>ts.elapsed() < Duration::from_secs(5)\<close>.\<close>

definition young :: "instant \<Rightarrow> instant \<Rightarrow> bool" where
  "young t born \<longleftrightarrow> t - born < 5 * 10 ^ 9"

section \<open>The stream\<close>

record 'b block_stream =
  start_block :: u64
  bs_from :: u64
  bs_to :: u64
  buffer_size :: usize
  batch_size :: u64
  bs_with_tx :: bool
  queue :: "'b item list"
  completed :: "u64 set"

definition block_stream_new :: "u64 \<Rightarrow> u64 \<Rightarrow> bool \<Rightarrow> 'b block_stream" where
  "block_stream_new lo hi with_tx =
     \<lparr>start_block = lo, bs_from = lo, bs_to = hi, buffer_size = 5, batch_size = 10,
      bs_with_tx = with_tx, queue = [], completed = {}\<rparr>"

definition block_stream_with_options ::
  "u64 \<Rightarrow> u64 \<Rightarrow> bool \<Rightarrow> u64 \<Rightarrow> u64 \<Rightarrow> 'b block_stream" where
  "block_stream_with_options lo hi with_tx batch buffer =
     \<lparr>start_block = lo, bs_from = lo, bs_to = hi, buffer_size = buffer, batch_size = batch,
      bs_with_tx = with_tx, queue = [], completed = {}\<rparr>"

definition has_next :: "'b block_stream \<Rightarrow> bool" where
  "has_next st \<longleftrightarrow> bs_from st < bs_to st \<or> queue st \<noteq> []"

definition queue_capacity :: "bool \<Rightarrow> 'b block_stream \<Rightarrow> usize outcome" where
  "queue_capacity chk st = checked_times chk (buffer_size st) (batch_size st)"

definition half_capacity :: "bool \<Rightarrow> 'b block_stream \<Rightarrow> usize outcome" where
  "half_capacity chk st = obind (queue_capacity chk st) (\<lambda>c. Ret (c div 2))"

definition remaining_capacity :: "bool \<Rightarrow> 'b block_stream \<Rightarrow> usize outcome" where
  "remaining_capacity chk st =
     obind (queue_capacity chk st) (\<lambda>c.
       obind (checked_minus chk c (word_of_nat (length (queue st)))) (\<lambda>r. checked_minus chk r 1))"

definition is_full :: "bool \<Rightarrow> 'b block_stream \<Rightarrow> bool outcome" where
  "is_full chk st = obind (queue_capacity chk st) (\<lambda>c. Ret (c = word_of_nat (length (queue st))))"

definition pop_front :: "'b block_stream \<Rightarrow> 'b item option \<times> 'b block_stream" where
  "pop_front st =
     (case queue st of [] \<Rightarrow> (None, st) | x # q \<Rightarrow> (Some x, st\<lparr>queue := q\<rparr>))"

definition next_block ::
  "env \<Rightarrow> (json \<Rightarrow> string + 'b option) \<Rightarrow> (nat \<Rightarrow> instant) \<Rightarrow> 'b block_stream \<Rightarrow> sys \<Rightarrow>
     (('b item option \<times> 'b block_stream) \<times> sys) outcome" where
  "next_block E bd clk st s =
     (if bs_from st = bs_to st \<and> queue st = [] then
        obind (checked_plus (oc E) (bs_to st) 1) (\<lambda>till.
          let missing_blocks = filter (\<lambda>n. n \<notin> completed st) (word_range (start_block st) till) in
          if missing_blocks = [] then Ret ((None, st), s)
          else
            (case get_blocks E bd (bs_with_tx st) missing_blocks s of
               (missing_futs :: ('b option, unit) yum_batch_future, s1) \<Rightarrow>
                 Ret (pop_front (st\<lparr>queue := enqueue clk missing_futs (queue st)\<rparr>), s1)))
      else if bs_from st = bs_to st \<and> queue st \<noteq> [] then Ret (pop_front st, s)
      else
        obind (half_capacity (oc E) st) (\<lambda>half.
          if half < word_of_nat (length (queue st)) then Ret (pop_front st, s)
          else
            obind (checked_minus (oc E) (bs_to st) (bs_from st)) (\<lambda>blocks_left.
            obind (remaining_capacity (oc E) st) (\<lambda>room.
              let get_this_many = min blocks_left room in
              obind (checked_plus (oc E) (bs_from st) get_this_many) (\<lambda>last_block.
              obind (get_block_range E bd (bs_with_tx st) (bs_from st) last_block s) (\<lambda>(next_futs, s1).
                let st1 = st\<lparr>queue := enqueue clk (next_futs :: ('b option, unit) yum_batch_future) (queue st)\<rparr> in
                obind (checked_plus (oc E) (bs_from st1) get_this_many) (\<lambda>new_from.
                  Ret (pop_front (st1\<lparr>bs_from := new_from\<rparr>), s1))))))))"

text \<open>\<open>num\<close> reads the field \<open>number\<close> of a block.\<close>

definition bs_poll ::
  "env \<Rightarrow> (json \<Rightarrow> string + 'b option) \<Rightarrow> ('b \<Rightarrow> u256 option) \<Rightarrow> (nat \<Rightarrow> instant) \<Rightarrow> instant \<Rightarrow> world \<Rightarrow>
     'b block_stream \<Rightarrow> sys \<Rightarrow> ('b option poll \<times> 'b block_stream \<times> sys) outcome" where
  "bs_poll E bd num clk t w st s =
     obind (next_block E bd clk st s) (\<lambda>((found, st1), s1).
       (case found of
          None \<Rightarrow> Ret (Inr (Ready None), st1, s1)
        | Some (born, next_item) \<Rightarrow>
            (case yf_poll w next_item of
               (Inl e, _) \<Rightarrow> Ret (Inl e, st1, s1)
             | (Inr (Ready (Some b)), _) \<Rightarrow>
                 obind (expect (num b)) (\<lambda>block_num.
                   Ret (Inr (Ready (Some b)),
                        st1\<lparr>completed := insert (low_u64 block_num) (completed st1)\<rparr>, s1))
             | (Inr (Ready None), _) \<Rightarrow> Ret (Inr NotReady, st1, s1)
             | (Inr NotReady, next_item') \<Rightarrow>
                 Ret (Inr NotReady,
                      (if young t born then st1\<lparr>queue := queue st1 @ [(born, next_item')]\<rparr> else st1),
                      s1))))"

section \<open>Runs\<close>

text \<open>
  A run polls the stream any number of times; between two polls the rest of the program may
  do anything to the client, so that each poll sees an arbitrary client state, clock and
  network. The first component collects the blocks the stream has yielded.
\<close>

inductive block_poll ::
  "(json \<Rightarrow> string + 'b option) \<Rightarrow> ('b \<Rightarrow> u256 option) \<Rightarrow>
     'b list \<times> 'b block_stream \<Rightarrow> 'b list \<times> 'b block_stream \<Rightarrow> bool"
  for bd :: "json \<Rightarrow> string + 'b option" and num :: "'b \<Rightarrow> u256 option" where
  poll_yield: "bs_poll E bd num clk t w st s = Ret (Inr (Ready (Some b)), st', s') \<Longrightarrow>
    block_poll bd num (ys, st) (ys @ [b], st')"
| poll_quiet: "bs_poll E bd num clk t w st s = Ret (r, st', s') \<Longrightarrow> (\<forall>b. r \<noteq> Inr (Ready (Some b))) \<Longrightarrow>
    block_poll bd num (ys, st) (ys, st')"

text \<open>
  A stream from \<open>lo\<close> to \<open>hi\<close> as \<open>with_options\<close> makes it, with room for \<open>cap\<close> requests. The source
  takes any two block numbers and any sizes; the runs studied here start from a range that is
  not reversed and whose last block is not the largest \<open>u64\<close>. What the other arguments do is
  the subject of \<open>first_poll_panics\<close> below.
\<close>

definition block_start :: "u64 \<Rightarrow> u64 \<Rightarrow> nat \<Rightarrow> 'b list \<times> 'b block_stream \<Rightarrow> bool" where
  "block_start lo hi cap x \<longleftrightarrow>
     lo \<le> hi \<and> hi \<noteq> - 1 \<and>
     (\<exists>tx batch buffer. unat buffer * unat batch = cap \<and>
        x = ([], block_stream_with_options lo hi tx batch buffer))"

section \<open>One call of next\<close>

text \<open>What a call asks for: the missing blocks at the end, the next \<open>n + 1\<close> blocks before it.\<close>

definition missing :: "'b block_stream \<Rightarrow> u64 list" where
  "missing st = filter (\<lambda>n. n \<notin> completed st) (word_range (start_block st) (bs_to st + 1))"

definition fill_blocks :: "'b block_stream \<Rightarrow> u64 \<Rightarrow> u64 list" where
  "fill_blocks st n = map word_of_nat [unat (bs_from st)..<Suc (unat (bs_from st + n))]"

definition ask_blocks ::
  "env \<Rightarrow> (json \<Rightarrow> string + 'b option) \<Rightarrow> (nat \<Rightarrow> instant) \<Rightarrow> u64 list \<Rightarrow> u64 \<Rightarrow> 'b block_stream \<Rightarrow> sys \<Rightarrow>
     ('b item option \<times> 'b block_stream) \<times> sys" where
  "ask_blocks E bd clk bs n st s =
     (case get_blocks E bd (bs_with_tx st) bs s of
        (b :: ('b option, unit) yum_batch_future, s1) \<Rightarrow>
          (pop_front (st\<lparr>queue := enqueue clk b (queue st), bs_from := bs_from st + n\<rparr>), s1))"

lemma word_room:
  fixes a b n :: "'w::len word"
  assumes "a \<le> b" and "n \<le> b - a"
  shows "unat (a + n) = unat a + unat n" and "a + n \<le> b" and "a \<le> a + n"
    and "checked_plus chk a n = Ret (a + n)"
proof -
  have "unat n \<le> unat b - unat a"
    using assms by (simp add: word_le_nat_alt unat_sub)
  then have le: "unat a + unat n \<le> unat b"
    using assms(1) by (simp add: word_le_nat_alt)
  then have lt: "unat a + unat n < 2 ^ LENGTH('w)" by (rule le_less_trans) simp
  show eq: "unat (a + n) = unat a + unat n" using checked_plus_exact(2) [OF lt] .
  show "checked_plus chk a n = Ret (a + n)" using checked_plus_exact(1) [OF lt] .
  from le eq show "a + n \<le> b" "a \<le> a + n" by (simp_all add: word_le_nat_alt)
qed

lemma plus_one_no_overflow:
  fixes a :: u64
  assumes "a \<noteq> - 1"
  shows "checked_plus chk a 1 = Ret (a + 1)" and "unat (a + 1) = Suc (unat a)"
proof -
  have "unat (- 1 :: u64) = 2 ^ 64 - 1"
    by (simp add: unsigned_minus_1_eq_mask mask_eq_exp_minus_1)
  with assms have "unat a \<noteq> 2 ^ 64 - 1" by (metis unsigned_word_eqI)
  moreover have "unat a < 2 ^ 64" using unsigned_less [of a] by simp
  ultimately have lt: "unat a + unat (1::u64) < 2 ^ LENGTH(64)" by simp
  show "checked_plus chk a 1 = Ret (a + 1)" using checked_plus_exact(1) [OF lt] .
  show "unat (a + 1) = Suc (unat a)" using checked_plus_exact(2) [OF lt] by simp
qed

lemma get_block_range_blocks:
  assumes "hi \<noteq> - 1"
  shows "get_block_range E bd tx lo hi s = Ret (get_blocks E bd tx (map word_of_nat [unat lo..<Suc (unat hi)]) s)"
  by (simp add: get_block_range_def get_blocks_def word_range_def plus_one_no_overflow [OF assms]
      del: upt_Suc)

lemma next_block_end:
  assumes "bs_from st = bs_to st" and "queue st = []" and "bs_to st \<noteq> - 1"
  shows "next_block E bd clk st s =
    (if missing st = [] then Ret ((None, st), s) else Ret (ask_blocks E bd clk (missing st) 0 st s))"
proof -
  have same: "pop_front (st\<lparr>queue := q, bs_from := bs_to st\<rparr>) = pop_front (st\<lparr>queue := q\<rparr>)" for q
    using assms(1) by (cases st) simp
  show ?thesis
    using assms
    by (simp add: next_block_def plus_one_no_overflow missing_def ask_blocks_def Let_def same
        split: prod.split)
qed

lemma next_block_drain:
  "bs_from st = bs_to st \<Longrightarrow> queue st \<noteq> [] \<Longrightarrow> next_block E bd clk st s = Ret (pop_front st, s)"
  by (simp add: next_block_def)

lemma next_block_mid:
  assumes "bs_from st < bs_to st" and "bs_to st \<noteq> - 1"
  shows "next_block E bd clk st s =
    obind (half_capacity (oc E) st) (\<lambda>half.
      if half < word_of_nat (length (queue st)) then Ret (pop_front st, s)
      else obind (remaining_capacity (oc E) st) (\<lambda>room.
        let n = min (bs_to st - bs_from st) room in
        Ret (ask_blocks E bd clk (fill_blocks st n) n st s)))"
proof -
  have le: "bs_from st \<le> bs_to st" using assms(1) by simp
  have ne: "bs_from st \<noteq> bs_to st" using assms(1) by simp
  have minus: "checked_minus (oc E) (bs_to st) (bs_from st) = Ret (bs_to st - bs_from st)"
    using checked_minus_exact(1) [OF le] .
  have step: "obind (checked_plus (oc E) (bs_from st) n) (\<lambda>last_block.
        obind (get_block_range E bd (bs_with_tx st) (bs_from st) last_block s) (\<lambda>(next_futs, s1).
          obind (checked_plus (oc E) (bs_from st) n) (\<lambda>new_from.
            Ret (pop_front (st\<lparr>queue := enqueue clk (next_futs :: ('a option, unit) yum_batch_future) (queue st),
              bs_from := new_from\<rparr>), s1)))) =
      Ret (ask_blocks E bd clk (fill_blocks st n) n st s)" if n: "n \<le> bs_to st - bs_from st" for n
  proof -
    note room = word_room [OF le n]
    have last: "bs_from st + n \<noteq> - 1"
      using room(2) assms(2) by (metis word_order.extremum_uniqueI)
    show ?thesis
      using room(4) [of "oc E"]
      by (simp add: get_block_range_blocks [OF last] ask_blocks_def fill_blocks_def Let_def
          split: prod.split del: upt_Suc)
  qed
  show ?thesis
  proof (cases "half_capacity (oc E) st")
    case Panic
    with ne show ?thesis by (simp add: next_block_def)
  next
    case (Ret half)
    show ?thesis
    proof (cases "half < word_of_nat (length (queue st))")
      case True
      with ne Ret show ?thesis by (simp add: next_block_def)
    next
      case False
      with ne Ret minus show ?thesis by (simp add: next_block_def step Let_def)
    qed
  qed
qed

lemma pop_front_frame [simp]:
  "start_block (snd (pop_front st)) = start_block st"
  "bs_from (snd (pop_front st)) = bs_from st"
  "bs_to (snd (pop_front st)) = bs_to st"
  "buffer_size (snd (pop_front st)) = buffer_size st"
  "batch_size (snd (pop_front st)) = batch_size st"
  "bs_with_tx (snd (pop_front st)) = bs_with_tx st"
  "completed (snd (pop_front st)) = completed st"
  "queue (snd (pop_front st)) = tl (queue st)"
  "fst (pop_front st) = None \<longleftrightarrow> queue st = []"
  by (simp_all add: pop_front_def split: list.split)

lemma enqueue_length:
  "length (enqueue clk (fst (get_blocks E bd tx bs s :: ('b option, 'j) yum_batch_future \<times> sys)) q) =
     length q + length bs"
proof -
  obtain futs where "fst (get_blocks E bd tx bs s :: ('b option, 'j) yum_batch_future \<times> sys) = BWaiting futs"
    "length futs = length bs"
    by (rule blocks.ask_cases)
  then show ?thesis by (simp add: enqueue_def)
qed

lemma ask_blocks_frame:
  assumes "ask_blocks E bd clk bs n st s = ((m, st1), s1)"
  shows "start_block st1 = start_block st" and "bs_to st1 = bs_to st" and "completed st1 = completed st"
    and "buffer_size st1 = buffer_size st" and "batch_size st1 = batch_size st"
    and "bs_from st1 = bs_from st + n"
    and "length (queue st1) = length (queue st) + length bs - 1"
    and "m = None \<longleftrightarrow> queue st = [] \<and> bs = []"
proof -
  let ?b = "get_blocks E bd (bs_with_tx st) bs s :: ('a option, unit) yum_batch_future \<times> sys"
  let ?st = "st\<lparr>queue := enqueue clk (fst ?b) (queue st), bs_from := bs_from st + n\<rparr>"
  have pop: "(m, st1) = pop_front ?st"
    using assms by (simp add: ask_blocks_def split: prod.splits)
  then have st1: "st1 = snd (pop_front ?st)" and m: "m = fst (pop_front ?st)"
    by (metis snd_conv, metis fst_conv)
  have len: "length (enqueue clk (fst ?b) (queue st)) = length (queue st) + length bs"
    by (rule enqueue_length)
  show "start_block st1 = start_block st" "bs_to st1 = bs_to st" "completed st1 = completed st"
    "buffer_size st1 = buffer_size st" "batch_size st1 = batch_size st" "bs_from st1 = bs_from st + n"
    by (simp_all add: st1)
  show "length (queue st1) = length (queue st) + length bs - 1"
    using len by (simp add: st1)
  show "m = None \<longleftrightarrow> queue st = [] \<and> bs = []"
    using len by (simp add: m) (metis add_is_0 length_0_conv)
qed

lemma length_fill_blocks:
  assumes "bs_from st \<le> bs_to st" and "n \<le> bs_to st - bs_from st"
  shows "length (fill_blocks st n) = Suc (unat n)"
  using word_room(1) [OF assms] by (simp add: fill_blocks_def del: upt_Suc)


section \<open>Capacity\<close>

definition cap_of :: "'b block_stream \<Rightarrow> nat" where
  "cap_of st = unat (buffer_size st) * unat (batch_size st)"

lemma half_capacity_exact:
  assumes "cap_of st < 2 ^ 64"
  shows "\<exists>h. half_capacity chk st = Ret h \<and> unat h = cap_of st div 2"
proof -
  have "unat (buffer_size st) * unat (batch_size st) < 2 ^ LENGTH(64)"
    using assms by (simp add: cap_of_def)
  note exact = checked_times_exact [OF this]
  then show ?thesis
    by (simp add: half_capacity_def queue_capacity_def cap_of_def unat_div)
qed

lemma remaining_capacity_exact:
  assumes "cap_of st < 2 ^ 64" and "length (queue st) < cap_of st"
  shows "\<exists>r. remaining_capacity chk st = Ret r \<and> unat r = cap_of st - length (queue st) - 1"
proof -
  let ?c = "buffer_size st * batch_size st" and ?l = "word_of_nat (length (queue st)) :: usize"
  have "unat (buffer_size st) * unat (batch_size st) < 2 ^ LENGTH(64)"
    using assms(1) by (simp add: cap_of_def)
  note c = checked_times_exact [OF this]
  have l: "unat ?l = length (queue st)"
    using assms by (intro unat_word_of_nat_small) simp
  have "?l \<le> ?c" using assms(2) c(2) l by (simp add: word_le_nat_alt cap_of_def)
  note d = checked_minus_exact [OF this]
  have "1 \<le> ?c - ?l" using assms(2) c(2) d(2) l by (simp add: word_le_nat_alt cap_of_def)
  note e = checked_minus_exact [OF this]
  show ?thesis
    using c d e l by (simp add: remaining_capacity_def queue_capacity_def cap_of_def)
qed

section \<open>The invariant of a stream\<close>

text \<open>
  The bounds never change, the cursor stays between them, \<open>completed\<close> holds exactly the
  numbers of the yielded blocks, and the queue stays within the capacity until the cursor is
  at the end, and within the capacity or the number of blocks afterwards.
\<close>

definition block_inv ::
  "('b \<Rightarrow> u256 option) \<Rightarrow> u64 \<Rightarrow> u64 \<Rightarrow> nat \<Rightarrow> 'b list \<times> 'b block_stream \<Rightarrow> bool" where
  "block_inv num lo hi cap x \<longleftrightarrow>
     (case x of (ys, st) \<Rightarrow>
        hi \<noteq> - 1 \<and> start_block st = lo \<and> bs_to st = hi \<and> lo \<le> bs_from st \<and> bs_from st \<le> hi \<and>
        cap_of st = cap \<and> completed st = {low_u64 n |b n. b \<in> set ys \<and> num b = Some n} \<and>
        (1 \<le> cap \<longrightarrow> cap < 2 ^ 64 \<longrightarrow>
           (bs_from st < hi \<longrightarrow> length (queue st) \<le> cap) \<and>
           length (queue st) \<le> max cap (Suc (unat hi - unat lo))))"

lemma length_missing: "bs_to st \<noteq> - 1 \<Longrightarrow> length (missing st) \<le> Suc (unat (bs_to st) - unat (start_block st))"
  unfolding missing_def
  by (rule order_trans [OF length_filter_le]) (simp add: plus_one_no_overflow)

lemma missing_Nil:
  assumes "missing st = []" and "bs_to st \<noteq> - 1" and "start_block st \<le> n" and "n \<le> bs_to st"
  shows "n \<in> completed st"
proof -
  have "n < bs_to st + 1"
    using assms(4) by (simp add: word_less_nat_alt word_le_nat_alt plus_one_no_overflow [OF assms(2)])
  then have "n \<in> set (word_range (start_block st) (bs_to st + 1))"
    using assms(3) by (simp add: set_word_range)
  with assms(1) show ?thesis by (auto simp: missing_def filter_empty_conv)
qed

text \<open>What one call of \<open>next\<close> does to the fields, on every path.\<close>

definition next_ok :: "'b block_stream \<Rightarrow> 'b item option \<Rightarrow> 'b block_stream \<Rightarrow> bool" where
  "next_ok st m st1 \<longleftrightarrow>
     start_block st1 = start_block st \<and> bs_to st1 = bs_to st \<and> completed st1 = completed st \<and>
     cap_of st1 = cap_of st \<and> bs_from st \<le> bs_from st1 \<and> bs_from st1 \<le> bs_to st \<and>
     (m = None \<longrightarrow> missing st = [] \<and> queue st1 = []) \<and>
     (1 \<le> cap_of st \<longrightarrow> cap_of st < 2 ^ 64 \<longrightarrow>
        (bs_from st < bs_to st \<longrightarrow> length (queue st) \<le> cap_of st \<longrightarrow>
           m \<noteq> None \<and> Suc (length (queue st1)) \<le> cap_of st) \<and>
        (bs_from st = bs_to st \<longrightarrow> m \<noteq> None \<longrightarrow>
           Suc (length (queue st1)) \<le> max (length (queue st)) (length (missing st))))"

lemma next_ok_pop:
  assumes "queue st \<noteq> []" and "bs_from st \<le> bs_to st"
  shows "next_ok st (fst (pop_front st)) (snd (pop_front st))"
  using assms by (simp add: next_ok_def cap_of_def Suc_le_eq)

lemma next_ok_missing:
  assumes "bs_from st = bs_to st" and "queue st = []" and "missing st \<noteq> []"
    and "ask_blocks E bd clk (missing st) 0 st s = ((m, st1), s1)"
  shows "next_ok st m st1"
proof -
  have "0 < length (missing st)" using assms(3) by simp
  with ask_blocks_frame [OF assms(4)] assms(1,2,3) show ?thesis
    by (simp add: next_ok_def cap_of_def)
qed

lemma next_ok_fill:
  assumes lt: "bs_from st < bs_to st"
    and half: "half_capacity chk st = Ret half" "\<not> half < word_of_nat (length (queue st))"
    and room: "remaining_capacity chk st = Ret room" and n: "n = min (bs_to st - bs_from st) room"
    and ask: "ask_blocks E bd clk (fill_blocks st n) n st s = ((m, st1), s1)"
  shows "next_ok st m st1"
proof -
  have le: "bs_from st \<le> bs_to st" and le_n: "n \<le> bs_to st - bs_from st"
    using lt n by simp_all
  note frame = ask_blocks_frame [OF ask] and step = word_room [OF le le_n]
  have len: "length (fill_blocks st n) = Suc (unat n)"
    by (rule length_fill_blocks [OF le le_n])
  then have some: "m \<noteq> None" using frame(8) by auto
  have "Suc (length (queue st1)) \<le> cap_of st"
    if cap: "1 \<le> cap_of st" "cap_of st < 2 ^ 64" and q: "length (queue st) \<le> cap_of st"
  proof -
    obtain h where h: "half_capacity chk st = Ret h" "unat h = cap_of st div 2"
      using half_capacity_exact [OF cap(2)] by blast
    have "unat (word_of_nat (length (queue st)) :: usize) = length (queue st)"
      using q cap(2) by (intro unat_word_of_nat_small) simp
    with half h have "length (queue st) \<le> cap_of st div 2"
      by (simp add: word_less_nat_alt)
    with cap(1) have less: "length (queue st) < cap_of st" by linarith
    obtain r where r: "remaining_capacity chk st = Ret r" "unat r = cap_of st - length (queue st) - 1"
      using remaining_capacity_exact [OF cap(2) less] by blast
    then have "n \<le> r" using room n by simp
    then have "unat n \<le> cap_of st - length (queue st) - 1"
      using r(2) by (simp add: word_le_nat_alt)
    with frame(7) len less show ?thesis by simp
  qed
  then show ?thesis
    unfolding next_ok_def using frame(1-6) step(2,3) some lt by (auto simp: cap_of_def)
qed

lemma next_block_ok:
  assumes "next_block E bd clk st s = Ret ((m, st1), s1)"
    and "bs_from st \<le> bs_to st" and "bs_to st \<noteq> - 1"
  shows "next_ok st m st1"
proof (cases "bs_from st = bs_to st")
  case True
  show ?thesis
  proof (cases "queue st = []")
    case empty: True
    show ?thesis
    proof (cases "missing st = []")
      case True
      with \<open>bs_from st = bs_to st\<close> empty assms show ?thesis
        by (simp add: next_block_end next_ok_def)
    next
      case False
      with next_block_end [OF True empty assms(3)] assms(1) show ?thesis
        by (intro next_ok_missing [OF True empty False]) simp
    qed
  next
    case False
    with next_block_drain [OF True False] assms(1) next_ok_pop [OF False assms(2)] show ?thesis
      by (metis fst_conv snd_conv outcome.inject)
  qed
next
  case False
  with assms(2) have lt: "bs_from st < bs_to st" by simp
  note eq = next_block_mid [OF lt assms(3), of E bd clk s]
  obtain half where half: "half_capacity (oc E) st = Ret half"
    using assms(1) eq by (cases "half_capacity (oc E) st") auto
  show ?thesis
  proof (cases "half < word_of_nat (length (queue st))")
    case True
    then have ne: "queue st \<noteq> []" by auto
    from True half eq assms(1) have "pop_front st = (m, st1)" by simp
    with next_ok_pop [OF ne assms(2)] show ?thesis by simp
  next
    case False
    with half eq assms(1) obtain room where "remaining_capacity (oc E) st = Ret room"
      by (cases "remaining_capacity (oc E) st") auto
    moreover from this False half eq assms(1) have
      "ask_blocks E bd clk (fill_blocks st (min (bs_to st - bs_from st) room))
         (min (bs_to st - bs_from st) room) st s = ((m, st1), s1)"
      by (simp add: Let_def)
    ultimately show ?thesis by (rule next_ok_fill [OF lt half False _ refl])
  qed
qed


section \<open>One poll\<close>

definition poll_ok ::
  "('b \<Rightarrow> u256 option) \<Rightarrow> 'b item option \<Rightarrow> 'b block_stream \<Rightarrow> 'b option poll \<Rightarrow> 'b block_stream \<Rightarrow> bool" where
  "poll_ok num m st1 r st' \<longleftrightarrow>
     start_block st' = start_block st1 \<and> bs_to st' = bs_to st1 \<and> bs_from st' = bs_from st1 \<and>
     cap_of st' = cap_of st1 \<and> (r = Inr (Ready None) \<longleftrightarrow> m = None) \<and>
     (m = None \<longrightarrow> st' = st1) \<and> length (queue st') \<le> Suc (length (queue st1)) \<and>
     length (queue st1) \<le> length (queue st') \<and>
     completed st' = completed st1 \<union> {low_u64 n |b n. r = Inr (Ready (Some b)) \<and> num b = Some n} \<and>
     (\<forall>b. r = Inr (Ready (Some b)) \<longrightarrow> num b \<noteq> None)"

lemma bs_poll_ok:
  assumes "bs_poll E bd num clk t w st s = Ret (r, st', s')"
  shows "\<exists>m st1. next_block E bd clk st s = Ret ((m, st1), s') \<and> poll_ok num m st1 r st'"
proof -
  obtain m st1 s1 where nxt: "next_block E bd clk st s = Ret ((m, st1), s1)"
    using assms by (cases "next_block E bd clk st s") (auto simp: bs_poll_def)
  show ?thesis
  proof (cases m)
    case None
    with nxt assms show ?thesis by (auto simp: bs_poll_def poll_ok_def)
  next
    case (Some x)
    obtain born f where x: "x = (born, f)" by (cases x)
    obtain p f' where p: "yf_poll w f = (p, f')" by fastforce
    consider e where "p = Inl e" | "p = Inr NotReady" | "p = Inr (Ready None)"
      | b where "p = Inr (Ready (Some b))"
      by (metis async.exhaust option.exhaust sum.exhaust)
    then show ?thesis
    proof cases
      case 4
      then obtain n where "num b = Some n"
        using nxt Some x p assms by (cases "num b") (auto simp: bs_poll_def)
      with 4 nxt Some x p assms show ?thesis by (auto simp: bs_poll_def poll_ok_def cap_of_def)
    qed (use nxt Some x p assms in \<open>auto simp: bs_poll_def poll_ok_def cap_of_def split: if_splits\<close>)
  qed
qed

lemma block_inv_poll:
  assumes inv: "block_inv num lo hi cap (ys, st)"
    and poll: "bs_poll E bd num clk t w st s = Ret (r, st', s')"
    and ys': "set ys' = set ys \<union> {b. r = Inr (Ready (Some b))}"
  shows "block_inv num lo hi cap (ys', st')"
proof -
  obtain m st1 where nxt: "next_block E bd clk st s = Ret ((m, st1), s')"
    and p: "poll_ok num m st1 r st'"
    using bs_poll_ok [OF poll] by blast
  have hi: "bs_from st \<le> bs_to st" "bs_to st \<noteq> - 1" using inv by (auto simp: block_inv_def)
  have ok: "next_ok st m st1" using next_block_ok [OF nxt hi] .
  have miss: "length (missing st) \<le> Suc (unat hi - unat lo)"
    using length_missing [OF hi(2)] inv by (simp add: block_inv_def)
  have "completed st' = completed st1 \<union> {low_u64 n |b n. r = Inr (Ready (Some b)) \<and> num b = Some n}"
    using p by (simp add: poll_ok_def)
  moreover have "completed st1 = {low_u64 n |b n. b \<in> set ys \<and> num b = Some n}"
    using inv ok by (simp add: block_inv_def next_ok_def)
  ultimately have comp: "completed st' = {low_u64 n |b n. b \<in> set ys' \<and> num b = Some n}"
    unfolding ys' by blast
  have bounds: "start_block st' = lo" "bs_to st' = hi" "lo \<le> bs_from st'" "bs_from st' \<le> hi"
    "cap_of st' = cap"
    using inv ok p by (auto simp: block_inv_def next_ok_def poll_ok_def)
  have "(bs_from st' < hi \<longrightarrow> length (queue st') \<le> cap) \<and>
      length (queue st') \<le> max cap (Suc (unat hi - unat lo))" if cap: "1 \<le> cap" "cap < 2 ^ 64"
  proof (cases "bs_from st < hi")
    case True
    then have "m \<noteq> None \<and> Suc (length (queue st1)) \<le> cap"
      using inv ok cap by (auto simp: block_inv_def next_ok_def)
    with p show ?thesis by (auto simp: poll_ok_def)
  next
    case False
    then have eq: "bs_from st = bs_to st" "bs_to st = hi"
      using inv by (auto simp: block_inv_def)
    have "bs_from st' = hi" using ok p eq by (auto simp: next_ok_def poll_ok_def)
    moreover have "length (queue st') \<le> max cap (Suc (unat hi - unat lo))"
    proof (cases m)
      case None
      then have "queue st' = []" using p ok by (simp add: poll_ok_def next_ok_def)
      then show ?thesis by simp
    next
      case (Some x)
      then have "Suc (length (queue st1)) \<le> max (length (queue st)) (length (missing st))"
        using ok eq cap inv by (auto simp: next_ok_def block_inv_def)
      with p inv cap miss show ?thesis by (auto simp: poll_ok_def block_inv_def)
    qed
    ultimately show ?thesis by simp
  qed
  with bounds comp hi(2) inv show ?thesis by (simp add: block_inv_def)
qed

interpretation bstream: inductive_invariant "block_start lo hi cap" "block_poll bd num" "block_inv num lo hi cap"
proof
  fix x :: "'a list \<times> 'a block_stream"
  assume "block_start lo hi cap x"
  then show "block_inv num lo hi cap x"
    by (auto simp: block_start_def block_inv_def block_stream_with_options_def cap_of_def)
next
  fix x y
  assume inv: "block_inv num lo hi cap x" and step: "block_poll bd num x y"
  from step show "block_inv num lo hi cap y"
  proof cases
    case (poll_yield E clk t w st s b st' s' ys)
    with inv show ?thesis by (auto intro: block_inv_poll)
  next
    case (poll_quiet E clk t w st s r st' s' ys)
    with inv show ?thesis by (auto intro: block_inv_poll)
  qed
qed


lemma next_block_total:
  assumes "bs_from st \<le> bs_to st" and "bs_to st \<noteq> - 1" and "1 \<le> cap_of st" and "cap_of st < 2 ^ 64"
    and "bs_from st < bs_to st \<longrightarrow> length (queue st) \<le> cap_of st"
  shows "next_block E bd clk st s \<noteq> Panic"
proof (cases "bs_from st = bs_to st")
  case True
  then show ?thesis
    using assms(2) by (cases "queue st = []") (simp_all add: next_block_end next_block_drain)
next
  case False
  with assms(1) have lt: "bs_from st < bs_to st" by simp
  obtain h where h: "half_capacity (oc E) st = Ret h" "unat h = cap_of st div 2"
    using half_capacity_exact [OF assms(4)] by blast
  have len: "unat (word_of_nat (length (queue st)) :: usize) = length (queue st)"
    using assms(4,5) lt by (intro unat_word_of_nat_small) simp
  show ?thesis
  proof (cases "h < word_of_nat (length (queue st))")
    case True
    with h show ?thesis by (simp add: next_block_mid [OF lt assms(2)])
  next
    case False
    with h len have "length (queue st) \<le> cap_of st div 2" by (simp add: word_less_nat_alt)
    with assms(3) have "length (queue st) < cap_of st" by linarith
    with False h show ?thesis
      using remaining_capacity_exact [OF assms(4), of "oc E"]
      by (auto simp: next_block_mid [OF lt assms(2)] Let_def)
  qed
qed

lemma bs_poll_total:
  assumes "block_inv num lo hi cap (ys, st)" and "1 \<le> cap" and "cap < 2 ^ 64" and "\<forall>b. num b \<noteq> None"
  shows "bs_poll E bd num clk t w st s \<noteq> Panic"
proof -
  have "next_block E bd clk st s \<noteq> Panic"
    using assms(1-3) by (intro next_block_total) (auto simp: block_inv_def)
  then show ?thesis
    using assms(4)
    by (cases "next_block E bd clk st s")
      (auto simp: bs_poll_def expect_def split: option.splits sum.splits async.splits prod.splits,
       metis option.distinct(1))
qed

text \<open>The call of \<open>next\<close> that fills the queue, with the room that is left.\<close>

lemma next_block_fill:
  assumes lt: "bs_from st < bs_to st" and "bs_to st \<noteq> - 1" and cap: "1 \<le> cap_of st" "cap_of st < 2 ^ 64"
    and len: "length (queue st) \<le> cap_of st div 2"
  shows "\<exists>n. unat n = min (unat (bs_to st) - unat (bs_from st)) (cap_of st - length (queue st) - 1) \<and>
    n \<le> bs_to st - bs_from st \<and>
    next_block E bd clk st s = Ret (ask_blocks E bd clk (fill_blocks st n) n st s)"
proof -
  have less: "length (queue st) < cap_of st" using cap(1) len by linarith
  obtain h where h: "half_capacity (oc E) st = Ret h" "unat h = cap_of st div 2"
    using half_capacity_exact [OF cap(2)] by blast
  obtain r where r: "remaining_capacity (oc E) st = Ret r" "unat r = cap_of st - length (queue st) - 1"
    using remaining_capacity_exact [OF cap(2) less] by blast
  have "unat (word_of_nat (length (queue st)) :: usize) = length (queue st)"
    using less cap(2) by (intro unat_word_of_nat_small) simp
  with h len have "\<not> h < word_of_nat (length (queue st))" by (simp add: word_less_nat_alt)
  moreover have "unat (min (bs_to st - bs_from st) r) =
      min (unat (bs_to st) - unat (bs_from st)) (cap_of st - length (queue st) - 1)"
    using r(2) unat_sub [OF less_imp_le [OF lt]] by (auto simp: min_def word_le_nat_alt)
  ultimately show ?thesis
    using h(1) r(1)
    by (intro exI [of _ "min (bs_to st - bs_from st) r"])
      (simp add: next_block_mid [OF lt assms(2)] Let_def)
qed

lemma last_fill_blocks: "bs_from st \<le> bs_from st + n \<Longrightarrow> last (fill_blocks st n) = bs_from st + n"
  by (simp add: fill_blocks_def word_le_nat_alt)

lemma unat_fill_blocks: "map unat (fill_blocks st n) = [unat (bs_from st)..<Suc (unat (bs_from st + n))]"
proof -
  have "unat (bs_from st + n) < 2 ^ 64" using unsigned_less [of "bs_from st + n"] by simp
  then have "k < 2 ^ LENGTH(64)" if "k < Suc (unat (bs_from st + n))" for k
    using that by simp
  then show ?thesis
    unfolding fill_blocks_def by (auto simp: unat_word_of_nat_small intro!: map_idI simp del: upt_Suc)
qed

section \<open>A small run\<close>

text \<open>A stream of the single block 5, asked for and answered on the client \<open>demo_sys\<close>.\<close>

definition demo_stream :: "u256 block_stream" where
  "demo_stream = block_stream_with_options 5 5 True 10 5"

definition demo_block :: "json \<Rightarrow> string + u256 option" where
  "demo_block v = Inr (Some 5)"

definition demo_answer :: world where
  "demo_answer c = RxReady (Inr JNull)"

lemma demo_start: "block_start 5 5 50 ([], demo_stream)"
proof -
  have "unat (5 :: u64) * unat (10 :: u64) = 50" by simp
  then show ?thesis unfolding block_start_def demo_stream_def by fastforce
qed

abbreviation single_stream :: "bool \<Rightarrow> u256 block_stream" where
  "single_stream tx \<equiv> block_stream_with_options 5 5 tx 10 5"

lemma single_next:
  "\<exists>s'. next_block demo_env bd (\<lambda>_. 0) (single_stream tx) demo_sys =
     Ret ((Some (0, FWaitingFn 1 (de bd)), (single_stream tx)), s') \<and> trace s' = [Queue 0 (Text ''batch'')]"
proof -
  let ?b = "get_blocks demo_env bd tx [5] demo_sys :: (u256 option, unit) yum_batch_future \<times> sys"
  have "sockets demo_sys = [demo_worker]" by (simp add: demo_sys_def)
  then have "fst ?b = BWaiting [FWaitingFn 1 (de bd)]"
    using register_all_frame [of "[block_req demo_env bd tx (Number 5)]" demo_sys]
    by (simp add: get_blocks_def get_blocks_named_def op_batch_request_def batch_request_futures
        fresh_futures_def block_req_def demo_env_def demo_sys_def demo_net_def send_open)
  moreover have "trace (snd ?b) = [Queue 0 (Text ''batch'')]"
    by (simp add: get_blocks_def get_blocks_named_def op_batch_request_def block_req_def
        demo_env_def demo_net_def demo_sys_def demo_worker_def batch_request_def register_all_Cons
        send_def send_request_def client_defs)
  ultimately obtain s1 where b: "?b = (BWaiting [FWaitingFn 1 (de bd)], s1)" "trace s1 = [Queue 0 (Text ''batch'')]"
    by (metis prod.collapse)
  have miss: "missing (single_stream tx) = [5]"
    by (simp add: missing_def block_stream_with_options_def word_range_def)
  have "next_block demo_env bd (\<lambda>_. 0) (single_stream tx) demo_sys =
      Ret (ask_blocks demo_env bd (\<lambda>_. 0) [5] 0 (single_stream tx) demo_sys)"
    using miss by (subst next_block_end) (simp_all add: block_stream_with_options_def)
  also have "ask_blocks demo_env bd (\<lambda>_. 0) [5] 0 (single_stream tx) demo_sys =
      ((Some (0, FWaitingFn 1 (de bd)), (single_stream tx)), s1)"
    using b(1) by (simp add: ask_blocks_def block_stream_with_options_def enqueue_def
        pop_front_def)
  finally show ?thesis using b(2) by blast
qed

lemma single_first_poll:
  "\<exists>s'. bs_poll demo_env demo_block Some (\<lambda>_. 0) 0 demo_answer (single_stream tx) demo_sys =
     Ret (Inr (Ready (Some 5)), (single_stream tx)\<lparr>completed := {5}\<rparr>, s')"
proof -
  obtain s1 where "next_block demo_env demo_block (\<lambda>_. 0) (single_stream tx) demo_sys =
      Ret ((Some (0, FWaitingFn 1 (de demo_block)), (single_stream tx)), s1)"
    using single_next by blast
  moreover have "low_u64 5 = 5" by (simp add: low_u64_def)
  ultimately show ?thesis
    by (auto simp: bs_poll_def demo_answer_def de_def demo_block_def
        block_stream_with_options_def)
qed

lemma single_last_poll:
  "bs_poll demo_env demo_block Some (\<lambda>_. 0) 0 demo_answer (single_stream tx\<lparr>completed := {5}\<rparr>) demo_sys =
     Ret (Inr (Ready None), single_stream tx\<lparr>completed := {5}\<rparr>, demo_sys)"
  by (simp add: bs_poll_def next_block_end block_stream_with_options_def missing_def
      word_range_def)

lemma demo_next:
  "\<exists>s'. next_block demo_env bd (\<lambda>_. 0) demo_stream demo_sys =
     Ret ((Some (0, FWaitingFn 1 (de bd)), demo_stream), s') \<and> trace s' = [Queue 0 (Text ''batch'')]"
  unfolding demo_stream_def by (rule single_next)

lemma demo_first_poll:
  "\<exists>s'. bs_poll demo_env demo_block Some (\<lambda>_. 0) 0 demo_answer demo_stream demo_sys =
     Ret (Inr (Ready (Some 5)), demo_stream\<lparr>completed := {5}\<rparr>, s')"
  unfolding demo_stream_def by (rule single_first_poll)

lemma demo_run: "reach (block_start 5 5 50) (block_poll demo_block Some) ([5], demo_stream\<lparr>completed := {5}\<rparr>)"
proof -
  have "block_poll demo_block Some ([], demo_stream) ([5], demo_stream\<lparr>completed := {5}\<rparr>)"
    using demo_first_poll poll_yield [of _ demo_block Some _ _ _ _ _ _ _ _ "[]"] by fastforce
  with reach_start [of "block_start 5 5 50", OF demo_start] show ?thesis
    by (auto intro: reach_step)
qed

lemma demo_last_poll:
  "bs_poll demo_env demo_block Some (\<lambda>_. 0) 0 demo_answer (demo_stream\<lparr>completed := {5}\<rparr>) demo_sys =
     Ret (Inr (Ready None), demo_stream\<lparr>completed := {5}\<rparr>, demo_sys)"
  unfolding demo_stream_def by (rule single_last_poll)

text \<open>At the end of the stream every number of the range has been yielded.\<close>

lemma ended_complete:
  assumes inv: "block_inv num lo hi cap (ys, st)"
    and "bs_poll E bd num clk t w st s = Ret (Inr (Ready None), st', s')" and "lo \<le> n" and "n \<le> hi"
  shows "\<exists>b \<in> set ys. map_option low_u64 (num b) = Some n"
proof -
  obtain m st1 where "next_block E bd clk st s = Ret ((m, st1), s')" "poll_ok num m st1 (Inr (Ready None)) st'"
    using bs_poll_ok [OF assms(2)] by blast
  then have "missing st = []"
    using next_block_ok [of E bd clk st s m st1 s'] inv
    by (auto simp: poll_ok_def next_ok_def block_inv_def)
  then have "n \<in> completed st"
    using missing_Nil [of st n] inv assms(3,4) by (auto simp: block_inv_def)
  with inv show ?thesis by (auto simp: block_inv_def)
qed

section \<open>Properties\<close>

text \<open>
  C7: The stream ends only when it has yielded everything. Take a stream over the blocks from
  \<open>lo\<close> to \<open>hi\<close> (\<open>lo\<close> not above \<open>hi\<close>, \<open>hi\<close> below the largest \<open>u64\<close>) with any
  batch and buffer size, poll it any number of times while the node, the clock and the rest of the
  program do anything, in a build with or without overflow checks. If a poll answers the end of the stream, then for every block
  number from \<open>lo\<close> to \<open>hi\<close>, both included, a block with that number has been yielded.
\<close>

theorem block_stream_complete:
  assumes "reach (block_start lo hi cap) (block_poll bd num) (ys, st)"
    and "bs_poll E bd num clk t w st s = Ret (Inr (Ready None), st', s')"
    and "lo \<le> n" and "n \<le> hi"
  shows "\<exists>b \<in> set ys. map_option low_u64 (num b) = Some n"
  using ended_complete [OF bstream.inv_reach [OF assms(1)] assms(2-4)] .

theorem block_stream_complete_witness:
  "\<exists>b \<in> set [5 :: u256]. map_option low_u64 (Some b) = Some (5 :: u64)"
  by (rule block_stream_complete [OF demo_run demo_last_poll]) simp_all

text \<open>
  The queue is bounded. As long as blocks remain to be asked for, at most as many requests
  are in flight as the capacity allows; after that, at most the capacity or the number of
  blocks of the range, whichever is larger.
\<close>

lemma block_queue_bounded:
  assumes "reach (block_start lo hi cap) (block_poll bd num) (ys, st)" and "1 \<le> cap" and "cap < 2 ^ 64"
  shows "(bs_from st < hi \<longrightarrow> length (queue st) \<le> cap) \<and>
    length (queue st) \<le> max cap (Suc (unat hi - unat lo))"
  using bstream.inv_reach [OF assms(1)] assms(2,3) by (auto simp: block_inv_def)

text \<open>
  C24: The stream does not panic and its queue is bounded, on sensible arguments. Let the first
  block not be above the last one, let the last one not be the largest \<open>u64\<close>, let the capacity
  (buffer times batch) be at least one and fit in 64 bits, as the default of 50 does, and let the
  blocks the node sends have a number. \<open>with_options\<close> checks none of these. Then no poll of the
  stream panics, with or without overflow checks, however long it runs. As long as blocks remain
  to be asked for, at most as many requests are in flight as the capacity allows; after that, at
  most the capacity or the number of blocks of the range, whichever is larger.
\<close>

theorem block_stream_no_panic:
  assumes "lo \<le> hi" and "hi \<noteq> - 1" and "1 \<le> cap" and "cap < 2 ^ 64" and "\<forall>b. num b \<noteq> None"
    and "cap = unat buffer * unat batch"
    and "reach (\<lambda>x. x = ([], block_stream_with_options lo hi tx batch buffer)) (block_poll bd num) (ys, st)"
  shows "bs_poll E bd num clk t w st s \<noteq> Panic \<and>
    (bs_from st < hi \<longrightarrow> length (queue st) \<le> cap) \<and>
    length (queue st) \<le> max cap (Suc (unat hi - unat lo))"
proof -
  have "block_start lo hi cap x" if "x = ([], block_stream_with_options lo hi tx batch buffer)" for x :: "'a list \<times> 'a block_stream"
    unfolding block_start_def using assms(1,2,6) that by blast
  from reach_from [OF assms(7) this] have run: "reach (block_start lo hi cap) (block_poll bd num) (ys, st)" .
  from bs_poll_total [OF bstream.inv_reach [OF run] assms(3-5)] block_queue_bounded [OF run assms(3,4)]
  show ?thesis by blast
qed

theorem block_stream_no_panic_witness:
  "bs_poll demo_env demo_block Some (\<lambda>_. 0) 0 demo_answer demo_stream demo_sys \<noteq> Panic \<and>
   length (queue demo_stream) \<le> max 50 (Suc (unat (5 :: u64) - unat (5 :: u64)))"
proof -
  have "reach (\<lambda>x. x = ([], block_stream_with_options 5 5 True 10 5)) (block_poll demo_block Some) ([], demo_stream)"
    unfolding demo_stream_def by (rule reach_start) simp
  moreover have "(50 :: nat) = unat (5 :: u64) * unat (10 :: u64)" by simp
  ultimately have "bs_poll demo_env demo_block Some (\<lambda>_. 0) 0 demo_answer demo_stream demo_sys \<noteq> Panic \<and>
    (bs_from demo_stream < 5 \<longrightarrow> length (queue demo_stream) \<le> 50) \<and>
    length (queue demo_stream) \<le> max 50 (Suc (unat (5 :: u64) - unat (5 :: u64)))"
    by (intro block_stream_no_panic) simp_all
  then show ?thesis by blast
qed

text \<open>
  A batch asks for the next blocks, and the last one again. When at most half of the
  capacity is in use and blocks remain, one call of \<open>next\<close> sends one batch for consecutive
  blocks starting at the cursor: as many as the room or the range allows, plus one. The
  cursor moves to the last block it asked for, so the next batch starts with that block: it
  is requested twice.
\<close>

lemma fill_asks_consecutive_blocks:
  assumes "reach (block_start lo hi cap) (block_poll bd num) (ys, st)" and "1 \<le> cap" and "cap < 2 ^ 64"
    and "bs_from st < hi" and "length (queue st) \<le> cap div 2"
  shows "\<exists>bs n m st1 s1. next_block E bd clk st s = Ret ((m, st1), s1) \<and>
    ask_blocks E bd clk bs n st s = ((m, st1), s1) \<and>
    map unat bs = [unat (bs_from st)..<
      Suc (unat (bs_from st) + min (unat hi - unat (bs_from st)) (cap - length (queue st) - 1))] \<and>
    bs_from st1 = last bs"
proof -
  have inv: "block_inv num lo hi cap (ys, st)" using bstream.inv_reach [OF assms(1)] .
  then have st: "bs_to st = hi" "hi \<noteq> - 1" "cap_of st = cap" by (auto simp: block_inv_def)
  obtain n where n: "unat n = min (unat hi - unat (bs_from st)) (cap - length (queue st) - 1)"
    "n \<le> hi - bs_from st"
    "next_block E bd clk st s = Ret (ask_blocks E bd clk (fill_blocks st n) n st s)"
    using next_block_fill [of st E bd clk s] assms st by auto
  obtain m st1 s1 where ask: "ask_blocks E bd clk (fill_blocks st n) n st s = ((m, st1), s1)"
    by (metis prod.collapse)
  note room = word_room [OF less_imp_le [OF assms(4)] n(2)]
  have "bs_from st1 = last (fill_blocks st n)"
    using ask_blocks_frame(6) [OF ask] last_fill_blocks [OF room(3)] by simp
  moreover have "map unat (fill_blocks st n) = [unat (bs_from st)..<
      Suc (unat (bs_from st) + min (unat hi - unat (bs_from st)) (cap - length (queue st) - 1))]"
    using unat_fill_blocks [of st n] room(1) n(1) by simp
  ultimately show ?thesis using n(3) ask by metis
qed

text \<open>
  What was lost is asked for again. Once the cursor is at the end and the queue is empty,
  a call of \<open>next\<close> looks at the blocks of the range that no yielded block has the number of:
  if there are none it ends the stream, otherwise it sends one batch for exactly these, in
  ascending order.
\<close>

lemma missing_blocks_asked_again:
  assumes "reach (block_start lo hi cap) (block_poll bd num) (ys, st)"
    and "bs_from st = hi" and "queue st = []"
  shows "\<exists>bs. sorted_wrt (<) bs \<and>
    set bs = {n. lo \<le> n \<and> n \<le> hi \<and> (\<forall>b \<in> set ys. map_option low_u64 (num b) \<noteq> Some n)} \<and>
    next_block E bd clk st s =
      (if bs = [] then Ret ((None, st), s) else Ret (ask_blocks E bd clk bs 0 st s))"
proof -
  have inv: "block_inv num lo hi cap (ys, st)" using bstream.inv_reach [OF assms(1)] .
  then have st: "start_block st = lo" "bs_to st = hi" "hi \<noteq> - 1"
    and comp: "completed st = {low_u64 n |b n. b \<in> set ys \<and> num b = Some n}"
    by (auto simp: block_inv_def)
  have "n < hi + 1 \<longleftrightarrow> n \<le> hi" for n
    by (simp add: word_less_nat_alt word_le_nat_alt plus_one_no_overflow [OF st(3)] less_Suc_eq_le)
  then have "set (missing st) = {n. lo \<le> n \<and> n \<le> hi \<and> n \<notin> completed st}"
    by (auto simp: missing_def set_word_range st)
  moreover have "n \<notin> completed st \<longleftrightarrow> (\<forall>b \<in> set ys. map_option low_u64 (num b) \<noteq> Some n)" for n
    unfolding comp by auto
  moreover have "sorted_wrt (<) (missing st)"
    unfolding missing_def by (intro sorted_wrt_filter sorted_word_range)
  ultimately show ?thesis
    using next_block_end [of st E bd clk s] assms(2,3) st
    by (intro exI [of _ "missing st"]) auto
qed

text \<open>
  C28: What a stream of blocks asks for, if its range is not reversed and ends below the largest
  \<open>u64\<close> and its capacity is at least one and fits in 64 bits. When at most half of the capacity is
  in use and blocks remain, one call of \<open>next\<close> sends one batch for consecutive blocks starting at the cursor, as
  many as the room or the range allows, plus one; the cursor moves to the last of them, so that
  block is requested twice. Once the cursor is at the end and the queue is empty, the call ends
  the stream if every block of the range was yielded, and otherwise sends one batch for exactly
  the missing ones, in ascending order.
\<close>

theorem next_asks_for_blocks:
  assumes "reach (block_start lo hi cap) (block_poll bd num) (ys, st)" and "1 \<le> cap" and "cap < 2 ^ 64"
  shows "(bs_from st < hi \<and> length (queue st) \<le> cap div 2 \<longrightarrow>
      (\<exists>bs n m st1 s1. next_block E bd clk st s = Ret ((m, st1), s1) \<and>
        ask_blocks E bd clk bs n st s = ((m, st1), s1) \<and>
        map unat bs = [unat (bs_from st)..<
          Suc (unat (bs_from st) + min (unat hi - unat (bs_from st)) (cap - length (queue st) - 1))] \<and>
        bs_from st1 = last bs)) \<and>
    (bs_from st = hi \<and> queue st = [] \<longrightarrow>
      (\<exists>bs. sorted_wrt (<) bs \<and>
        set bs = {n. lo \<le> n \<and> n \<le> hi \<and> (\<forall>b \<in> set ys. map_option low_u64 (num b) \<noteq> Some n)} \<and>
        next_block E bd clk st s =
          (if bs = [] then Ret ((None, st), s) else Ret (ask_blocks E bd clk bs 0 st s))))"
  using fill_asks_consecutive_blocks [OF assms] missing_blocks_asked_again [OF assms(1)] by simp

theorem next_asks_for_blocks_witness:
  "(\<exists>bs n m st1 s1. next_block demo_env demo_block (\<lambda>_. 0) (block_stream_new 0 100 True) demo_sys = Ret ((m, st1), s1) \<and>
      ask_blocks demo_env demo_block (\<lambda>_. 0) bs n (block_stream_new 0 100 True) demo_sys = ((m, st1), s1) \<and>
      map unat bs = [0..<50] \<and> bs_from st1 = last bs) \<and>
   (\<exists>bs. sorted_wrt (<) bs \<and> set bs = {n :: u64. 5 \<le> n \<and> n \<le> 5} \<and>
      next_block demo_env demo_block (\<lambda>_. 0) demo_stream demo_sys =
        (if bs = [] then Ret ((None, demo_stream), demo_sys)
         else Ret (ask_blocks demo_env demo_block (\<lambda>_. 0) bs 0 demo_stream demo_sys)))"
proof
  let ?st = "block_stream_new 0 100 True :: u256 block_stream"
  have "unat (5 :: u64) * unat (10 :: u64) = 50" by simp
  then have "block_start 0 100 50 ([], ?st)"
    unfolding block_start_def block_stream_new_def block_stream_with_options_def by fastforce
  then have "reach (block_start 0 100 50) (block_poll demo_block Some) ([], ?st)" by (rule reach_start)
  from next_asks_for_blocks [OF this, of demo_env "\<lambda>_. 0" demo_sys]
  show "\<exists>bs n m st1 s1. next_block demo_env demo_block (\<lambda>_. 0) ?st demo_sys = Ret ((m, st1), s1) \<and>
      ask_blocks demo_env demo_block (\<lambda>_. 0) bs n ?st demo_sys = ((m, st1), s1) \<and>
      map unat bs = [0..<50] \<and> bs_from st1 = last bs"
    by (simp add: block_stream_new_def)
  show "\<exists>bs. sorted_wrt (<) bs \<and> set bs = {n :: u64. 5 \<le> n \<and> n \<le> 5} \<and>
      next_block demo_env demo_block (\<lambda>_. 0) demo_stream demo_sys =
        (if bs = [] then Ret ((None, demo_stream), demo_sys)
         else Ret (ask_blocks demo_env demo_block (\<lambda>_. 0) bs 0 demo_stream demo_sys))"
    using next_asks_for_blocks [OF reach_start [of "block_start 5 5 50", OF demo_start], where num = Some]
    by (simp add: demo_stream_def block_stream_with_options_def)
qed

section \<open>Arguments that panic\<close>







end
