(* ===== verification/Transaction_Stream.thy ===== *)
theory Transaction_Stream
  imports Block_Stream
begin

text \<open>
  \<open>TransactionStream\<close> (\<open>src/client/streaming/transaction.rs\<close>): a stream of the transactions
  with the given hashes, with the same bounded queue of requests in flight as the stream of
  blocks, but without a second attempt: a request that is not answered within five seconds
  is dropped for good.
\<close>

section \<open>The stream\<close>

record 'x transaction_stream =
  tx_list :: "h256 list"
  tx_buffer_size :: usize
  tx_batch_size :: u64
  tx_queue :: "'x item list"

definition transaction_stream_new :: "h256 list \<Rightarrow> 'x transaction_stream" where
  "transaction_stream_new txns =
     \<lparr>tx_list = txns, tx_buffer_size = 5, tx_batch_size = 10, tx_queue = []\<rparr>"

definition tx_has_next :: "'x transaction_stream \<Rightarrow> bool" where
  "tx_has_next st \<longleftrightarrow> tx_list st \<noteq> []"

definition tx_queue_capacity :: "bool \<Rightarrow> 'x transaction_stream \<Rightarrow> usize outcome" where
  "tx_queue_capacity chk st = checked_times chk (tx_buffer_size st) (tx_batch_size st)"

definition tx_half_capacity :: "bool \<Rightarrow> 'x transaction_stream \<Rightarrow> usize outcome" where
  "tx_half_capacity chk st = obind (tx_queue_capacity chk st) (\<lambda>c. Ret (c div 2))"

definition tx_remaining_capacity :: "bool \<Rightarrow> 'x transaction_stream \<Rightarrow> usize outcome" where
  "tx_remaining_capacity chk st =
     obind (tx_queue_capacity chk st) (\<lambda>c.
       obind (checked_minus chk c (word_of_nat (length (tx_queue st)))) (\<lambda>r. checked_minus chk r 1))"

definition tx_is_full :: "bool \<Rightarrow> 'x transaction_stream \<Rightarrow> bool outcome" where
  "tx_is_full chk st =
     obind (tx_queue_capacity chk st) (\<lambda>c. Ret (c = word_of_nat (length (tx_queue st))))"

definition tx_pop_front :: "'x transaction_stream \<Rightarrow> 'x item option \<times> 'x transaction_stream" where
  "tx_pop_front st =
     (case tx_queue st of [] \<Rightarrow> (None, st) | x # q \<Rightarrow> (Some x, st\<lparr>tx_queue := q\<rparr>))"

text \<open>\<open>for _ in 0..n { if let Some(tx) = tx_list.pop_front() { this_batch.push(tx) } }\<close>.\<close>

fun take_batch :: "nat \<Rightarrow> 'a list \<Rightarrow> 'a list \<times> 'a list" where
  "take_batch 0 txs = ([], txs)"
| "take_batch (Suc n) [] = take_batch n []"
| "take_batch (Suc n) (tx # txs) = apfst (Cons tx) (take_batch n txs)"

definition next_tx ::
  "env \<Rightarrow> (json \<Rightarrow> string + 'x option) \<Rightarrow> (nat \<Rightarrow> instant) \<Rightarrow> 'x transaction_stream \<Rightarrow> sys \<Rightarrow>
     (('x item option \<times> 'x transaction_stream) \<times> sys) outcome" where
  "next_tx E xd clk st s =
     (if tx_list st = [] \<and> tx_queue st = [] then Ret ((None, st), s)
      else if tx_list st = [] \<and> tx_queue st \<noteq> [] then Ret (tx_pop_front st, s)
      else
        obind (tx_half_capacity (oc E) st) (\<lambda>half.
          if half < word_of_nat (length (tx_queue st)) then Ret (tx_pop_front st, s)
          else
            obind (tx_remaining_capacity (oc E) st) (\<lambda>room.
              let get_this_many = min (word_of_nat (length (tx_list st))) room;
                  (this_batch, rest) = take_batch (unat get_this_many) (tx_list st)
              in case get_transactions E xd this_batch s of
                   (next_futs :: ('x option, unit) yum_batch_future, s1) \<Rightarrow>
                     Ret (tx_pop_front (st\<lparr>tx_list := rest,
                            tx_queue := enqueue clk next_futs (tx_queue st)\<rparr>), s1))))"

definition ts_poll ::
  "env \<Rightarrow> (json \<Rightarrow> string + 'x option) \<Rightarrow> (nat \<Rightarrow> instant) \<Rightarrow> instant \<Rightarrow> world \<Rightarrow>
     'x transaction_stream \<Rightarrow> sys \<Rightarrow> ('x option poll \<times> 'x transaction_stream \<times> sys) outcome" where
  "ts_poll E xd clk t w st s =
     obind (next_tx E xd clk st s) (\<lambda>((found, st1), s1).
       (case found of
          None \<Rightarrow> Ret (Inr (Ready None), st1, s1)
        | Some (born, next_item) \<Rightarrow>
            (case yf_poll w next_item of
               (Inl e, _) \<Rightarrow> Ret (Inl e, st1, s1)
             | (Inr (Ready (Some tx)), _) \<Rightarrow> Ret (Inr (Ready (Some tx)), st1, s1)
             | (Inr (Ready None), _) \<Rightarrow> Ret (Inr NotReady, st1, s1)
             | (Inr NotReady, next_item') \<Rightarrow>
                 Ret (Inr NotReady,
                      (if young t born then st1\<lparr>tx_queue := tx_queue st1 @ [(born, next_item')]\<rparr> else st1),
                      s1))))"

section \<open>The invariant\<close>

text \<open>
  The sizes are those of \<open>new\<close>, at most 50 requests are in flight, there are fewer hashes than
  a \<open>usize\<close> can count, and no future in the queue is spent.
\<close>

definition tx_inv :: "'x transaction_stream \<Rightarrow> bool" where
  "tx_inv st \<longleftrightarrow>
     tx_buffer_size st = 5 \<and> tx_batch_size st = 10 \<and> length (tx_queue st) \<le> 50 \<and>
     length (tx_list st) < 2 ^ 64 \<and> list_all (\<lambda>x. snd x \<noteq> FComplete) (tx_queue st)"

lemma tx_capacity:
  assumes "tx_inv st"
  shows "tx_half_capacity chk st = Ret 25"
    and "length (tx_queue st) \<le> 25 \<Longrightarrow>
      tx_remaining_capacity chk st = Ret (word_of_nat (49 - length (tx_queue st)))"
proof -
  have cap: "tx_queue_capacity chk st = Ret 50"
    using assms by (simp add: tx_queue_capacity_def tx_inv_def checked_times_def)
  then show "tx_half_capacity chk st = Ret 25" by (simp add: tx_half_capacity_def)
  assume le: "length (tx_queue st) \<le> 25"
  let ?l = "word_of_nat (length (tx_queue st)) :: usize"
  have l: "unat ?l = length (tx_queue st)" using le by (intro unat_word_of_nat_small) simp
  have "?l \<le> 50" using l le by (simp add: word_le_nat_alt)
  note d = checked_minus_exact [OF this]
  have "1 \<le> 50 - ?l" using l le d(2) by (simp add: word_le_nat_alt)
  note e = checked_minus_exact [OF this]
  have "unat (50 - ?l - 1) = unat (word_of_nat (49 - length (tx_queue st)) :: usize)"
    using l d(2) e(2) le by (subst unat_word_of_nat_small) simp_all
  then have "50 - ?l - 1 = word_of_nat (49 - length (tx_queue st))" by (rule unsigned_word_eqI)
  then show "tx_remaining_capacity chk st = Ret (word_of_nat (49 - length (tx_queue st)))"
    using cap d(1) e(1) by (simp add: tx_remaining_capacity_def)
qed

lemma take_batch_eq: "take_batch n xs = (take n xs, drop n xs)"
  by (induction n xs rule: take_batch.induct) simp_all

text \<open>A call that fills the queue asks for a non-empty prefix of the remaining hashes.\<close>

definition ask_txs ::
  "env \<Rightarrow> (json \<Rightarrow> string + 'x option) \<Rightarrow> (nat \<Rightarrow> instant) \<Rightarrow> nat \<Rightarrow> 'x transaction_stream \<Rightarrow> sys \<Rightarrow>
     ('x item option \<times> 'x transaction_stream) \<times> sys" where
  "ask_txs E xd clk n st s =
     (case get_transactions E xd (take n (tx_list st)) s of
        (b :: ('x option, unit) yum_batch_future, s1) \<Rightarrow>
          (tx_pop_front (st\<lparr>tx_list := drop n (tx_list st), tx_queue := enqueue clk b (tx_queue st)\<rparr>), s1))"

lemma next_tx_eq:
  assumes "tx_inv st"
  shows "next_tx E xd clk st s =
    (if tx_list st = [] \<or> 25 < length (tx_queue st) then Ret (tx_pop_front st, s)
     else Ret (ask_txs E xd clk (min (length (tx_list st)) (49 - length (tx_queue st))) st s))"
proof -
  have len: "unat (word_of_nat (length (tx_queue st)) :: usize) = length (tx_queue st)"
    using assms by (intro unat_word_of_nat_small) (simp add: tx_inv_def)
  then have half: "25 < (word_of_nat (length (tx_queue st)) :: usize) \<longleftrightarrow> 25 < length (tx_queue st)"
    by (simp add: word_less_nat_alt)
  define room :: usize where "room = word_of_nat (49 - length (tx_queue st))"
  have n: "unat (min (word_of_nat (length (tx_list st))) room) =
      min (length (tx_list st)) (49 - length (tx_queue st))"
    using assms by (simp add: room_def min_def word_le_nat_alt unat_word_of_nat_small tx_inv_def)
  show ?thesis
  proof (cases "tx_list st = [] \<or> 25 < length (tx_queue st)")
    case True
    then show ?thesis
      using tx_capacity(1) [OF assms, of "oc E"] half by (auto simp: next_tx_def tx_pop_front_def)
  next
    case False
    then have "tx_remaining_capacity (oc E) st = Ret room"
      using tx_capacity(2) [OF assms, of "oc E"] by (simp add: room_def)
    with False show ?thesis
      using tx_capacity(1) [OF assms, of "oc E"] half n
      by (simp add: next_tx_def take_batch_eq ask_txs_def Let_def split: prod.split)
  qed
qed

lemma tx_pop_front_simps [simp]:
  "fst (tx_pop_front st) = (case tx_queue st of [] \<Rightarrow> None | x # q \<Rightarrow> Some x)"
  "tx_list (snd (tx_pop_front st)) = tx_list st"
  "tx_queue (snd (tx_pop_front st)) = tl (tx_queue st)"
  "tx_buffer_size (snd (tx_pop_front st)) = tx_buffer_size st"
  "tx_batch_size (snd (tx_pop_front st)) = tx_batch_size st"
  by (simp_all add: tx_pop_front_def split: list.split)

lemma enqueue_transactions:
  "\<exists>items. enqueue clk (fst (get_transactions E xd txs s :: ('x option, unit) yum_batch_future \<times> sys)) q =
     q @ items \<and> length items = length txs \<and> list_all (\<lambda>x. snd x \<noteq> FComplete) items"
proof -
  let ?b = "get_transactions E xd txs s :: ('x option, unit) yum_batch_future \<times> sys"
  obtain futs where b: "fst ?b = BWaiting futs" "length futs = length txs"
    "list_all (\<lambda>f. f \<noteq> FComplete) futs"
    by (rule transactions.ask_cases)
  then have "list_all (\<lambda>x. snd x \<noteq> FComplete) (zip (map clk [0..<length futs]) futs)"
    by (auto simp: list_all_iff dest: set_zip_rightD)
  with b show ?thesis by (simp add: enqueue_def)
qed

text \<open>
  The effect of a call on the rest of the program: it sends nothing, or one batch for the
  hashes that left the list, which were its first ones.
\<close>

definition tx_asks ::
  "env \<Rightarrow> (json \<Rightarrow> string + 'x option) \<Rightarrow> 'x transaction_stream \<Rightarrow> sys \<Rightarrow> 'x transaction_stream \<Rightarrow> sys \<Rightarrow> bool" where
  "tx_asks E xd st s st1 s1 \<longleftrightarrow>
     (\<exists>bs. tx_list st = bs @ tx_list st1 \<and>
        s1 = (if bs = [] then s else snd (get_transactions E xd bs s :: ('x option, unit) yum_batch_future \<times> sys)))"

text \<open>What one call of \<open>next\<close> does: it takes one future from the queue unless all is done.\<close>

lemma next_tx_ok:
  assumes "tx_inv st"
  shows "\<exists>m st1 s1. next_tx E xd clk st s = Ret ((m, st1), s1) \<and> tx_inv st1 \<and>
    tx_asks E xd st s st1 s1 \<and>
    (case m of
       None \<Rightarrow> tx_list st = [] \<and> tx_queue st = [] \<and> st1 = st
     | Some x \<Rightarrow> snd x \<noteq> FComplete \<and> length (tx_queue st1) \<le> 49 \<and>
         Suc (length (tx_list st1) + length (tx_queue st1)) = length (tx_list st) + length (tx_queue st))"
proof (cases "tx_list st = [] \<or> 25 < length (tx_queue st)")
  case True
  with assms show ?thesis
    by (cases "tx_queue st") (auto simp: next_tx_eq tx_pop_front_def tx_inv_def tx_asks_def)
next
  case False
  let ?n = "min (length (tx_list st)) (49 - length (tx_queue st))"
  let ?b = "get_transactions E xd (take ?n (tx_list st)) s :: ('a option, unit) yum_batch_future \<times> sys"
  obtain items where items: "enqueue clk (fst ?b) (tx_queue st) = tx_queue st @ items"
    "length items = length (take ?n (tx_list st))" "list_all (\<lambda>x. snd x \<noteq> FComplete) items"
    using enqueue_transactions by blast
  have "0 < ?n" using False by auto
  moreover have "length items = ?n" using items(2) by simp
  ultimately have "items \<noteq> []" by (metis length_0_conv less_irrefl)
  then obtain x q where q: "tx_queue st @ items = x # q" by (cases "tx_queue st @ items") auto
  let ?st1 = "st\<lparr>tx_list := drop ?n (tx_list st), tx_queue := q\<rparr>"
  have "next_tx E xd clk st s = Ret ((Some x, ?st1), snd ?b)"
    using False items(1) q by (simp add: next_tx_eq [OF assms] ask_txs_def tx_pop_front_def case_prod_unfold)
  moreover have len: "Suc (length q) = length (tx_queue st) + ?n"
    using arg_cong [OF q, of length] items(2) by simp
  moreover have "list_all (\<lambda>x. snd x \<noteq> FComplete) (x # q)"
    using assms items(3) unfolding q [symmetric] by (simp add: tx_inv_def)
  moreover have "tx_asks E xd st s ?st1 (snd ?b)"
  proof -
    have "take ?n (tx_list st) \<noteq> []" using False by (auto simp: min_def)
    moreover have "tx_list st = take ?n (tx_list st) @ tx_list ?st1" by simp
    ultimately show ?thesis unfolding tx_asks_def by (metis (no_types))
  qed
  ultimately show ?thesis
    using assms False by (auto simp: tx_inv_def)
qed


section \<open>Polls\<close>

definition tx_left :: "'x transaction_stream \<Rightarrow> nat" where
  "tx_left st = length (tx_list st) + length (tx_queue st)"

text \<open>A world in which no channel is still empty.\<close>

definition all_answered :: "world \<Rightarrow> bool" where
  "all_answered w \<longleftrightarrow> (\<forall>c. w c \<noteq> RxNotReady)"

lemma answered_not_pending: "all_answered w \<Longrightarrow> f \<noteq> FComplete \<Longrightarrow> fst (yf_poll w f) \<noteq> Inr NotReady"
  by (cases f) (auto simp: all_answered_def split: rx_poll.splits sum.splits)

lemma pending_not_complete: "yf_poll w f = (Inr NotReady, f') \<Longrightarrow> f \<noteq> FComplete \<Longrightarrow> f' \<noteq> FComplete"
  by (cases f) (auto split: rx_poll.splits sum.splits)

lemma ts_poll_ok:
  assumes "tx_inv st"
  shows "\<exists>r st' s'. ts_poll E xd clk t w st s = Ret (r, st', s') \<and> tx_inv st' \<and> tx_asks E xd st s st' s' \<and>
    (r = Inr (Ready None) \<longleftrightarrow> tx_left st = 0) \<and> tx_left st' \<le> tx_left st \<and>
    (all_answered w \<longrightarrow> tx_left st' = tx_left st - 1)"
proof -
  obtain m st1 s1 where nxt: "next_tx E xd clk st s = Ret ((m, st1), s1)" "tx_inv st1"
    "tx_asks E xd st s st1 s1"
    "case m of None \<Rightarrow> tx_list st = [] \<and> tx_queue st = [] \<and> st1 = st
     | Some x \<Rightarrow> snd x \<noteq> FComplete \<and> length (tx_queue st1) \<le> 49 \<and>
         Suc (length (tx_list st1) + length (tx_queue st1)) = length (tx_list st) + length (tx_queue st)"
    using next_tx_ok [OF assms, of E xd clk s] by blast
  show ?thesis
  proof (cases m)
    case None
    with nxt show ?thesis by (simp add: ts_poll_def tx_left_def)
  next
    case (Some x)
    obtain born f where x: "x = (born, f)" by (cases x)
    obtain p f' where p: "yf_poll w f = (p, f')" by fastforce
    have left: "tx_left st = Suc (tx_left st1)" and f: "f \<noteq> FComplete" and q: "length (tx_queue st1) \<le> 49"
      using nxt(4) Some x by (auto simp: tx_left_def)
    consider e where "p = Inl e" | "p = Inr NotReady" | "p = Inr (Ready None)"
      | b where "p = Inr (Ready (Some b))"
      by (metis async.exhaust option.exhaust sum.exhaust)
    then show ?thesis
    proof cases
      case 2
      then have "\<not> all_answered w" and "f' \<noteq> FComplete"
        using answered_not_pending [of w f] pending_not_complete [of w f f'] p f by auto
      then show ?thesis
        using 2 nxt Some x p left q
        by (auto simp: ts_poll_def tx_inv_def tx_left_def tx_asks_def)
    qed (use nxt Some x p left in \<open>simp_all add: ts_poll_def\<close>)
  qed
qed

text \<open>
  A run of the stream, with the hashes it has asked for so far: the concatenation of the
  batches that were handed to \<open>get_transactions\<close>.
\<close>

inductive tx_step ::
  "(json \<Rightarrow> string + 'x option) \<Rightarrow> h256 list \<times> 'x transaction_stream \<Rightarrow> h256 list \<times> 'x transaction_stream \<Rightarrow> bool"
  for xd :: "json \<Rightarrow> string + 'x option" where
  "ts_poll E xd clk t w st s = Ret (r, st', s') \<Longrightarrow> tx_list st = bs @ tx_list st' \<Longrightarrow>
     s' = (if bs = [] then s else snd (get_transactions E xd bs s :: ('x option, unit) yum_batch_future \<times> sys)) \<Longrightarrow>
     tx_step xd (asked, st) (asked @ bs, st')"

definition tx_start :: "h256 list \<Rightarrow> h256 list \<times> 'x transaction_stream \<Rightarrow> bool" where
  "tx_start txns x \<longleftrightarrow> length txns < 2 ^ 64 \<and> x = ([], transaction_stream_new txns)"

definition tx_run_inv :: "h256 list \<Rightarrow> h256 list \<times> 'x transaction_stream \<Rightarrow> bool" where
  "tx_run_inv txns x \<longleftrightarrow> tx_inv (snd x) \<and> fst x @ tx_list (snd x) = txns"

interpretation tstream: inductive_invariant "tx_start txns" "tx_step xd" "tx_run_inv txns"
proof
  fix x :: "h256 list \<times> 'a transaction_stream"
  assume "tx_start txns x"
  then show "tx_run_inv txns x"
    by (auto simp: tx_start_def tx_run_inv_def tx_inv_def transaction_stream_new_def)
next
  fix x y :: "h256 list \<times> 'a transaction_stream"
  assume inv: "tx_run_inv txns x" and "tx_step xd x y"
  from this(2) show "tx_run_inv txns y"
  proof cases
    case (1 E clk t w st s r st' s' bs asked)
    then have "tx_inv st'"
      using inv ts_poll_ok [of st E xd clk t w s] by (auto simp: tx_run_inv_def)
    with 1 inv show ?thesis by (auto simp: tx_run_inv_def)
  qed
qed


section \<open>Properties\<close>

text \<open>
  C16: Every hash is asked for exactly once, in order, and nothing panics. In every state of
  every run, the hashes in the batches sent so far, followed by those still in the list, are
  the given hashes in the given order; at most 50 requests are in flight; and the next poll,
  whatever the node, the clock and the other threads do, returns without panic and sends
  nothing or one batch for the first hashes of the list, which it removes.
\<close>

theorem transactions_asked_once:
  assumes "reach (tx_start txns) (tx_step xd) (asked, st)"
  shows "asked @ tx_list st = txns \<and> length (tx_queue st) \<le> 50 \<and>
    (\<exists>r st' s' bs. ts_poll E xd clk t w st s = Ret (r, st', s') \<and> tx_list st = bs @ tx_list st' \<and>
       s' = (if bs = [] then s else snd (get_transactions E xd bs s :: ('x option, unit) yum_batch_future \<times> sys)))"
proof -
  have inv: "tx_inv st" "asked @ tx_list st = txns"
    using tstream.inv_reach [OF assms] by (auto simp: tx_run_inv_def)
  with ts_poll_ok [OF inv(1), of E xd clk t w s] show ?thesis
    by (auto simp: tx_asks_def tx_inv_def)
qed

theorem transactions_asked_once_witness:
  "let st = transaction_stream_new [7, 8] in
   \<exists>r st' s' bs. ts_poll demo_env demo_block (\<lambda>_. 0) 0 demo_answer st demo_sys = Ret (r, st', s') \<and>
     tx_list st = bs @ tx_list st' \<and>
     s' = (if bs = [] then demo_sys
           else snd (get_transactions demo_env demo_block bs demo_sys :: (u256 option, unit) yum_batch_future \<times> sys))"
proof -
  have "reach (tx_start [7, 8]) (tx_step demo_block) ([], transaction_stream_new [7, 8])"
    by (rule reach_start) (simp add: tx_start_def)
  from transactions_asked_once [OF this, of demo_env "\<lambda>_. 0" 0 demo_answer demo_sys]
  show ?thesis unfolding Let_def by blast
qed

type_synonym poll_input = "env \<times> (nat \<Rightarrow> instant) \<times> instant \<times> world \<times> sys"

fun ts_run ::
  "(json \<Rightarrow> string + 'x option) \<Rightarrow> poll_input list \<Rightarrow> 'x transaction_stream \<Rightarrow> 'x option poll list outcome" where
  "ts_run xd [] st = Ret []"
| "ts_run xd ((E, clk, t, w, s) # ins) st =
     obind (ts_poll E xd clk t w st s) (\<lambda>(r, st', _).
       obind (ts_run xd ins st') (\<lambda>rs. Ret (r # rs)))"

lemma ts_run_ends:
  assumes "tx_inv st" and "length ins = Suc (tx_left st)"
    and "list_all (\<lambda>(_, _, _, w, _). all_answered w) ins"
  shows "\<exists>rs. ts_run xd ins st = Ret (rs @ [Inr (Ready None)]) \<and> length rs = tx_left st \<and>
    Inr (Ready None) \<notin> set rs"
  using assms
proof (induction "tx_left st" arbitrary: st ins)
  case 0
  then obtain E clk t w s where "ins = [(E, clk, t, w, s)]"
    by (cases ins) auto
  with 0 ts_poll_ok [OF 0(2), of E xd clk t w s] show ?case by auto
next
  case (Suc n)
  then obtain E clk t w s ins' where ins: "ins = (E, clk, t, w, s) # ins'" and w: "all_answered w"
    by (cases ins) auto
  obtain r st' s' where p: "ts_poll E xd clk t w st s = Ret (r, st', s')" "tx_inv st'"
    "r \<noteq> Inr (Ready None)" "tx_left st' = n"
    using ts_poll_ok [OF Suc.prems(1), of E xd clk t w s] w Suc.hyps(2) [symmetric] by auto
  obtain rs where "ts_run xd ins' st' = Ret (rs @ [Inr (Ready None)])" "length rs = n"
    "Inr (Ready None) \<notin> set rs"
    using Suc.hyps(1) [of st' ins'] p Suc.prems ins Suc.hyps(2) by auto
  with p ins Suc.hyps(2) show ?case
    by (intro exI [of _ "r # rs"]) auto
qed

text \<open>
  C17: The stream ends. Poll the stream of \<open>n\<close> hashes \<open>n + 1\<close> times while every request in
  flight has been answered (with a transaction, an error or a dropped channel) when it is
  looked at. Then no poll panics, the first \<open>n\<close> polls do not end the stream and the last
  one does.
\<close>

theorem transaction_stream_ends:
  fixes xd :: "json \<Rightarrow> string + 'x option"
  assumes "length txns < 2 ^ 64" and "length ins = Suc (length txns)"
    and "list_all (\<lambda>(_, _, _, w, _). all_answered w) ins"
  shows "\<exists>rs. ts_run xd ins (transaction_stream_new txns) = Ret (rs @ [Inr (Ready None)]) \<and>
    length rs = length txns \<and> Inr (Ready None) \<notin> set rs"
proof -
  let ?st = "transaction_stream_new txns :: 'x transaction_stream"
  have "tx_inv ?st" and left: "tx_left ?st = length txns"
    using assms(1) by (simp_all add: tx_inv_def transaction_stream_new_def tx_left_def)
  with ts_run_ends [of ?st ins xd] assms(2,3) show ?thesis by simp
qed

theorem transaction_stream_ends_witness:
  "\<exists>rs. ts_run demo_block (replicate 3 (demo_env, \<lambda>_. 0, 0, demo_answer, demo_sys))
      (transaction_stream_new [7, 8]) = Ret (rs @ [Inr (Ready None)]) \<and>
    length rs = length [7 :: h256, 8] \<and> Inr (Ready None) \<notin> set rs"
  by (rule transaction_stream_ends) (simp_all add: list_all_iff all_answered_def demo_answer_def)

text \<open>
  C39: A slow transaction is lost in silence. When the last request in flight has no answer
  after five seconds, the poll drops it and says only that nothing is ready; the next poll
  ends the stream. The transaction is neither yielded nor asked for again, and no error is
  reported.
\<close>

theorem slow_transaction_lost:
  assumes "tx_list st = []" and "tx_queue st = [(born, FWaitingFn c d)]"
    and "w c = RxNotReady" and "5 * 10 ^ 9 \<le> t - born"
  shows "\<exists>st'. ts_poll E xd clk t w st s = Ret (Inr NotReady, st', s) \<and>
    ts_poll E' xd clk' t' w' st' s' = Ret (Inr (Ready None), st', s')"
  using assms by (simp add: ts_poll_def next_tx_def tx_pop_front_def young_def)

theorem slow_transaction_lost_witness:
  "let st = (transaction_stream_new [])\<lparr>tx_queue := [(0, FWaitingFn 3 (de demo_block))]\<rparr> in
   \<exists>st'. ts_poll demo_env demo_block (\<lambda>_. 0) 6000000000 (\<lambda>_. RxNotReady) st demo_sys =
       Ret (Inr NotReady, st', demo_sys) \<and>
     ts_poll demo_env demo_block (\<lambda>_. 0) 6000000001 (\<lambda>_. RxNotReady) st' demo_sys =
       Ret (Inr (Ready None), st', demo_sys)"
  unfolding Let_def
  by (rule slow_transaction_lost [where born = 0 and c = 3]) (simp_all add: transaction_stream_new_def)

end
