(* ===== verification/Pubsub_Stream.thy ===== *)
theory Pubsub_Stream
  imports Rpc_Ops
begin

text \<open>
  Subscriptions: \<open>PubsubOps\<close> (\<open>src/ops/pubsub.rs\<close>) starts one, and the stream \<open>Pubsub\<close>
  (\<open>src/client/streaming/pubsub.rs\<close>) first waits for the subscription id, registers its
  sender under that id with the client, and then yields the decoded notifications.

  Polling the receiver of an mpsc channel is a call into the futures crate; \<open>nw c\<close> is its
  answer for channel \<open>c\<close> at the moment of the poll.
\<close>

section \<open>The stream\<close>

type_synonym inbox = "chan \<Rightarrow> unit + json option async"

datatype sub_state = Subscribing "usize yum_future" | Subscribed

record 't pubsub =
  pb_id :: usize
  pb_state :: sub_state
  notifications :: chan
  pb_tx :: "chan option"
  pb_de :: "'t decoder"
  subscribed :: bool
  pb_done :: bool

definition pubsub_new :: "usize yum_future \<Rightarrow> chan \<Rightarrow> chan option \<Rightarrow> 't decoder \<Rightarrow> 't pubsub" where
  "pubsub_new id_future rx tx d =
     \<lparr>pb_id = 0, pb_state = Subscribing id_future, notifications = rx, pb_tx = tx, pb_de = d,
      subscribed = False, pb_done = False\<rparr>"

text \<open>The branch \<open>State::Subscribed\<close>.\<close>

definition poll_notification :: "inbox \<Rightarrow> 't pubsub \<Rightarrow> 't option poll" where
  "poll_notification nw st =
     (case nw (notifications st) of
        Inr (Ready (Some v)) \<Rightarrow>
          (case pb_de st v of Inr t \<Rightarrow> Inr (Ready (Some t)) | Inl _ \<Rightarrow> Inr NotReady)
      | _ \<Rightarrow> Inr NotReady)"

text \<open>
  \<open>mem::replace(&mut self.state, Subscribed)\<close> has already happened when the id future fails,
  so the state stays \<open>Subscribed\<close> behind the \<open>?\<close>.
\<close>

function pb_poll ::
  "world \<Rightarrow> inbox \<Rightarrow> 't pubsub \<Rightarrow> sys \<Rightarrow> ('t option poll \<times> 't pubsub \<times> sys) outcome" where
  "pb_poll w nw st s =
     (if pb_done st then Ret (Inr (Ready None), st, s)
      else
        (case pb_state st of
           Subscribing fut \<Rightarrow>
             (case yf_poll w fut of
                (Inl e, _) \<Rightarrow> Ret (Inl e, st\<lparr>pb_state := Subscribed\<rparr>, s)
              | (Inr (Ready i), _) \<Rightarrow>
                  (case pb_tx st of
                     None \<Rightarrow> Panic
                   | Some tx \<Rightarrow>
                       pb_poll w nw (st\<lparr>pb_id := i, pb_tx := None, pb_state := Subscribed\<rparr>)
                         (add_subscription i tx s))
              | (Inr NotReady, fut') \<Rightarrow> Ret (Inr NotReady, st\<lparr>pb_state := Subscribing fut'\<rparr>, s))
         | Subscribed \<Rightarrow> Ret (poll_notification nw st, st, s)))"
  by pat_completeness auto
termination
  by (relation "measure (\<lambda>(w, nw, st, s). case pb_state st of Subscribing _ \<Rightarrow> 1 | Subscribed \<Rightarrow> 0)") auto

declare pb_poll.simps [simp del]

section \<open>PubsubOps\<close>

definition subscribe :: "env \<Rightarrow> json list \<Rightarrow> 't decoder \<Rightarrow> sys \<Rightarrow> 't pubsub \<times> sys" where
  "subscribe E ps op s =
     (let (c, s1) = new_chan s;
          (id_fut, s2) = op_request E ''parity_subscribe'' ps (de_usize (kodec E)) s1
      in (pubsub_new id_fut c (Some c) op, s2))"

definition new_block_numbers :: "env \<Rightarrow> sys \<Rightarrow> u64 pubsub \<times> sys" where
  "new_block_numbers E = subscribe E [JString ''eth_blockNumber'', JArray []] (env_de_u64 E)"

definition new_blocks_with_tx :: "env \<Rightarrow> (json \<Rightarrow> string + 'b) \<Rightarrow> sys \<Rightarrow> 'b pubsub \<times> sys" where
  "new_blocks_with_tx E bd =
     subscribe E
       [JString ''eth_getBlockByNumber'', JArray [ser_block_number (mdl E) (Name ''latest''), JBool True]]
       (de bd)"

section \<open>Polls\<close>

lemma pb_poll_subscribed:
  "\<not> pb_done st \<Longrightarrow> pb_state st = Subscribed \<Longrightarrow> pb_poll w nw st s = Ret (poll_notification nw st, st, s)"
  by (simp add: pb_poll.simps)

lemma poll_notification_upd [simp]:
  "poll_notification nw (st\<lparr>pb_id := i, pb_tx := x, pb_state := y\<rparr>) = poll_notification nw st"
  by (simp add: poll_notification_def split: sum.split async.split option.split)

lemma pb_poll_got_id:
  assumes "\<not> pb_done st" and "pb_state st = Subscribing fut" and "yf_poll w fut = (Inr (Ready i), fut')"
    and "pb_tx st = Some tx"
  shows "pb_poll w nw st s =
    Ret (poll_notification nw st, st\<lparr>pb_id := i, pb_tx := None, pb_state := Subscribed\<rparr>, add_subscription i tx s)"
  using assms
  by (subst pb_poll.simps) (simp add: pb_poll_subscribed)

lemma poll_notification_not_end: "poll_notification nw st \<noteq> Inr (Ready None)"
  by (simp add: poll_notification_def split: sum.split async.split option.split)

text \<open>The stream is not done, and it still has its sender as long as it waits for its id.\<close>

definition pb_inv :: "'t pubsub \<Rightarrow> bool" where
  "pb_inv st \<longleftrightarrow> \<not> pb_done st \<and> (\<forall>fut. pb_state st = Subscribing fut \<longrightarrow> pb_tx st \<noteq> None)"

lemma pb_poll_ok:
  assumes "pb_inv st"
  shows "\<exists>r st' s'. pb_poll w nw st s = Ret (r, st', s') \<and> pb_inv st' \<and> r \<noteq> Inr (Ready None) \<and>
    (s' = s \<or> (\<exists>i tx. pb_tx st = Some tx \<and> s' = add_subscription i tx s))"
proof (cases "pb_state st")
  case Subscribed
  with assms show ?thesis by (simp add: pb_inv_def pb_poll_subscribed poll_notification_not_end)
next
  case (Subscribing fut)
  with assms obtain tx where tx: "pb_tx st = Some tx" by (auto simp: pb_inv_def)
  obtain p fut' where p: "yf_poll w fut = (p, fut')" by fastforce
  consider e where "p = Inl e" | "p = Inr NotReady" | i where "p = Inr (Ready i)"
    by (metis async.exhaust sum.exhaust)
  then show ?thesis
  proof cases
    case 3
    with assms Subscribing tx p show ?thesis
      by (auto simp: pb_poll_got_id pb_inv_def poll_notification_not_end)
  qed (use assms Subscribing tx p in \<open>auto simp: pb_poll.simps pb_inv_def\<close>)
qed

inductive pb_step :: "'t pubsub \<Rightarrow> 't pubsub \<Rightarrow> bool" where
  "pb_poll w nw st s = Ret (r, st', s') \<Longrightarrow> pb_step st st'"

definition pb_start :: "'t pubsub \<Rightarrow> bool" where
  "pb_start st \<longleftrightarrow> (\<exists>fut rx tx d. st = pubsub_new fut rx (Some tx) d)"

interpretation pstream: inductive_invariant pb_start pb_step pb_inv
proof
  fix st :: "'t pubsub"
  assume "pb_start st"
  then show "pb_inv st" by (auto simp: pb_start_def pubsub_new_def pb_inv_def)
next
  fix st st' :: "'t pubsub"
  assume inv: "pb_inv st" and "pb_step st st'"
  from this(2) show "pb_inv st'"
  proof cases
    case (1 w nw s r s')
    with pb_poll_ok [OF inv, of w nw s] show ?thesis by auto
  qed
qed


section \<open>A library that reads one notification\<close>

definition demo_note_env :: env where
  "demo_note_env = demo_env\<lparr>lib := codec.extend ref_codec
     (rpc_lib.fields (\<lambda>_. Inl ''e'') (\<lambda>_. Inl ''e'')
        (\<lambda>_. Inr \<lparr>raw_method = ''n'', raw_subscription = ''0x'' @ hex_digits (unat (9 :: usize)), raw_result = JBool True\<rparr>)
        (\<lambda>_. ''id'') (\<lambda>_. ''error'') (\<lambda>_. ''call'') (\<lambda>_. ''batch''))\<rparr>"

section \<open>Properties\<close>

text \<open>
  C18: A notification reaches the stream of its subscription. The stream waits for its id and
  the node's answer has arrived: the id, written as the node writes numbers. Polling the
  stream registers its sender under that id. From then on a text message that is no response
  but a notification carrying the same id is handed to that sender and to nothing else; and
  when the stream finds it in its inbox, a poll yields the decoded value.
\<close>

theorem notification_delivered:
  assumes "clean_0x_contract (clean_0x (kodec E))" and "string_contract (string_from_value (kodec E))"
    and "pb_inv st" and "pb_state st = Subscribing (FWaiting rx (de_usize (kodec E)))" and "pb_tx st = Some tx"
    and "w rx = RxReady (Inr (JString (''0x'' @ hex_digits (unat i))))"
    and "response_from_str (lib E) txt = Inl e"
    and "raw_notification_from_str (lib E) txt =
      Inr \<lparr>raw_method = m, raw_subscription = ''0x'' @ hex_digits (unat i), raw_result = v\<rparr>"
    and "pb_de st v = Inr x" and "nw (notifications st) = Inr (Ready (Some v))"
  shows "\<exists>r st' s'. pb_poll w nw0 st s = Ret (r, st', s') \<and> subscriptions s' i = Some tx \<and>
    read_message (lib E) (MsgText txt) s' = Ret (log (Notify tx v) s') \<and>
    pb_poll w nw st' s'' = Ret (Inr (Ready (Some x)), st', s'')"
proof -
  have hex: "from_str_radix16 (hex_digits (unat i)) = Inr i"
    using hex_digits_props [of "unat i"] by (simp add: from_str_radix16_Inr)
  let ?st' = "st\<lparr>pb_id := i, pb_tx := None, pb_state := Subscribed\<rparr>" and ?s' = "add_subscription i tx s"
  have "yf_poll w (FWaiting rx (de_usize (kodec E))) = (Inr (Ready i), FComplete)"
    using assms(1,2,6) hex by (simp add: de_usize_def de_def string_contract_def)
  then have first: "pb_poll w nw0 st s = Ret (poll_notification nw0 st, ?st', ?s')"
    using assms(3-5) by (simp add: pb_poll_got_id pb_inv_def)
  have "notification_from_str (lib E) txt =
      Inr \<lparr>notification_method = m, params = \<lparr>subscription = i, update_result = v\<rparr>\<rparr>"
    using assms(1,8) hex by (simp add: notification_from_str_def usize_from_str_def kodec_def)
  then have "handle_text_message (lib E) txt = Inr [Subscription i v]"
    using assms(7) by (simp add: handle_text_message_def)
  moreover have sub: "subscriptions ?s' i = Some tx" by (simp add: add_subscription_def)
  ultimately have "read_message (lib E) (MsgText txt) ?s' = Ret (log (Notify tx v) ?s')"
    by (simp add: read_message_def notify_def)
  moreover have "pb_poll w nw ?st' s'' = Ret (Inr (Ready (Some x)), ?st', s'')"
    using assms(3,9,10) by (simp add: pb_poll_subscribed pb_inv_def) (simp add: poll_notification_def)
  ultimately show ?thesis using first sub by blast
qed

theorem notification_delivered_witness:
  "\<exists>r st' s'. pb_poll (\<lambda>_. RxReady (Inr (JString (''0x'' @ hex_digits (unat (9 :: usize)))))) (\<lambda>_. Inr NotReady)
      (pubsub_new (FWaiting 3 (de_usize (kodec demo_note_env))) 7 (Some 7) Inr) demo_sys = Ret (r, st', s') \<and>
    subscriptions s' 9 = Some 7 \<and>
    read_message (lib demo_note_env) (MsgText ''note'') s' = Ret (log (Notify 7 (JBool True)) s') \<and>
    pb_poll (\<lambda>_. RxReady (Inr (JString (''0x'' @ hex_digits (unat (9 :: usize)))))) (\<lambda>_. Inr (Ready (Some (JBool True)))) st' demo_sys =
      Ret (Inr (Ready (Some (JBool True))), st', demo_sys)"
proof -
  have "kodec demo_note_env = ref_codec"
    by (simp add: kodec_def demo_note_env_def demo_env_def codec.defs)
  then show ?thesis
    using ref_codec_contracts
    by (intro notification_delivered [where rx = 3 and m = "''n''" and e = "''e''"])
      (simp_all add: demo_note_env_def rpc_lib.defs codec.defs pubsub_new_def pb_inv_def)
qed

text \<open>
  The stream never panics and never ends. However often it is polled and whatever its
  channels do, even when every sender of its inbox is gone, no poll panics and none answers
  the end of the stream: the flag that would end it is never set.
\<close>

lemma pubsub_never_ends:
  assumes "reach pb_start pb_step st"
  shows "\<exists>r st' s'. pb_poll w nw st s = Ret (r, st', s') \<and> r \<noteq> Inr (Ready None)"
  using pb_poll_ok [OF pstream.inv_reach [OF assms], of w nw s] by blast

text \<open>
  A failed subscription is reported once and then silent. When the request for the id
  fails, that poll returns the error and the stream counts as subscribed although its sender
  was never registered: no later poll registers it, and as long as its inbox is empty every
  later poll says that nothing is ready.
\<close>

lemma failed_subscription_silent:
  assumes "\<not> pb_done st" and "pb_state st = Subscribing fut" and "yf_poll w fut = (Inl e, fut')"
    and "nw' (notifications st) = Inr NotReady"
  shows "\<exists>st'. pb_poll w nw st s = Ret (Inl e, st', s) \<and> pb_tx st' = pb_tx st \<and>
    pb_poll w' nw' st' s' = Ret (Inr NotReady, st', s')"
  using assms by (auto simp: pb_poll.simps poll_notification_def)

end
