(* ===== verification/Socket_Worker.thy ===== *)
theory Socket_Worker
  imports Yum_Client
begin

text \<open>
  \<open>SocketWorker\<close> and the parts of \<open>Client\<close> that manage the workers (\<open>src/client/mod.rs\<close>): the
  write half of a socket thread, opening a connection, the status check, reconnecting,
  stopping, the construction of a client, and one pass of the sentinel thread.

  The wait loops read a clock. \<open>C host tx\<close> describes the connection that is opened to \<open>host\<close>
  with request channel \<open>tx\<close>: the elapsed time at each test of a wait loop, and whether the
  socket thread has reported that it is connected. A loop is a \<open>partial_function\<close>: \<open>None\<close> means
  that it runs forever, and that it returns is a theorem.
\<close>

section \<open>The write half of the socket thread\<close>

text \<open>
  What the write half does with a message it takes: \<open>write_item\<close> is what it sets out to do, so a
  frame appears there as \<open>WsSend\<close>. \<open>WsRefused m e\<close> is a call \<open>sink.start_send(m)\<close> that failed
  with \<open>e\<close>; the socket thread records it instead (\<open>write_poll\<close>).
\<close>

datatype write_effect = WsSend ws_message | WsRefused ws_message error | SendPong chan | SendStatus chan bool

fun write_item :: "socket_request \<Rightarrow> write_effect list" where
  "write_item (Text t) = [WsSend (MsgText t)]"
| "write_item (Binary b) = [WsSend (MsgBinary b)]"
| "write_item (Ping ping_tx) = [SendPong ping_tx]"
| "write_item Pong = []"
| "write_item (ConnectedStatus status_tx) = [SendStatus status_tx True]"
| "write_item Stop = []"

text \<open>\<open>take_while\<close> ends the stream at the first \<open>Stop\<close>.\<close>

definition write_stream :: "socket_request list \<Rightarrow> write_effect list" where
  "write_stream reqs = concat (map write_item (takeWhile (\<lambda>r. r \<noteq> Stop) reqs))"

text \<open>The requests queued on a channel, in order.\<close>

fun queued :: "chan \<Rightarrow> event list \<Rightarrow> socket_request list" where
  "queued c [] = []"
| "queued c (Queue c' r # es) = (if c' = c then r # queued c es else queued c es)"
| "queued c (_ # es) = queued c es"

section \<open>Opening a connection\<close>

text \<open>\<open>str::replace\<close>: the occurrences of a non-empty pattern, left to right, not overlapping.\<close>

function replace_str :: "string \<Rightarrow> string \<Rightarrow> string \<Rightarrow> string" where
  "replace_str pat by_text [] = []"
| "replace_str pat by_text (c # cs) =
     (if pat \<noteq> [] \<and> take (length pat) (c # cs) = pat
      then by_text @ replace_str pat by_text (drop (length pat) (c # cs))
      else c # replace_str pat by_text cs)"
  by pat_completeness auto
termination
  by (relation "measure (\<lambda>(p, b, s). length s)") (auto simp: neq_Nil_conv)

definition host_address :: "string \<Rightarrow> string" where
  "host_address host = replace_str ''/'' [] (replace_str ''ws://'' [] host)"

record link =
  up_clock :: "nat \<Rightarrow> nat"
  up :: "nat \<Rightarrow> bool"
  re_clock :: "nat \<Rightarrow> nat"

type_synonym links = "string \<Rightarrow> chan \<Rightarrow> link"

text \<open>\<open>while t0.elapsed() <= timeout { if let Ok(true) = conn_rx.try_recv() { return Ok } }\<close>.\<close>

partial_function (option) wait_up :: "link \<Rightarrow> nat \<Rightarrow> nat \<Rightarrow> bool option" where
  "wait_up l timeout k =
     (if up_clock l k \<le> timeout
      then (if up l k then Some True else wait_up l timeout (Suc k))
      else Some False)"

definition connect :: "links \<Rightarrow> string \<Rightarrow> nat \<Rightarrow> sys \<Rightarrow> ((chan \<times> nat) rslt \<times> sys) option" where
  "connect C host timeout s =
     (let (tx, s1) = new_chan s;
          th = next_thread s1;
          s2 = s1\<lparr>next_thread := Suc th\<rparr>
      in case wait_up (C (host_address host) tx) timeout 0 of
           None \<Rightarrow> None
         | Some True \<Rightarrow> Some (Inr (tx, th), s2)
         | Some False \<Rightarrow> Some (Inl ConnectError, s2))"

definition worker_new :: "links \<Rightarrow> usize \<Rightarrow> string \<Rightarrow> nat \<Rightarrow> sys \<Rightarrow> (worker rslt \<times> sys) option" where
  "worker_new C i host timeout s =
     (case connect C host timeout s of
        None \<Rightarrow> None
      | Some (Inl e, s1) \<Rightarrow> Some (Inl e, s1)
      | Some (Inr (ws_tx, th), s1) \<Rightarrow>
          Some (Inr \<lparr>wk_id = i, wk_host = host, wk_tx = ws_tx, wk_thread = Some th\<rparr>, s1))"

section \<open>Status, reconnection, stop\<close>

definition worker_is_connected :: "net \<Rightarrow> worker \<Rightarrow> sys \<Rightarrow> (bool \<times> sys) outcome" where
  "worker_is_connected N w s =
     (if wk_thread w = None then Ret (False, s)
      else
        (let (tx, s1) = new_chan s in
         case send_request N w (ConnectedStatus tx) s1 of
           Inl _ \<Rightarrow> Ret (False, s1)
         | Inr s2 \<Rightarrow> obind (expect (status_reply N tx)) (\<lambda>b. Ret (b, s2))))"

partial_function (option) wait_reconnected ::
  "net \<Rightarrow> link \<Rightarrow> nat \<Rightarrow> worker \<Rightarrow> nat \<Rightarrow> sys \<Rightarrow> (unit rslt \<times> sys) outcome option" where
  "wait_reconnected N l timeout w k s =
     (if re_clock l k \<le> timeout
      then
        (case worker_is_connected N w s of
           Panic \<Rightarrow> Some Panic
         | Ret (b, s1) \<Rightarrow>
             (if b then Some (Ret (Inr (), s1)) else wait_reconnected N l timeout w (Suc k) s1))
      else Some (Ret (Inl ConnectError, s)))"

definition reconnect ::
  "net \<Rightarrow> links \<Rightarrow> nat \<Rightarrow> worker \<Rightarrow> sys \<Rightarrow> (unit rslt \<times> worker \<times> sys) outcome option" where
  "reconnect N C timeout w s =
     (case worker_is_connected N w s of
        Panic \<Rightarrow> Some Panic
      | Ret (True, s1) \<Rightarrow> Some (Ret (Inr (), w, s1))
      | Ret (False, s1) \<Rightarrow>
          (let w1 = w\<lparr>wk_thread := None\<rparr> in
           case connect C (wk_host w1) timeout s1 of
             None \<Rightarrow> None
           | Some (Inl e, s2) \<Rightarrow> Some (Ret (Inl e, w1, s2))
           | Some (Inr (new_tx, new_thread), s2) \<Rightarrow>
               (let w2 = w1\<lparr>wk_tx := new_tx, wk_thread := Some new_thread\<rparr> in
                case wait_reconnected N (C (host_address (wk_host w1)) new_tx) timeout w2 0 s2 of
                  None \<Rightarrow> None
                | Some Panic \<Rightarrow> Some Panic
                | Some (Ret (r, s3)) \<Rightarrow> Some (Ret (r, w2, s3)))))"

text \<open>\<open>worker.stop()\<close>; the joined thread is taken to end normally.\<close>

definition worker_stop :: "net \<Rightarrow> worker \<Rightarrow> sys \<Rightarrow> (unit rslt \<times> worker \<times> sys) outcome" where
  "worker_stop N w s =
     (case send_request N w Stop s of
        Inl req \<Rightarrow> Ret (Inl (Mpsc req), w, s)
      | Inr s1 \<Rightarrow>
          obind (expect (wk_thread w)) (\<lambda>_. Ret (Inr (), w\<lparr>wk_thread := None\<rparr>, s1)))"

section \<open>The workers of a client\<close>

text \<open>\<open>sockets.lock().iter().any(|worker| worker.is_connected())\<close>: stops at the first one.\<close>

fun any_connected :: "net \<Rightarrow> worker list \<Rightarrow> sys \<Rightarrow> (bool \<times> sys) outcome" where
  "any_connected N [] s = Ret (False, s)"
| "any_connected N (w # ws) s =
     obind (worker_is_connected N w s) (\<lambda>(b, s1). if b then Ret (True, s1) else any_connected N ws s1)"

definition client_is_connected :: "net \<Rightarrow> sys \<Rightarrow> (bool \<times> sys) outcome" where
  "client_is_connected N s = any_connected N (sockets s) s"

fun stop_workers :: "net \<Rightarrow> worker list \<Rightarrow> sys \<Rightarrow> (unit rslt \<times> worker list \<times> sys) outcome" where
  "stop_workers N [] s = Ret (Inr (), [], s)"
| "stop_workers N (w # ws) s =
     obind (worker_stop N w s) (\<lambda>(r, w1, s1).
       (case r of
          Inl e \<Rightarrow> Ret (Inl e, w1 # ws, s1)
        | Inr _ \<Rightarrow> obind (stop_workers N ws s1) (\<lambda>(r2, ws1, s2). Ret (r2, w1 # ws1, s2))))"

definition client_stop :: "net \<Rightarrow> sys \<Rightarrow> (unit rslt \<times> sys) outcome" where
  "client_stop N s =
     obind (stop_workers N (sockets s) s) (\<lambda>(r, ws, s1). Ret (r, s1\<lparr>sockets := ws\<rparr>))"

definition new_socket_worker :: "links \<Rightarrow> string \<Rightarrow> sys \<Rightarrow> (worker rslt \<times> sys) option" where
  "new_socket_worker C host s =
     worker_new C (worker_id s) host (cl_timeout s) (s\<lparr>worker_id := worker_id s + 1\<rparr>)"

text \<open>
  The argument of \<open>info!\<close> is evaluated only when that log level is enabled (\<open>info\<close>).
\<close>

definition start_connection ::
  "bool \<Rightarrow> net \<Rightarrow> links \<Rightarrow> string \<Rightarrow> sys \<Rightarrow> (unit rslt \<times> sys) outcome option" where
  "start_connection info N C host s =
     (case new_socket_worker C host s of
        None \<Rightarrow> None
      | Some (Inl e, s1) \<Rightarrow> Some (Ret (Inl e, s1))
      | Some (Inr w, s1) \<Rightarrow>
          Some (obind (if info then worker_is_connected N w s1 else Ret (False, s1)) (\<lambda>(_, s2).
            Ret (Inr (), s2\<lparr>sockets := sockets s2 @ [w]\<rparr>))))"

fun start_all ::
  "bool \<Rightarrow> net \<Rightarrow> links \<Rightarrow> string list \<Rightarrow> sys \<Rightarrow> (unit rslt \<times> sys) outcome option" where
  "start_all info N C [] s = Some (Ret (Inr (), s))"
| "start_all info N C (host # hs) s =
     (case start_connection info N C host s of
        None \<Rightarrow> None
      | Some Panic \<Rightarrow> Some Panic
      | Some (Ret (Inl e, s1)) \<Rightarrow> Some (Ret (Inl e, s1))
      | Some (Ret (Inr _, s1)) \<Rightarrow> start_all info N C hs s1)"

text \<open>\<open>with_timeout\<close> and \<open>with_sentinel\<close> start a thread and keep its handle.\<close>

definition with_timeout :: "sys \<Rightarrow> sys" where
  "with_timeout s = s\<lparr>ts_thread := Some (next_thread s), next_thread := Suc (next_thread s)\<rparr>"

definition with_sentinel :: "sys \<Rightarrow> sys" where
  "with_sentinel s = s\<lparr>sentinel_thread := Some (next_thread s), next_thread := Suc (next_thread s)\<rparr>"

definition client_empty :: "string list \<Rightarrow> nat \<Rightarrow> sys" where
  "client_empty hs timeout =
     \<lparr>hosts = hs, cl_timeout = timeout, worker_id = 0, sockets = [], ids = 1, pending = Map.empty,
      subscriptions = Map.empty, ts = [], ts_thread = None, sentinel_thread = None,
      reconnection_attempts = 0, next_chan = 0, next_thread = 0, trace = []\<rparr>"

definition client_new ::
  "bool \<Rightarrow> net \<Rightarrow> links \<Rightarrow> string list \<Rightarrow> nat \<Rightarrow> nat \<Rightarrow> sys rslt outcome option" where
  "client_new info N C hs num_connections timeout =
     (case start_all info N C (concat (map (replicate num_connections) hs)) (client_empty hs timeout) of
        None \<Rightarrow> None
      | Some Panic \<Rightarrow> Some Panic
      | Some (Ret (Inl e, _)) \<Rightarrow> Some (Ret (Inl e))
      | Some (Ret (Inr _, s)) \<Rightarrow> Some (Ret (Inr (with_sentinel (with_timeout s)))))"

section \<open>One pass of the sentinel\<close>

text \<open>The result of \<open>reconnect\<close> is only logged.\<close>

definition sentinel_worker ::
  "net \<Rightarrow> links \<Rightarrow> nat \<Rightarrow> worker \<Rightarrow> sys \<Rightarrow> (worker \<times> sys) outcome option" where
  "sentinel_worker N C timeout w s =
     (let (tx, s1) = new_chan s;
          reconnected = (\<lambda>s2. map_option (\<lambda>m. obind m (\<lambda>(_, w', s3). Ret (w', s3))) (reconnect N C timeout w s2))
      in case send_request N w (Ping tx) s1 of
           Inr s2 \<Rightarrow> if ping_reply N tx = Some Pong then Some (Ret (w, s2)) else reconnected s2
         | Inl _ \<Rightarrow> reconnected s1)"

fun sentinel_workers ::
  "net \<Rightarrow> links \<Rightarrow> nat \<Rightarrow> worker list \<Rightarrow> sys \<Rightarrow> (worker list \<times> sys) outcome option" where
  "sentinel_workers N C timeout [] s = Some (Ret ([], s))"
| "sentinel_workers N C timeout (w # ws) s =
     (case sentinel_worker N C timeout w s of
        None \<Rightarrow> None
      | Some Panic \<Rightarrow> Some Panic
      | Some (Ret (w1, s1)) \<Rightarrow>
          map_option (\<lambda>m. obind m (\<lambda>(ws1, s2). Ret (w1 # ws1, s2))) (sentinel_workers N C timeout ws s1))"

definition sentinel_pass :: "net \<Rightarrow> links \<Rightarrow> sys \<Rightarrow> sys outcome option" where
  "sentinel_pass N C s =
     map_option (\<lambda>m. obind m (\<lambda>(ws, s1). Ret (s1\<lparr>sockets := ws\<rparr>)))
       (sentinel_workers N C (cl_timeout s) (sockets s) s)"


section \<open>The wait loops\<close>

text \<open>The clock of every connection passes the timeout at some test of each wait loop.\<close>

definition clocks_advance :: "links \<Rightarrow> nat \<Rightarrow> bool" where
  "clocks_advance C timeout \<longleftrightarrow>
     (\<forall>h c. (\<exists>n. timeout < up_clock (C h c) n) \<and> (\<exists>n. timeout < re_clock (C h c) n))"

lemma wait_up_stops:
  assumes "k \<le> n" and "\<forall>j. k \<le> j \<and> j < n \<longrightarrow> up_clock l j \<le> timeout \<and> \<not> up l j"
    and "timeout < up_clock l n \<or> up l n"
  shows "wait_up l timeout k = Some (up_clock l n \<le> timeout)"
  using assms
proof (induction "n - k" arbitrary: k)
  case 0
  then show ?case by (subst wait_up.simps) auto
next
  case (Suc m)
  then have "up_clock l k \<le> timeout \<and> \<not> up l k" by auto
  moreover have "wait_up l timeout (Suc k) = Some (up_clock l n \<le> timeout)"
    using Suc by (intro Suc.hyps(1)) auto
  ultimately show ?case by (subst wait_up.simps) simp
qed

lemma wait_up_result:
  assumes "timeout < up_clock l n"
  shows "wait_up l timeout 0 = Some (\<exists>k. up l k \<and> (\<forall>j \<le> k. up_clock l j \<le> timeout))"
proof -
  define stop where "stop j \<longleftrightarrow> timeout < up_clock l j \<or> up l j" for j
  define m where "m = (LEAST j. stop j)"
  have "stop n" using assms by (simp add: stop_def)
  then have m: "stop m" unfolding m_def by (rule LeastI)
  have least: "\<not> stop j" if "j < m" for j
    using not_less_Least that unfolding m_def by blast
  have "wait_up l timeout 0 = Some (up_clock l m \<le> timeout)"
    using m least by (intro wait_up_stops) (auto simp: stop_def not_less)
  moreover have "up_clock l m \<le> timeout \<longleftrightarrow> (\<exists>k. up l k \<and> (\<forall>j \<le> k. up_clock l j \<le> timeout))"
  proof
    assume "up_clock l m \<le> timeout"
    moreover from this m have "up l m" by (simp add: stop_def)
    moreover have "up_clock l j \<le> timeout" if "j < m" for j
      using least [OF that] by (simp add: stop_def not_less)
    ultimately show "\<exists>k. up l k \<and> (\<forall>j \<le> k. up_clock l j \<le> timeout)"
      by (intro exI [of _ m]) (metis le_neq_implies_less)
  next
    assume "\<exists>k. up l k \<and> (\<forall>j \<le> k. up_clock l j \<le> timeout)"
    then obtain k where k: "up l k" "\<forall>j \<le> k. up_clock l j \<le> timeout" by blast
    then have "m \<le> k" unfolding m_def by (intro Least_le) (simp add: stop_def)
    with k show "up_clock l m \<le> timeout" by blast
  qed
  ultimately show ?thesis by simp
qed

text \<open>
  The thread of the connection \<open>l\<close> has reported that it is connected while the timeout had not
  passed. Whatever the clock does, a wait that ends with success has seen such a report.
\<close>

definition reported :: "link \<Rightarrow> nat \<Rightarrow> bool" where
  "reported l timeout \<longleftrightarrow> (\<exists>k. up l k \<and> (\<forall>j \<le> k. up_clock l j \<le> timeout))"

lemma wait_up_reported:
  assumes "wait_up l timeout k = Some r"
  shows "r \<longrightarrow> (\<forall>j < k. up_clock l j \<le> timeout) \<longrightarrow> reported l timeout"
proof (rule wait_up.raw_induct [of "\<lambda>l timeout k r. r \<longrightarrow> (\<forall>j < k. up_clock l j \<le> timeout) \<longrightarrow> reported l timeout",
      OF _ assms])
  fix wait l timeout k r
  assume "\<And>l timeout k r. wait l timeout k = Some r \<Longrightarrow>
      r \<longrightarrow> (\<forall>j < k. up_clock l j \<le> timeout) \<longrightarrow> reported l timeout"
    and "(if up_clock l k \<le> timeout then if up l k then Some True else wait l timeout (Suc k) else Some False) = Some r"
  then show "r \<longrightarrow> (\<forall>j < k. up_clock l j \<le> timeout) \<longrightarrow> reported l timeout"
    by (auto simp: reported_def less_Suc_eq le_less split: if_splits)
qed

lemma connect_reported:
  assumes "connect C host timeout s = Some (Inr (ws_tx, th), t)"
  shows "reported (C (host_address host) ws_tx) timeout"
proof -
  have "ws_tx = next_chan s" and "wait_up (C (host_address host) (next_chan s)) timeout 0 = Some True"
    using assms by (auto simp: connect_def new_chan_def Let_def split: option.splits bool.splits)
  with wait_up_reported [of "C (host_address host) ws_tx" timeout 0 True] show ?thesis by simp
qed

lemma connect_eq:
  "connect C host timeout s =
    map_option (\<lambda>b. (if b then Inr (next_chan s, next_thread s) else Inl ConnectError,
        s\<lparr>next_chan := Suc (next_chan s), next_thread := Suc (next_thread s)\<rparr>))
      (wait_up (C (host_address host) (next_chan s)) timeout 0)"
  by (simp add: connect_def new_chan_def Let_def split: option.split bool.split)

lemma connect_result:
  assumes "clocks_advance C timeout"
  shows "connect C host timeout s =
    Some (if \<exists>k. up (C (host_address host) (next_chan s)) k \<and>
               (\<forall>j \<le> k. up_clock (C (host_address host) (next_chan s)) j \<le> timeout)
          then Inr (next_chan s, next_thread s) else Inl ConnectError,
          s\<lparr>next_chan := Suc (next_chan s), next_thread := Suc (next_thread s)\<rparr>)"
proof -
  let ?l = "C (host_address host) (next_chan s)"
  let ?up = "\<exists>k. up ?l k \<and> (\<forall>j \<le> k. up_clock ?l j \<le> timeout)"
  obtain n where "timeout < up_clock ?l n"
    using assms by (auto simp: clocks_advance_def)
  then have "wait_up ?l timeout 0 = Some ?up" by (rule wait_up_result)
  then show ?thesis by (simp only: connect_eq option.map)
qed

lemma connect_Some: "connect C host timeout s = Some (r, t) \<Longrightarrow>
    t = s\<lparr>next_chan := Suc (next_chan s), next_thread := Suc (next_thread s)\<rparr> \<and>
    (r = Inr (next_chan s, next_thread s) \<or> r = Inl ConnectError)"
  by (auto simp: connect_def new_chan_def Let_def split: option.splits bool.splits)

lemma wait_reconnected_returns:
  assumes "timeout < re_clock l n" and "k \<le> n"
  shows "wait_reconnected N l timeout w k s \<noteq> None"
  using assms(2)
proof (induction "n - k" arbitrary: k s)
  case 0
  with assms(1) show ?case by (subst wait_reconnected.simps) auto
next
  case (Suc m)
  then have "wait_reconnected N l timeout w (Suc k) s1 \<noteq> None" for s1 by (intro Suc.hyps(1)) auto
  then show ?case
    by (subst wait_reconnected.simps) (auto split: outcome.split prod.split)
qed

lemma reconnect_returns:
  assumes "clocks_advance C timeout"
  shows "reconnect N C timeout w s \<noteq> None"
proof -
  have wait: "(wait_reconnected N (C h c) timeout w' 0 s' = None) = False" for h c w' s'
  proof -
    obtain n where "timeout < re_clock (C h c) n" using assms by (auto simp: clocks_advance_def)
    then show ?thesis using wait_reconnected_returns [of timeout "C h c" n 0] by blast
  qed
  have conn: "(connect C h timeout s' = None) = False" for h s'
    using connect_result [OF assms] by simp
  show ?thesis
    by (auto simp: reconnect_def Let_def wait conn split: outcome.split prod.split bool.split option.split sum.split)
qed

lemma start_all_returns:
  assumes "clocks_advance C (cl_timeout s)"
  shows "start_all info N C hs s \<noteq> None"
  using assms
proof (induction hs arbitrary: s)
  case Nil
  then show ?case by simp
next
  case (Cons h hs)
  have some: "start_connection info N C h s \<noteq> None"
    using connect_result [of C "cl_timeout s" h "s\<lparr>worker_id := worker_id s + 1\<rparr>"] Cons.prems
    by (auto simp: start_connection_def new_socket_worker_def worker_new_def)
  have keep: "cl_timeout s1 = cl_timeout s" if "start_connection info N C h s = Some (Ret (r, s1))" for r s1
    using that connect_result [of C "cl_timeout s" h "s\<lparr>worker_id := worker_id s + 1\<rparr>"] Cons.prems
    by (auto simp: start_connection_def new_socket_worker_def worker_new_def worker_is_connected_def
        send_request_def new_chan_def log_def expect_def Let_def obind_def
        split: if_splits option.splits sum.splits)
  then show ?case
    using some Cons.IH Cons.prems by (fastforce split: option.split outcome.split sum.split prod.split)
qed

lemma sentinel_returns:
  assumes "clocks_advance C timeout"
  shows "sentinel_workers N C timeout ws s \<noteq> None"
proof (induction ws arbitrary: s)
  case Nil
  then show ?case by simp
next
  case (Cons w ws)
  have "sentinel_worker N C timeout w s \<noteq> None"
    using reconnect_returns [OF assms, of N w]
    by (auto simp: sentinel_worker_def new_chan_def Let_def split: sum.split)
  with Cons show ?case by (auto split: option.split outcome.split prod.split)
qed


section \<open>What managing the workers leaves alone\<close>

text \<open>
  A run of the atomic steps that leaves alone what only requests and responses change.
\<close>

definition same_requests :: "sys \<Rightarrow> sys \<Rightarrow> bool" where
  "same_requests s t \<longleftrightarrow>
     client_steps s t \<and> pending t = pending s \<and> subscriptions t = subscriptions s \<and> ids t = ids s \<and> ts t = ts s \<and>
     used t = used s \<and> next_chan s \<le> next_chan t \<and> cl_timeout t = cl_timeout s \<and>
     sockets t = sockets s \<and> worker_id t = worker_id s"

lemma same_requests_refl [simp]: "same_requests s s"
  by (simp add: same_requests_def)

lemma same_requests_trans: "same_requests s t \<Longrightarrow> same_requests t u \<Longrightarrow> same_requests s u"
  by (auto simp: same_requests_def)

lemma same_requests_new_chan [simp]: "same_requests s (snd (new_chan s))"
  using step_chan [of s] by (auto simp: same_requests_def new_chan_def used_def)

lemma same_requests_log [simp]: "same_requests s (log (Queue c r) s)"
  using step_queue [of s c r] by (auto simp: same_requests_def log_def used_def)

lemma steps_chan_thread:
  "client_steps s (s\<lparr>next_chan := Suc (next_chan s), next_thread := n\<rparr>)"
  using step_chan [of s] step_thread [of "s\<lparr>next_chan := Suc (next_chan s)\<rparr>" n]
  by (simp add: rtranclp.rtrancl_into_rtrancl)

lemma same_requests_connect: "connect C h timeout s = Some (r, t) \<Longrightarrow> same_requests s t"
  using connect_Some [of C h timeout s r t] steps_chan_thread [of s "Suc (next_thread s)"]
  by (auto simp: same_requests_def used_def)

lemma send_request_same: "send_request N w r s = Inr t \<Longrightarrow> same_requests s t"
  by (auto simp: send_request_def split: if_splits)

lemma worker_is_connected_same:
  assumes "worker_is_connected N w s = Ret (b, t)"
  shows "same_requests s t"
proof (cases "wk_thread w")
  case None
  with assms show ?thesis by (simp add: worker_is_connected_def)
next
  case (Some th)
  let ?s1 = "snd (new_chan s)"
  have "t = ?s1 \<or> same_requests ?s1 t"
    using assms Some
    by (auto simp: worker_is_connected_def new_chan_def Let_def obind_eq_Ret
        split: sum.splits dest: send_request_same)
  then show ?thesis using same_requests_new_chan same_requests_trans by metis
qed

lemma wait_reconnected_same:
  assumes "wait_reconnected N l timeout w k s = Some m" and "m = Ret (r, t)"
  shows "same_requests s t"
  using assms(2)
proof (induction arbitrary: r t rule: wait_reconnected.raw_induct [OF _ assms(1), consumes 0])
  case (1 f N l timeout w k s m)
  show ?case
  proof (cases "worker_is_connected N w s")
    case Panic
    with 1 show ?thesis by (auto split: if_splits)
  next
    case (Ret x)
    then obtain b s1 where x: "worker_is_connected N w s = Ret (b, s1)" by (cases x) auto
    with 1 worker_is_connected_same [OF x] show ?thesis
      by (auto split: if_splits intro: same_requests_trans)
  qed
qed


lemma reconnect_same:
  assumes "reconnect N C timeout w s = Some (Ret (r, w', t))"
  shows "same_requests s t \<and> wk_id w' = wk_id w \<and> wk_host w' = wk_host w"
proof -
  obtain b s1 where c: "worker_is_connected N w s = Ret (b, s1)"
    using assms by (cases "worker_is_connected N w s") (auto simp: reconnect_def)
  note same1 = worker_is_connected_same [OF c]
  show ?thesis
  proof (cases b)
    case True
    with assms c same1 show ?thesis by (auto simp: reconnect_def)
  next
    case False
    obtain cr s2 where conn: "connect C (wk_host w) timeout s1 = Some (cr, s2)"
      using assms c False by (cases "connect C (wk_host w) timeout s1") (auto simp: reconnect_def)
    have same2: "same_requests s s2"
      using same1 same_requests_connect [OF conn] by (rule same_requests_trans)
    show ?thesis
    proof (cases cr)
      case (Inl e)
      with assms c False conn same2 show ?thesis by (auto simp: reconnect_def Let_def)
    next
      case (Inr x)
      with assms c False conn same2 show ?thesis
        by (auto simp: reconnect_def Let_def split: option.splits outcome.splits prod.splits
            dest: wait_reconnected_same intro: same_requests_trans)
    qed
  qed
qed

lemma sentinel_worker_same:
  assumes "sentinel_worker N C timeout w s = Some (Ret (w', t))"
  shows "same_requests s t \<and> wk_id w' = wk_id w \<and> wk_host w' = wk_host w \<and>
    (ws_open N (wk_tx w) \<and> ping_reply N (next_chan s) = Some Pong \<longrightarrow> w' = w)"
proof -
  let ?s1 = "snd (new_chan s)" and ?r = "send_request N w (Ping (next_chan s)) (snd (new_chan s))"
  have same1: "same_requests s ?s1" by simp
  show ?thesis
  proof (cases ?r)
    case (Inl e)
    then have "\<not> ws_open N (wk_tx w)" by (auto simp: send_request_def split: if_splits)
    with assms Inl same1 show ?thesis
      by (auto simp: sentinel_worker_def new_chan_def Let_def obind_eq_Ret
          dest!: reconnect_same intro: same_requests_trans)
  next
    case (Inr s2)
    have "same_requests s s2" using same1 send_request_same [OF Inr] by (rule same_requests_trans)
    with assms Inr show ?thesis
      by (auto simp: sentinel_worker_def new_chan_def Let_def obind_eq_Ret
          split: if_splits dest!: reconnect_same intro: same_requests_trans)
  qed
qed

lemma sentinel_workers_same:
  "sentinel_workers N C timeout ws s = Some (Ret (ws', t)) \<Longrightarrow>
     same_requests s t \<and> map wk_id ws' = map wk_id ws \<and> map wk_host ws' = map wk_host ws"
proof (induction ws arbitrary: s ws' t)
  case Nil
  then show ?case by simp
next
  case (Cons w ws)
  then obtain w1 s1 where one: "sentinel_worker N C timeout w s = Some (Ret (w1, s1))"
    by (auto split: option.splits outcome.splits)
  with Cons.prems obtain ws1 where rest: "sentinel_workers N C timeout ws s1 = Some (Ret (ws1, t))"
    and ws': "ws' = w1 # ws1"
    by (auto simp: obind_eq_Ret)
  from sentinel_worker_same [OF one] Cons.IH [OF rest] ws' show ?case
    by (auto intro: same_requests_trans)
qed

text \<open>
  Starting one connection: one more worker, at the end, with the next id, with a thread, and the
  thread has reported that the connection is up.
\<close>

definition came_up :: "links \<Rightarrow> nat \<Rightarrow> worker \<Rightarrow> bool" where
  "came_up C timeout w \<longleftrightarrow>
     wk_thread w \<noteq> None \<and> reported (C (host_address (wk_host w)) (wk_tx w)) timeout"

definition started :: "links \<Rightarrow> string \<Rightarrow> sys \<Rightarrow> sys \<Rightarrow> bool" where
  "started C host s t \<longleftrightarrow>
     (\<exists>w. sockets t = sockets s @ [w] \<and> wk_id w = worker_id s \<and> wk_host w = host \<and> came_up C (cl_timeout s) w) \<and>
     worker_id t = worker_id s + 1 \<and> cl_timeout t = cl_timeout s \<and> pending t = pending s \<and> ids t = ids s \<and> used t = used s \<and>
     ts t = ts s \<and> subscriptions t = subscriptions s \<and> client_steps s t"

lemma start_connection_started:
  assumes "start_connection info N C host s = Some (Ret (Inr (), t))"
  shows "started C host s t"
proof -
  let ?s0 = "s\<lparr>worker_id := worker_id s + 1\<rparr>"
  obtain ws_tx th s1 where conn: "connect C host (cl_timeout s) ?s0 = Some (Inr (ws_tx, th), s1)"
    using assms
    by (auto simp: start_connection_def new_socket_worker_def worker_new_def split: option.splits sum.splits)
  let ?w = "\<lparr>wk_id = worker_id s, wk_host = host, wk_tx = ws_tx, wk_thread = Some th\<rparr>"
  have same1: "same_requests ?s0 s1" using conn by (rule same_requests_connect)
  have eq: "obind (if info then worker_is_connected N ?w s1 else Ret (False, s1)) (\<lambda>(_, s2).
      Ret (Inr () :: unit rslt, s2\<lparr>sockets := sockets s2 @ [?w]\<rparr>)) = Ret (Inr (), t)"
    using assms conn
    by (cases info) (simp_all add: start_connection_def new_socket_worker_def worker_new_def)
  have up: "came_up C (cl_timeout s) ?w" using connect_reported [OF conn] by (simp add: came_up_def)
  have "\<exists>s2. same_requests s1 s2 \<and> t = s2\<lparr>sockets := sockets s2 @ [?w]\<rparr>"
  proof (cases info)
    case True
    with eq show ?thesis by (auto simp: obind_eq_Ret dest: worker_is_connected_same)
  next
    case False
    with eq show ?thesis by (intro exI [of _ s1]) simp
  qed
  then obtain s2 where s2: "same_requests s1 s2" and t: "t = s2\<lparr>sockets := sockets s2 @ [?w]\<rparr>"
    by blast
  have "client_steps s ?s0" by (intro r_into_rtranclp step_worker_id)
  moreover have "client_steps ?s0 s2" using same_requests_trans [OF same1 s2] by (simp add: same_requests_def)
  moreover have "client_step s2 t" unfolding t by (rule step_sockets)
  ultimately have "client_steps s t" by (meson rtranclp.rtrancl_into_rtrancl rtranclp_trans)
  with same_requests_trans [OF same1 s2] show ?thesis
    using up by (simp add: started_def same_requests_def t used_def)
qed

lemma start_all_started:
  assumes "start_all info N C hs s = Some (Ret (Inr u, t))"
  shows "map wk_host (sockets t) = map wk_host (sockets s) @ hs \<and>
    map wk_id (sockets t) = map wk_id (sockets s) @ map (\<lambda>k. worker_id s + word_of_nat k) [0..<length hs] \<and>
    (list_all (came_up C (cl_timeout s)) (sockets s) \<longrightarrow> list_all (came_up C (cl_timeout s)) (sockets t)) \<and>
    pending t = pending s \<and> ids t = ids s \<and> used t = used s \<and> ts t = ts s \<and>
    subscriptions t = subscriptions s \<and> client_steps s t"
  using assms
proof (induction hs arbitrary: s)
  case Nil
  then show ?case by simp
next
  case (Cons h hs)
  then obtain s1 where one: "start_connection info N C h s = Some (Ret (Inr (), s1))"
    and rest: "start_all info N C hs s1 = Some (Ret (Inr u, t))"
    by (auto split: option.splits outcome.splits sum.splits)
  have st: "started C h s s1" using one by (rule start_connection_started)
  have "map (\<lambda>k. worker_id s + word_of_nat k) [0..<Suc (length hs)] =
      worker_id s # map (\<lambda>k. worker_id s1 + word_of_nat k) [0..<length hs]"
    using st by (simp add: started_def upt_conv_Cons map_Suc_upt [symmetric] add.assoc del: upt_Suc map_Suc_upt)
  with st Cons.IH [OF rest] show ?case
    by (auto simp: started_def simp del: upt_Suc intro: rtranclp_trans)
qed

section \<open>Managing the workers is a run of atomic steps\<close>

lemma steps_sentinel_pass: "sentinel_pass N C s = Some (Ret t) \<Longrightarrow> client_steps s t"
  by (auto simp: sentinel_pass_def obind_eq_Ret same_requests_def dest!: sentinel_workers_same
      intro: rtranclp.rtrancl_into_rtrancl step_sockets)

lemma any_connected_same: "any_connected N ws s = Ret (b, t) \<Longrightarrow> same_requests s t"
proof (induction ws arbitrary: s)
  case Nil
  then show ?case by simp
next
  case (Cons w ws)
  then show ?case
    by (auto simp: obind_eq_Ret split: if_splits dest!: worker_is_connected_same intro: same_requests_trans)
qed

lemma worker_stop_same: "worker_stop N w s = Ret (r, w', t) \<Longrightarrow> same_requests s t"
  by (auto simp: worker_stop_def obind_eq_Ret split: sum.splits dest: send_request_same)

lemma stop_workers_same: "stop_workers N ws s = Ret (r, ws', t) \<Longrightarrow> same_requests s t"
proof (induction ws arbitrary: s r ws')
  case Nil
  then show ?case by simp
next
  case (Cons w ws)
  then obtain r1 w1 s1 where one: "worker_stop N w s = Ret (r1, w1, s1)"
    by (auto simp: obind_eq_Ret)
  with Cons worker_stop_same [OF one] show ?case
    by (cases r1) (auto simp: obind_eq_Ret intro: same_requests_trans)
qed

lemma steps_client_stop: "client_stop N s = Ret (r, t) \<Longrightarrow> client_steps s t"
  by (auto simp: client_stop_def obind_eq_Ret same_requests_def dest!: stop_workers_same
      intro: rtranclp.rtrancl_into_rtrancl step_sockets)

lemma steps_threads: "client_steps s (with_sentinel (with_timeout s))"
proof -
  let ?n = "next_thread s"
  have "client_steps s (s\<lparr>next_thread := Suc (Suc ?n)\<rparr>)" by (intro r_into_rtranclp step_thread)
  moreover have "client_step (s\<lparr>next_thread := Suc (Suc ?n)\<rparr>)
      (s\<lparr>next_thread := Suc (Suc ?n), ts_thread := Some ?n, sentinel_thread := Some (Suc ?n)\<rparr>)"
    by (rule step_threads)
  moreover have "s\<lparr>next_thread := Suc (Suc ?n), ts_thread := Some ?n, sentinel_thread := Some (Suc ?n)\<rparr> =
      with_sentinel (with_timeout s)"
    by (simp add: with_sentinel_def with_timeout_def)
  ultimately show ?thesis by (metis rtranclp.rtrancl_into_rtrancl)
qed

lemma client_new_run:
  assumes "client_new info N C hs n timeout = Some (Ret (Inr s))"
  shows "client_steps (client_empty hs timeout) s"
proof -
  obtain u t where t: "start_all info N C (concat (map (replicate n) hs)) (client_empty hs timeout) = Some (Ret (Inr u, t))"
    and s: "s = with_sentinel (with_timeout t)"
    using assms by (auto simp: client_new_def split: option.splits outcome.splits sum.splits)
  have "client_steps (client_empty hs timeout) t" using start_all_started [OF t] by blast
  then show ?thesis using steps_threads [of t] unfolding s by (rule rtranclp_trans)
qed


section \<open>Stopping\<close>

lemma stop_workers_all:
  "list_all (\<lambda>w. ws_open N (wk_tx w) \<and> wk_thread w \<noteq> None) ws \<Longrightarrow>
     stop_workers N ws s = Ret (Inr (), map (\<lambda>w. w\<lparr>wk_thread := None\<rparr>) ws,
       s\<lparr>trace := trace s @ map (\<lambda>w. Queue (wk_tx w) Stop) ws\<rparr>)"
  by (induction ws arbitrary: s) (auto simp: worker_stop_def send_request_def log_def)

section \<open>Writing\<close>

lemma queued_append [simp]: "queued c (es @ fs) = queued c es @ queued c fs"
  by (induction c es rule: queued.induct) simp_all

lemma write_stream_snoc:
  "Stop \<notin> set reqs \<Longrightarrow> write_stream (reqs @ [r]) = write_stream reqs @ write_item r"
proof -
  assume "Stop \<notin> set reqs"
  then have ok: "r \<noteq> Stop" if "r \<in> set reqs" for r using that by auto
  have reqs: "takeWhile (\<lambda>r. r \<noteq> Stop) reqs = reqs"
    unfolding takeWhile_eq_all_conv using ok by blast
  have app: "takeWhile (\<lambda>r. r \<noteq> Stop) (reqs @ [r]) = reqs @ takeWhile (\<lambda>r. r \<noteq> Stop) [r]"
    by (rule takeWhile_append2) (rule ok)
  show ?thesis unfolding write_stream_def reqs app by (cases r) simp_all
qed

lemma write_stream_stop: "Stop \<in> set reqs \<Longrightarrow> write_stream (reqs @ xs) = write_stream reqs"
  unfolding write_stream_def by (subst takeWhile_append1) auto

section \<open>Hosts\<close>

lemma replace_absent: "pat \<noteq> [] \<Longrightarrow> last pat \<notin> set h \<Longrightarrow> replace_str pat b h = h"
proof (induction pat b h rule: replace_str.induct)
  case (1 pat b)
  then show ?case by simp
next
  case (2 pat b c cs)
  have "take (length pat) (c # cs) \<noteq> pat"
  proof
    assume eq: "take (length pat) (c # cs) = pat"
    then have "last pat \<in> set (take (length pat) (c # cs))"
      using "2.prems"(1) by (metis last_in_set)
    then show False using "2.prems"(2) by (meson in_set_takeD)
  qed
  with 2 show ?case by simp
qed

text \<open>A \<open>ws\<close> URL without a path and a bare address name the same peer.\<close>

lemma host_address_ws:
  assumes "CHR ''/'' \<notin> set h"
  shows "host_address (''ws://'' @ h) = h" and "host_address h = h"
  using assms by (simp_all add: host_address_def replace_absent)

section \<open>Round robin\<close>

text \<open>Send messages one after the other.\<close>

definition send_all :: "rpc_lib \<Rightarrow> net \<Rightarrow> socket_request list \<Rightarrow> sys \<Rightarrow> sys" where
  "send_all L N msgs s = fold (\<lambda>m t. snd (send L N m t)) msgs s"

lemma send_all_snoc: "send_all L N (msgs @ [m]) s = snd (send L N m (send_all L N msgs s))"
  by (simp add: send_all_def)

lemma send_all_open:
  assumes "sockets s \<noteq> []" and "list_all (\<lambda>w. ws_open N (wk_tx w)) (sockets s)"
  shows "send_all L N msgs s =
    s\<lparr>sockets := rotate (length msgs) (sockets s),
      trace := trace s @ map (\<lambda>i. Queue (wk_tx (sockets s ! (i mod length (sockets s)))) (msgs ! i)) [0..<length msgs]\<rparr>"
proof (induction msgs rule: rev_induct)
  case Nil
  then show ?case by (simp add: send_all_def)
next
  case (snoc m msgs)
  let ?n = "length msgs" and ?ws = "sockets s"
  let ?t = "send_all L N msgs s"
  obtain w rest where ws: "rotate ?n ?ws = w # rest" using assms(1) by (cases "rotate ?n ?ws") auto
  have w: "w = ?ws ! (?n mod length ?ws)"
    using hd_rotate_conv_nth [OF assms(1), of ?n] ws by simp
  have "w \<in> set ?ws" using ws by (metis list.set_intros(1) set_rotate)
  then have "ws_open N (wk_tx w)" using assms(2) by (simp add: list_all_iff)
  moreover have "sockets ?t = w # rest" using snoc ws by simp
  ultimately have "snd (send L N m ?t) =
      ?t\<lparr>sockets := rest @ [w], trace := trace ?t @ [Queue (wk_tx w) m]\<rparr>"
    by (simp add: send_open)
  moreover have "rest @ [w] = rotate (Suc ?n) ?ws" using ws by (simp add: rotate1_def)
  ultimately show ?case
    unfolding send_all_snoc using snoc w by (simp add: nth_append)
qed


section \<open>Dead workers\<close>

text \<open>The bodies posted over HTTP, in order.\<close>

fun posted :: "event list \<Rightarrow> string list" where
  "posted [] = []"
| "posted (HttpPost m # es) = m # posted es"
| "posted (_ # es) = posted es"

lemma posted_append [simp]: "posted (es @ fs) = posted es @ posted fs"
  by (induction es rule: posted.induct) simp_all

lemma posted_dispatch: "posted (trace (fold http_dispatch rs s)) = posted (trace s)"
proof (induction rs arbitrary: s)
  case Nil
  then show ?case by simp
next
  case (Cons r rs)
  have "posted (trace (http_dispatch r s)) = posted (trace s)"
    by (simp add: http_dispatch_def answer_def log_def split: option.split prod.split)
  with Cons show ?case by simp
qed

lemma posted_send_http: "posted (trace (snd (send_http L N m s))) = posted (trace s) @ [m]"
  by (simp add: send_http_def Let_def log_def posted_dispatch split: sum.split)

lemma send_all_closed:
  assumes "list_all (\<lambda>w. \<not> ws_open N (wk_tx w)) (sockets s)"
  shows "sockets (send_all L N (map Text ms) s) = drop (length ms) (sockets s) \<and>
    posted (trace (send_all L N (map Text ms) s)) = posted (trace s) @ ms"
proof (induction ms rule: rev_induct)
  case Nil
  then show ?case by (simp add: send_all_def)
next
  case (snoc m ms)
  let ?t = "send_all L N (map Text ms) s"
  have "sockets (snd (send L N (Text m) ?t)) = tl (sockets ?t) \<and>
      posted (trace (snd (send L N (Text m) ?t))) = posted (trace ?t) @ [m]"
  proof (cases "sockets ?t")
    case Nil
    then show ?thesis by (simp add: send_def posted_send_http)
  next
    case (Cons w rest)
    then have "w \<in> set (sockets s)" using snoc by (metis in_set_dropD list.set_intros(1))
    then have "\<not> ws_open N (wk_tx w)" using assms by (simp add: list_all_iff)
    with Cons show ?thesis by (simp add: send_def send_request_def Let_def posted_send_http)
  qed
  with snoc show ?case by (simp add: send_all_snoc drop_Suc tl_drop)
qed

section \<open>Properties\<close>

definition demo_links :: links where
  "demo_links h c = \<lparr>up_clock = (\<lambda>k. k), up = (\<lambda>k. k = 2), re_clock = (\<lambda>k. k)\<rparr>"

lemma demo_links_advance: "clocks_advance demo_links timeout"
  by (auto simp: clocks_advance_def demo_links_def)

text \<open>
  C23: The workers share the load in turn. As long as the channels of all workers accept
  messages, the \<open>i\<close>-th of any sequence of messages is queued on worker \<open>i\<close> modulo the number of
  workers, in the order of the queue at the start; nothing else changes, and no worker is
  lost.
\<close>

theorem send_round_robin:
  assumes "sockets s \<noteq> []" and "list_all (\<lambda>w. ws_open N (wk_tx w)) (sockets s)"
  shows "send_all L N msgs s =
    s\<lparr>sockets := rotate (length msgs) (sockets s),
      trace := trace s @ map (\<lambda>i. Queue (wk_tx (sockets s ! (i mod length (sockets s)))) (msgs ! i)) [0..<length msgs]\<rparr>"
  using assms by (rule send_all_open)

theorem send_round_robin_witness:
  "let s = demo_sys\<lparr>sockets := [demo_worker, demo_worker\<lparr>wk_tx := 1\<rparr>]\<rparr>; msgs = [Text ''a'', Text ''b'', Text ''c''] in
   send_all (demo_lib (RespBatch [])) demo_net msgs s =
     s\<lparr>sockets := rev (sockets s), trace := [Queue 0 (Text ''a''), Queue 1 (Text ''b''), Queue 0 (Text ''c'')]\<rparr>"
proof -
  let ?s = "demo_sys\<lparr>sockets := [demo_worker, demo_worker\<lparr>wk_tx := 1\<rparr>]\<rparr>"
  show ?thesis
    unfolding Let_def
    using send_round_robin [of ?s demo_net "demo_lib (RespBatch [])" "[Text ''a'', Text ''b'', Text ''c'']"]
    by (simp add: demo_net_def demo_sys_def demo_worker_def)
qed

text \<open>
  A request goes to the socket it was queued on. When the worker at the front of the queue
  accepts messages and has not been told to stop, the message of a request is the next thing
  the write half of that worker's thread hands to the sink, after everything queued on it before.
\<close>

lemma request_written:
  assumes "sockets s = w # rest" and "ws_open N (wk_tx w)" and "Stop \<notin> set (queued (wk_tx w) (trace s))"
    and "pending s (ids s) = None" and "request L N now mth ps d s = (f, t)"
  shows "write_stream (queued (wk_tx w) (trace t)) =
    write_stream (queued (wk_tx w) (trace s)) @ [WsSend (MsgText (call_to_string L (build_request (ids s) mth ps)))]"
proof -
  let ?m = "Text (call_to_string L (build_request (ids s) mth ps))"
  have tr: "trace (enrolled now s) = trace s"
    using assms(4) by (simp add: enrolled_def stamp_def client_defs)
  have "send L N ?m (enrolled now s) =
      (Inr (), (enrolled now s)\<lparr>sockets := rest @ [w], trace := trace s @ [Queue (wk_tx w) ?m]\<rparr>)"
    using send_open [of "enrolled now s" w rest N L ?m] assms(1,2) tr by simp
  then have "trace t = trace s @ [Queue (wk_tx w) ?m]"
    using assms(5) by (auto simp: request_send Let_def)
  with write_stream_snoc [OF assms(3), of ?m] show ?thesis by simp
qed

text \<open>
  C26: The wait loops end. If the clocks advance past the timeout, \<open>connect\<close> returns, with a
  connection exactly when the socket thread reported one while the timeout had not passed
  and with \<open>ConnectError\<close> otherwise; and \<open>reconnect\<close>, the construction of a client and a pass
  of the sentinel return.
\<close>

theorem wait_loops_end:
  assumes "clocks_advance C timeout" and "cl_timeout s = timeout"
  shows "(\<exists>t. connect C host timeout s =
      Some (if \<exists>k. up (C (host_address host) (next_chan s)) k \<and>
                 (\<forall>j \<le> k. up_clock (C (host_address host) (next_chan s)) j \<le> timeout)
            then Inr (next_chan s, next_thread s) else Inl ConnectError, t)) \<and>
    reconnect N C timeout w s \<noteq> None \<and> client_new info N C hs n timeout \<noteq> None \<and>
    sentinel_pass N C s \<noteq> None"
proof (intro conjI)
  show "reconnect N C timeout w s \<noteq> None" using assms(1) by (rule reconnect_returns)
  show "sentinel_pass N C s \<noteq> None"
    using sentinel_returns [OF assms(1), of N "sockets s" s] assms(2) by (auto simp: sentinel_pass_def)
  have "start_all info N C (concat (map (replicate n) hs)) (client_empty hs timeout) \<noteq> None"
    using assms(1) by (intro start_all_returns) (simp add: client_empty_def)
  then show "client_new info N C hs n timeout \<noteq> None"
    by (auto simp: client_new_def split: option.split outcome.split sum.split prod.split)
qed (simp add: connect_result [OF assms(1)])

theorem wait_loops_end_witness:
  "\<exists>t. connect demo_links ''ws://127.0.0.1:8546'' 5 demo_sys = Some (Inr (1, 1), t)"
proof -
  let ?l = "demo_links (host_address ''ws://127.0.0.1:8546'') (next_chan demo_sys)"
  have "up ?l 2 \<and> (\<forall>j \<le> 2. up_clock ?l j \<le> 5)" by (simp add: demo_links_def)
  then have "\<exists>k. up ?l k \<and> (\<forall>j \<le> k. up_clock ?l j \<le> 5)" by blast
  moreover have "cl_timeout demo_sys = 5" "next_chan demo_sys = 1" "next_thread demo_sys = 1"
    by (simp_all add: demo_sys_def)
  ultimately show ?thesis
    using wait_loops_end [OF demo_links_advance, of demo_sys 5 "''ws://127.0.0.1:8546''"] by simp
qed


lemma demo_client: "\<exists>s. client_new True demo_net demo_links [''ws://a'', ''ws://b''] 2 5 = Some (Ret (Inr s))"
proof -
  have up: "connect demo_links h 5 s =
      Some (Inr (next_chan s, next_thread s), s\<lparr>next_chan := Suc (next_chan s), next_thread := Suc (next_thread s)\<rparr>)"
    for h s
  proof -
    have "up (demo_links (host_address h) (next_chan s)) 2 \<and>
        (\<forall>j \<le> 2. up_clock (demo_links (host_address h) (next_chan s)) j \<le> 5)"
      by (simp add: demo_links_def)
    then have "\<exists>k. up (demo_links (host_address h) (next_chan s)) k \<and>
        (\<forall>j \<le> k. up_clock (demo_links (host_address h) (next_chan s)) j \<le> 5)"
      by blast
    then show ?thesis by (simp only: connect_result [OF demo_links_advance] if_True)
  qed
  show ?thesis
    by (simp add: client_new_def client_empty_def start_connection_def new_socket_worker_def
        worker_new_def up worker_is_connected_def send_request_def new_chan_def log_def demo_net_def
        numeral_2_eq_2)
qed

text \<open>
  C27: A new client. If \<open>Client::new\<close> succeeds, it has opened the asked number of connections to
  every host, in the order of the hosts, and every one of them has come up: its worker has the
  handle of a thread, and that thread has reported on the worker's own channel, while the
  timeout had not passed, that the socket is connected (nothing is said of what the thread does
  later). The workers are numbered from zero; the tables are empty, the first request id is one,
  and the invariant of the request table holds.
\<close>

theorem client_new_workers:
  assumes "client_new info N C hs n timeout = Some (Ret (Inr s))"
  shows "map wk_host (sockets s) = concat (map (replicate n) hs) \<and>
    map wk_id (sockets s) = map word_of_nat [0..<length hs * n] \<and>
    (\<forall>w \<in> set (sockets s). wk_thread w \<noteq> None \<and>
       (\<exists>k. up (C (host_address (wk_host w)) (wk_tx w)) k \<and>
          (\<forall>j \<le> k. up_clock (C (host_address (wk_host w)) (wk_tx w)) j \<le> timeout))) \<and>
    pending s = Map.empty \<and> subscriptions s = Map.empty \<and> ts s = [] \<and> ids s = 1 \<and> table_inv s"
proof -
  obtain u t where all: "start_all info N C (concat (map (replicate n) hs)) (client_empty hs timeout) = Some (Ret (Inr u, t))"
    and s: "s = with_sentinel (with_timeout t)"
    using assms by (auto simp: client_new_def split: option.splits outcome.splits sum.splits)
  have len: "length (concat (map (replicate n) hs)) = length hs * n"
    by (induction hs) simp_all
  have fields: "sockets s = sockets t" "pending s = pending t" "subscriptions s = subscriptions t"
    "ts s = ts t" "ids s = ids t" "used s = used t"
    by (simp_all add: s with_sentinel_def with_timeout_def used_def)
  have "pending t = Map.empty" "used t = []"
    using start_all_started [OF all] by (simp_all add: client_empty_def used_def)
  then have "table_inv s" by (simp add: table_inv_def fields)
  moreover have "list_all (came_up C timeout) (sockets s)"
    using start_all_started [OF all] by (simp add: fields client_empty_def)
  ultimately show ?thesis
    using start_all_started [OF all]
    by (simp add: fields len client_empty_def list_all_iff came_up_def reported_def)
qed

theorem client_new_workers_witness:
  "\<exists>s. client_new True demo_net demo_links [''ws://a'', ''ws://b''] 2 5 = Some (Ret (Inr s)) \<and>
    map wk_host (sockets s) = [''ws://a'', ''ws://a'', ''ws://b'', ''ws://b''] \<and> ids s = 1 \<and>
    (\<forall>w \<in> set (sockets s). \<exists>k. up (demo_links (host_address (wk_host w)) (wk_tx w)) k)"
proof -
  obtain s where s: "client_new True demo_net demo_links [''ws://a'', ''ws://b''] 2 5 = Some (Ret (Inr s))"
    using demo_client by blast
  from client_new_workers [OF s] s show ?thesis by (intro exI [of _ s]) (auto simp: numeral_2_eq_2)
qed

text \<open>
  The sentinel keeps every worker. A pass of the sentinel that returns leaves the queue
  with the same workers, by number and host and in the same order, and changes no pending
  request, subscription, timestamp or request id, and answers or drops no request.
\<close>

lemma sentinel_keeps_workers:
  assumes "sentinel_pass N C s = Some (Ret t)"
  shows "map wk_id (sockets t) = map wk_id (sockets s) \<and> map wk_host (sockets t) = map wk_host (sockets s) \<and>
    pending t = pending s \<and> subscriptions t = subscriptions s \<and> ts t = ts s \<and> ids t = ids s \<and>
    used t = used s"
proof -
  obtain ws s1 where "sentinel_workers N C (cl_timeout s) (sockets s) s = Some (Ret (ws, s1))"
    and t: "t = s1\<lparr>sockets := ws\<rparr>"
    using assms by (auto simp: sentinel_pass_def obind_eq_Ret)
  from sentinel_workers_same [OF this(1)] show ?thesis
    by (simp add: t same_requests_def used_def)
qed

text \<open>
  C36: A dead worker is forgotten. Let the channels of all workers be closed and send messages
  one after the other. Each message takes one worker out of the queue for good and goes out
  over HTTP, and so do all further messages once the queue is empty; a pass of the sentinel,
  which should reconnect dead workers, sees only those still in the queue and brings none of
  the others back.
\<close>

theorem dead_workers_forgotten:
  assumes "list_all (\<lambda>w. \<not> ws_open N (wk_tx w)) (sockets s)" and "t = send_all L N (map Text ms) s"
    and "sentinel_pass N' C t = Some (Ret u)"
  shows "sockets t = drop (length ms) (sockets s) \<and> posted (trace t) = posted (trace s) @ ms \<and>
    map wk_id (sockets u) = drop (length ms) (map wk_id (sockets s))"
proof -
  obtain ws v where "sentinel_workers N' C (cl_timeout t) (sockets t) t = Some (Ret (ws, v))"
    and u: "u = v\<lparr>sockets := ws\<rparr>"
    using assms(3) by (auto simp: sentinel_pass_def obind_eq_Ret)
  from sentinel_workers_same [OF this(1)] have "map wk_id (sockets u) = map wk_id (sockets t)"
    by (simp add: u)
  with send_all_closed [OF assms(1), of L ms] assms(2) show ?thesis by (simp add: drop_map)
qed

theorem dead_workers_forgotten_witness:
  "let t = send_all (demo_lib (RespBatch [])) (demo_net\<lparr>ws_open := \<lambda>_. False\<rparr>) (map Text [''a'', ''b'']) demo_sys in
   sockets t = [] \<and> posted (trace t) = [''a'', ''b''] \<and>
   (\<exists>u. sentinel_pass demo_net demo_links t = Some (Ret u) \<and> map wk_id (sockets u) = [])"
proof -
  define t where "t = send_all (demo_lib (RespBatch [])) (demo_net\<lparr>ws_open := \<lambda>_. False\<rparr>) (map Text [''a'', ''b'']) demo_sys"
  have "sockets t = drop 2 (sockets demo_sys)"
    using send_all_closed [of "demo_net\<lparr>ws_open := \<lambda>_. False\<rparr>" demo_sys _ "[''a'', ''b'']"]
    unfolding t_def by (simp add: list_all_iff numeral_2_eq_2)
  then have "sockets t = []" by (simp add: demo_sys_def)
  then have u: "sentinel_pass demo_net demo_links t = Some (Ret (t\<lparr>sockets := []\<rparr>))"
    by (simp add: sentinel_pass_def)
  have "sockets t = drop (length [''a'', ''b'']) (sockets demo_sys) \<and>
      posted (trace t) = posted (trace demo_sys) @ [''a'', ''b''] \<and>
      map wk_id (sockets (t\<lparr>sockets := []\<rparr>)) = drop (length [''a'', ''b'']) (map wk_id (sockets demo_sys))"
    by (rule dead_workers_forgotten [OF _ t_def u]) (simp add: list_all_iff)
  with u show ?thesis unfolding Let_def t_def [symmetric] by (simp add: demo_sys_def)
qed

end
