(* ===== verification/Yum_Api.thy ===== *)
theory Yum_Api
  imports Token_Ops Transaction_Stream Pubsub_Stream Socket_Worker
begin

text \<open>
  \<open>YumClient\<close> (\<open>src/yum.rs\<close>), the public face of the crate: construction with a timeout and
  one method per JSON-RPC call, each of which asks the client and decodes the answer. The
  methods that the operation traits also define are modelled from their own source lines
  and shown to agree with the traits.

  The decoders of models (\<open>Log\<close>, \<open>ParityTrace\<close>, the result of a call) and the serializer of a
  caller's \<open>TransactionCall\<close> are arguments.
\<close>

section \<open>Construction\<close>

text \<open>
  What \<open>req.select2(sleep).wait()\<close> yields: which future finished first, and how. It depends on
  the executor and the timer, so it is a parameter \<open>race\<close> of the request's future.
\<close>

datatype race_result = OkA | OkB | ErrA error | ErrB

definition yum_with_timeout ::
  "bool \<Rightarrow> env \<Rightarrow> links \<Rightarrow> (u64 yum_future \<Rightarrow> sys \<Rightarrow> race_result) \<Rightarrow> string list \<Rightarrow> nat \<Rightarrow> nat \<Rightarrow>
     sys rslt outcome option" where
  "yum_with_timeout info E C race hs connections timeout =
     (case client_new info (netw E) C hs connections timeout of
        None \<Rightarrow> None
      | Some Panic \<Rightarrow> Some Panic
      | Some (Ret (Inl e)) \<Rightarrow> Some (Ret (Inl e))
      | Some (Ret (Inr c)) \<Rightarrow>
          (case op_request E ''eth_blockNumber'' [] (env_de_u64 E) c of
             (req, c1) \<Rightarrow>
               Some (Ret (case race req c1 of
                            OkA \<Rightarrow> Inr c1
                          | OkB \<Rightarrow> Inl ConnectionTimeout
                          | ErrA e \<Rightarrow> Inl e
                          | ErrB \<Rightarrow> Inl ConnectionTimeout))))"

definition yum_new ::
  "bool \<Rightarrow> env \<Rightarrow> links \<Rightarrow> (u64 yum_future \<Rightarrow> sys \<Rightarrow> race_result) \<Rightarrow> string list \<Rightarrow> nat \<Rightarrow>
     sys rslt outcome option" where
  "yum_new info E C race hs connections = yum_with_timeout info E C race hs connections 5"

section \<open>Accounts, calls and code\<close>

definition accounts :: "env \<Rightarrow> sys \<Rightarrow> h160 list yum_future \<times> sys" where
  "accounts E = op_request E ''eth_accounts'' [] (de (h160s_from_value (mdl E)))"

definition address_is_contract :: "env \<Rightarrow> h160 \<Rightarrow> block_number \<Rightarrow> sys \<Rightarrow> bool yum_future \<times> sys" where
  "address_is_contract E address block =
     op_request E ''eth_getCode'' [ser_h160 (mdl E) address, ser_block_number (mdl E) block]
       (\<lambda>v. map_ok (\<lambda>code. 2 < length code) (de (string_from_value (kodec E)) v))"

definition block_number_of :: "env \<Rightarrow> sys \<Rightarrow> u64 yum_future \<times> sys" where
  "block_number_of E = op_request E ''eth_blockNumber'' [] (env_de_u64 E)"

definition call :: "env \<Rightarrow> ('c \<Rightarrow> json) \<Rightarrow> (json \<Rightarrow> string + 't) \<Rightarrow> 'c \<Rightarrow> sys \<Rightarrow> 't yum_future \<times> sys" where
  "call E ser_call d c = op_request E ''eth_call'' [ser_call c] (de d)"

datatype address_type = Contract h160 | Address h160

definition classify_op :: "env \<Rightarrow> h160 \<Rightarrow> address_type decoder" where
  "classify_op E address v =
     map_ok (\<lambda>code. if 2 < length code then Contract address else Address address)
       (de (string_from_value (kodec E)) v)"

definition classify_req :: "env \<Rightarrow> h160 \<Rightarrow> address_type req" where
  "classify_req E address = (''eth_getCode'', [ser_h160 (mdl E) address], classify_op E address)"

definition classify_addresses ::
  "env \<Rightarrow> h160 list \<Rightarrow> sys \<Rightarrow> (address_type, 'j) yum_batch_future \<times> sys" where
  "classify_addresses E addresses = op_batch_request E (map (classify_req E) addresses)"

definition coinbase :: "env \<Rightarrow> sys \<Rightarrow> h160 yum_future \<times> sys" where
  "coinbase E = op_request E ''eth_coinbase'' [] (de (h160_from_value (mdl E)))"

definition estimate_gas :: "env \<Rightarrow> ('c \<Rightarrow> json) \<Rightarrow> 'c \<Rightarrow> sys \<Rightarrow> u256 yum_future \<times> sys" where
  "estimate_gas E ser_call c = op_request E ''eth_estimateGas'' [ser_call c] (de (u256_from_value (mdl E)))"

definition gas_price :: "env \<Rightarrow> sys \<Rightarrow> u256 yum_future \<times> sys" where
  "gas_price E = op_request E ''eth_gasPrice'' [] (de (u256_from_value (mdl E)))"

definition get_balance :: "env \<Rightarrow> h160 \<Rightarrow> block_number \<Rightarrow> sys \<Rightarrow> u256 yum_future \<times> sys" where
  "get_balance E addr num =
     op_request E ''eth_getBalance'' [ser_h160 (mdl E) addr, ser_block_number (mdl E) num]
       (de (u256_from_value (mdl E)))"

definition get_code :: "env \<Rightarrow> h160 \<Rightarrow> block_number \<Rightarrow> sys \<Rightarrow> string yum_future \<times> sys" where
  "get_code E address block =
     op_request E ''eth_getCode'' [ser_h160 (mdl E) address, ser_block_number (mdl E) block]
       (de (string_from_value (kodec E)))"

section \<open>Blocks\<close>

definition yum_get_block_by_hash ::
  "env \<Rightarrow> (json \<Rightarrow> string + 'b option) \<Rightarrow> h256 \<Rightarrow> bool \<Rightarrow> sys \<Rightarrow> 'b option yum_future \<times> sys" where
  "yum_get_block_by_hash E bd block with_tx =
     op_request E ''eth_getBlockByHash'' [ser_h256 (mdl E) block, JBool with_tx] (de bd)"

definition yum_get_block_by_number ::
  "env \<Rightarrow> (json \<Rightarrow> string + 'b option) \<Rightarrow> u64 \<Rightarrow> bool \<Rightarrow> sys \<Rightarrow> 'b option yum_future \<times> sys" where
  "yum_get_block_by_number E bd block with_tx =
     op_request E ''eth_getBlockByNumber'' [ser_u256 (mdl E) (u256_from block), JBool with_tx] (de bd)"

definition yum_block_req ::
  "env \<Rightarrow> (json \<Rightarrow> string + 'b option) \<Rightarrow> bool \<Rightarrow> block_number \<Rightarrow> 'b option req" where
  "yum_block_req E bd with_tx block =
     (let b = (case block of Number n \<Rightarrow> ser_u256 (mdl E) (u256_from n) | Name n \<Rightarrow> JString n)
      in (''eth_getBlockByNumber'', [b, JBool with_tx], de bd))"

definition yum_get_blocks_named ::
  "env \<Rightarrow> (json \<Rightarrow> string + 'b option) \<Rightarrow> bool \<Rightarrow> block_number list \<Rightarrow> sys \<Rightarrow>
     ('b option, 'j) yum_batch_future \<times> sys" where
  "yum_get_blocks_named E bd with_tx blocks =
     op_batch_request E (map (yum_block_req E bd with_tx) blocks)"

definition yum_get_blocks ::
  "env \<Rightarrow> (json \<Rightarrow> string + 'b option) \<Rightarrow> bool \<Rightarrow> u64 list \<Rightarrow> sys \<Rightarrow>
     ('b option, 'j) yum_batch_future \<times> sys" where
  "yum_get_blocks E bd with_tx blocks = yum_get_blocks_named E bd with_tx (map Number blocks)"

definition yum_get_block_range ::
  "env \<Rightarrow> (json \<Rightarrow> string + 'b option) \<Rightarrow> bool \<Rightarrow> u64 \<Rightarrow> u64 \<Rightarrow> sys \<Rightarrow>
     (('b option, 'j) yum_batch_future \<times> sys) outcome" where
  "yum_get_block_range E bd with_tx lo hi s =
     obind (checked_plus (oc E) hi 1) (\<lambda>till.
       Ret (yum_get_blocks_named E bd with_tx (map Number (word_range lo till)) s))"

definition get_block_stream :: "u64 \<Rightarrow> u64 \<Rightarrow> bool \<Rightarrow> 'b block_stream" where
  "get_block_stream lo hi with_tx = block_stream_new lo hi with_tx"

definition get_partial_block_stream :: "u64 \<Rightarrow> u64 \<Rightarrow> bool \<Rightarrow> 'b block_stream" where
  "get_partial_block_stream lo hi with_tx = block_stream_new lo hi with_tx"

section \<open>Logs\<close>

text \<open>\<open>LogParams\<close>, serialized with camelCase names.\<close>

record log_params =
  from_block :: u256
  to_block :: u256
  log_address :: h160
  topics :: "h256 list"

definition ser_log_params :: "env \<Rightarrow> log_params \<Rightarrow> json" where
  "ser_log_params E p =
     JObject [(''fromBlock'', ser_u256 (mdl E) (from_block p)),
              (''toBlock'', ser_u256 (mdl E) (to_block p)),
              (''address'', ser_h160 (mdl E) (log_address p)),
              (''topics'', JArray (map (ser_h256 (mdl E)) (topics p)))]"

definition get_logs ::
  "env \<Rightarrow> (json \<Rightarrow> string + 'l list) \<Rightarrow> u64 \<Rightarrow> u64 \<Rightarrow> h160 \<Rightarrow> h256 \<Rightarrow> sys \<Rightarrow> 'l list yum_future \<times> sys" where
  "get_logs E ld lo hi address topic =
     op_request E ''eth_getLogs''
       [ser_log_params E \<lparr>from_block = u256_from lo, to_block = u256_from hi, log_address = address, topics = [topic]\<rparr>]
       (de ld)"

definition logs_req ::
  "env \<Rightarrow> (json \<Rightarrow> string + 'l list) \<Rightarrow> u64 \<Rightarrow> u64 \<Rightarrow> h160 \<Rightarrow> h256 \<Rightarrow> 'l list req" where
  "logs_req E ld lo hi address topic =
     (''eth_getLogs'',
      [ser_log_params E \<lparr>from_block = u256_from lo, to_block = u256_from hi, log_address = address, topics = [topic]\<rparr>],
      de ld)"

definition get_logs_n_topics ::
  "env \<Rightarrow> (json \<Rightarrow> string + 'l list) \<Rightarrow> u64 \<Rightarrow> u64 \<Rightarrow> h160 \<Rightarrow> h256 list \<Rightarrow> sys \<Rightarrow>
     ('l list, 'j) yum_batch_future \<times> sys" where
  "get_logs_n_topics E ld lo hi address tops =
     op_batch_request E (map (logs_req E ld lo hi address) tops)"

section \<open>Transactions\<close>

definition yum_get_num_transactions_sent ::
  "env \<Rightarrow> h160 \<Rightarrow> block_number \<Rightarrow> sys \<Rightarrow> u64 yum_future \<times> sys" where
  "yum_get_num_transactions_sent E address block =
     op_request E ''eth_getTransactionCount''
       [ser_h160 (mdl E) address, ser_block_number (mdl E) block] (env_de_u64 E)"

definition yum_get_transaction ::
  "env \<Rightarrow> (json \<Rightarrow> string + 'x option) \<Rightarrow> h256 \<Rightarrow> sys \<Rightarrow> 'x option yum_future \<times> sys" where
  "yum_get_transaction E xd tx_hash =
     op_request E ''eth_getTransactionByHash'' [ser_h256 (mdl E) tx_hash] (de xd)"

definition yum_get_transactions ::
  "env \<Rightarrow> (json \<Rightarrow> string + 'x option) \<Rightarrow> h256 list \<Rightarrow> sys \<Rightarrow>
     ('x option, 'j) yum_batch_future \<times> sys" where
  "yum_get_transactions E xd txns =
     op_batch_request E (map (\<lambda>tx. (''eth_getTransactionByHash'', [ser_h256 (mdl E) tx], de xd)) txns)"

definition yum_get_transaction_receipt ::
  "env \<Rightarrow> (json \<Rightarrow> string + 'r option) \<Rightarrow> h256 \<Rightarrow> sys \<Rightarrow> 'r option yum_future \<times> sys" where
  "yum_get_transaction_receipt E rd tx =
     op_request E ''eth_getTransactionReceipt'' [ser_h256 (mdl E) tx] (de rd)"

definition yum_get_transaction_receipts ::
  "env \<Rightarrow> (json \<Rightarrow> string + 'r option) \<Rightarrow> h256 list \<Rightarrow> sys \<Rightarrow>
     ('r option, 'j) yum_batch_future \<times> sys" where
  "yum_get_transaction_receipts E rd txns =
     op_batch_request E (map (\<lambda>tx. (''eth_getTransactionReceipt'', [ser_h256 (mdl E) tx], de rd)) txns)"

definition get_transaction_stream :: "h256 list \<Rightarrow> 'x transaction_stream" where
  "get_transaction_stream txns = transaction_stream_new txns"

definition trace_transaction ::
  "env \<Rightarrow> (json \<Rightarrow> string + 'p list) \<Rightarrow> h256 \<Rightarrow> sys \<Rightarrow> 'p list yum_future \<times> sys" where
  "trace_transaction E pd tx_hash = op_request E ''trace_transaction'' [ser_h256 (mdl E) tx_hash] (de pd)"

definition trace_transactions ::
  "env \<Rightarrow> (json \<Rightarrow> string + 'p list) \<Rightarrow> h256 list \<Rightarrow> sys \<Rightarrow> ('p list, 'j) yum_batch_future \<times> sys" where
  "trace_transactions E pd txns =
     op_batch_request E (map (\<lambda>tx. (''trace_transaction'', [ser_h256 (mdl E) tx], de pd)) txns)"

section \<open>State of the connection\<close>

definition yum_is_connected :: "env \<Rightarrow> sys \<Rightarrow> (bool \<times> sys) outcome" where
  "yum_is_connected E s = client_is_connected (netw E) s"

definition shutdown :: "env \<Rightarrow> sys \<Rightarrow> (unit rslt \<times> sys) outcome" where
  "shutdown E s = client_stop (netw E) s"

section \<open>The methods agree with the traits and keep the batch contract\<close>

lemma yum_block_req_agree: "yum_block_req E bd tx = block_req E bd tx"
  by (rule ext) (simp add: yum_block_req_def block_req_def block_arg_def)

lemma yum_get_blocks_named_agree: "yum_get_blocks_named E bd tx = get_blocks_named E bd tx"
  by (intro ext) (simp add: yum_get_blocks_named_def get_blocks_named_def yum_block_req_agree)

lemma yum_get_blocks_agree: "yum_get_blocks E bd tx = get_blocks E bd tx"
  by (intro ext) (simp add: yum_get_blocks_def get_blocks_def yum_get_blocks_named_agree)

lemma yum_get_block_range_agree: "yum_get_block_range E bd tx = get_block_range E bd tx"
  by (intro ext) (simp add: yum_get_block_range_def get_block_range_def yum_get_blocks_named_agree)

lemma yum_get_transactions_agree: "yum_get_transactions E xd = get_transactions E xd"
  by (intro ext) (simp add: yum_get_transactions_def get_transactions_def transaction_req_def [abs_def])

lemma yum_get_transaction_receipts_agree:
  "yum_get_transaction_receipts E rd = get_transaction_receipts E rd"
  by (intro ext) (simp add: yum_get_transaction_receipts_def get_transaction_receipts_def receipt_req_def [abs_def])

interpretation classified: batch_source "classify_addresses E" "classify_op E"
  using batch_source_batch_request [of E "classify_req E"]
  by (simp add: classify_addresses_def [abs_def] classify_req_def)

interpretation logs: batch_source "get_logs_n_topics E ld lo hi address" "\<lambda>_. de ld"
  using batch_source_batch_request [of E "logs_req E ld lo hi address"]
  by (simp add: get_logs_n_topics_def [abs_def] logs_req_def)

end
