(* ===== verification/Program_Runs.thy ===== *)
theory Program_Runs
  imports Yum_Api
begin

text \<open>
  The remaining operations of the program as runs of the atomic steps of the client: the
  polls of the three streams and the queries for tokens. Together with the runs of requests,
  message handling and the timeout thread (\<open>Yum_Client\<close>) and of the workers (\<open>Socket_Worker\<close>)
  this covers everything that touches the state shared by the threads.

  The three streams share a contract, the locale \<open>client_stream\<close>: from a good state a poll
  returns, leaves the stream in a good state and is a run of the client. A program that polls
  one stream of each kind over one client, with messages, requests, batches, status checks and
  passes of the two background threads in between, is a list of turns; \<open>play\<close> runs it.
\<close>

named_theorems run_of "an operation that returns is a run of atomic steps"

lemma run_of_get_blocks [run_of]: "get_blocks E bd tx ns s = (b, t) \<Longrightarrow> client_steps s t"
  by (metis blocks.ask_steps snd_conv)

lemma run_of_get_block_range [run_of]:
  "get_block_range E bd tx lo hi s = Ret (b, t) \<Longrightarrow> client_steps s t"
  unfolding get_block_range_def obind_eq_Ret by (metis blocks_named.ask_steps outcome.inject snd_conv)

lemma run_of_get_transactions [run_of]: "get_transactions E xd txs s = (b, t) \<Longrightarrow> client_steps s t"
  by (metis transactions.ask_steps snd_conv)

lemma run_of_next_block [run_of]: "next_block E bd clk st s = Ret ((m, st1), t) \<Longrightarrow> client_steps s t"
  by (auto simp: next_block_def obind_eq_Ret Let_def split: if_splits prod.splits dest: run_of)

lemma run_of_bs_poll [run_of]: "bs_poll E bd num clk k w st s = Ret (r, st', t) \<Longrightarrow> client_steps s t"
  using bs_poll_ok by (blast dest: run_of_next_block)

lemma run_of_next_tx [run_of]:
  fixes xd :: "json \<Rightarrow> string + 'x option"
  assumes "next_tx E xd clk st s = Ret ((m, st1), t)"
  shows "client_steps s t"
proof -
  have "client_steps s (snd (get_transactions E xd txs s :: ('x option, unit) yum_batch_future \<times> sys))" for txs
    by (rule transactions.ask_steps)
  with assms show ?thesis
    by (auto simp: next_tx_def obind_eq_Ret Let_def case_prod_beta split: if_splits)
qed

lemma run_of_ts_poll [run_of]:
  assumes "ts_poll E xd clk k w st s = Ret (r, st', t)"
  shows "client_steps s t"
proof -
  obtain m st1 s1 where nxt: "next_tx E xd clk st s = Ret ((m, st1), s1)"
    using assms by (cases "next_tx E xd clk st s") (auto simp: ts_poll_def)
  have "t = s1"
  proof (cases m)
    case None
    with assms nxt show ?thesis by (simp add: ts_poll_def)
  next
    case (Some x)
    obtain born item p f where "x = (born, item)" "yf_poll w item = (p, f)"
      by (metis surj_pair)
    with Some assms nxt show ?thesis
      by (auto simp: ts_poll_def split: sum.splits async.splits option.splits)
  qed
  with nxt show ?thesis by (simp add: run_of)
qed

lemma run_of_pb_poll [run_of]:
  assumes "pb_poll w nw st s = Ret (r, st', t)"
  shows "client_steps s t"
proof -
  have "client_steps s (add_subscription i tx s)" for i tx
    by (intro r_into_rtranclp step_subscribe)
  with assms show ?thesis
    unfolding pb_poll.simps [of w nw st s]
    by (auto simp: pb_poll_subscribed split: if_splits sub_state.splits)
      (auto simp: pb_poll_subscribed split: prod.splits sum.splits async.splits option.splits)
qed

section \<open>What the streams promise\<close>

locale client_stream =
  fixes poll_of :: "'i \<Rightarrow> 'st \<Rightarrow> sys \<Rightarrow> ('r \<times> 'st \<times> sys) outcome"
    and good :: "'st \<Rightarrow> bool"
  assumes poll_returns: "good st \<Longrightarrow> \<exists>r st' s'. poll_of i st s = Ret (r, st', s') \<and> good st'"
    and poll_run: "poll_of i st s = Ret (r, st', s') \<Longrightarrow> client_steps s s'"
begin

lemma poll_total:
  "good st \<Longrightarrow> \<exists>r st' s'. poll_of i st s = Ret (r, st', s') \<and> good st' \<and> client_steps s s'"
  using poll_returns poll_run by blast

end

definition good_blocks :: "('b \<Rightarrow> u256 option) \<Rightarrow> u64 \<Rightarrow> u64 \<Rightarrow> nat \<Rightarrow> 'b block_stream \<Rightarrow> bool" where
  "good_blocks num lo hi cap st \<longleftrightarrow>
     (\<exists>ys. block_inv num lo hi cap (ys, st)) \<and> 1 \<le> cap \<and> cap < 2 ^ 64 \<and> (\<forall>b. num b \<noteq> None)"

interpretation block_polls: client_stream "\<lambda>(E, clk, t, w). bs_poll E bd num clk t w" "good_blocks num lo hi cap"
proof (unfold_locales, goal_cases)
  case (1 st i s)
  obtain E clk t w where i: "i = (E, clk, t, w)" by (cases i)
  obtain ys where inv: "block_inv num lo hi cap (ys, st)" using 1 by (auto simp: good_blocks_def)
  have "bs_poll E bd num clk t w st s \<noteq> Panic"
    using inv 1 by (intro bs_poll_total) (auto simp: good_blocks_def)
  then obtain r st' s' where poll: "bs_poll E bd num clk t w st s = Ret (r, st', s')"
    by (cases "bs_poll E bd num clk t w st s") auto
  have "set (ys @ (case r of Inr (Ready (Some b)) \<Rightarrow> [b] | _ \<Rightarrow> [])) = set ys \<union> {b. r = Inr (Ready (Some b))}"
    by (auto split: sum.splits async.splits option.splits)
  from block_inv_poll [OF inv poll this] poll 1 show ?case by (auto simp: i good_blocks_def)
next
  case (2 i st s r st' s')
  then show ?case by (auto split: prod.splits dest: run_of_bs_poll)
qed

interpretation transaction_polls: client_stream "\<lambda>(E, clk, t, w). ts_poll E xd clk t w" tx_inv
proof (unfold_locales, goal_cases)
  case (1 st i s)
  obtain E clk t w where "i = (E, clk, t, w)" by (cases i)
  with ts_poll_ok [OF 1, of E xd clk t w s] show ?case by auto
next
  case (2 i st s r st' s')
  then show ?case by (auto split: prod.splits dest: run_of_ts_poll)
qed

interpretation notification_polls: client_stream "\<lambda>(w, nw). pb_poll w nw" pb_inv
proof (unfold_locales, goal_cases)
  case (1 st i s)
  with pb_poll_ok [OF 1, of "fst i" "snd i" s] show ?case by (auto simp: case_prod_beta)
next
  case (2 i st s r st' s')
  then show ?case by (auto split: prod.splits dest: run_of_pb_poll)
qed

section \<open>A program over one client\<close>

record ('b, 'x, 't) app =
  app_blocks :: "'b block_stream"
  app_txs :: "'x transaction_stream"
  app_notes :: "'t pubsub"

datatype turn =
    PollBlocks env "nat \<Rightarrow> instant" instant world
  | PollTransactions env "nat \<Rightarrow> instant" instant world
  | PollNotifications world inbox
  | Receive rpc_lib ws_message
  | TimeoutPass int
  | SentinelPass net links
  | StatusCheck net
  | Ask env string "json list"
  | AskBatch env "(string \<times> json list) list"

text \<open>A turn may run for ever, which is \<open>None\<close>: the sentinel's wait loop watches a clock.\<close>

fun take_turn ::
  "(json \<Rightarrow> string + 'b option) \<Rightarrow> ('b \<Rightarrow> u256 option) \<Rightarrow> (json \<Rightarrow> string + 'x option) \<Rightarrow> turn \<Rightarrow>
     ('b, 'x, 't) app \<times> sys \<Rightarrow> (('b, 'x, 't) app \<times> sys) outcome option" where
  "take_turn bd num xd (PollBlocks E clk t w) (a, s) =
     Some (obind (bs_poll E bd num clk t w (app_blocks a) s) (\<lambda>(_, st, s'). Ret (a\<lparr>app_blocks := st\<rparr>, s')))"
| "take_turn bd num xd (PollTransactions E clk t w) (a, s) =
     Some (obind (ts_poll E xd clk t w (app_txs a) s) (\<lambda>(_, st, s'). Ret (a\<lparr>app_txs := st\<rparr>, s')))"
| "take_turn bd num xd (PollNotifications w nw) (a, s) =
     Some (obind (pb_poll w nw (app_notes a) s) (\<lambda>(_, st, s'). Ret (a\<lparr>app_notes := st\<rparr>, s')))"
| "take_turn bd num xd (Receive L msg) (a, s) = Some (obind (read_message L msg s) (\<lambda>s'. Ret (a, s')))"
| "take_turn bd num xd (TimeoutPass sec) (a, s) = Some (Ret (a, sweep sec s))"
| "take_turn bd num xd (SentinelPass N C) (a, s) =
     map_option (\<lambda>m. obind m (\<lambda>s'. Ret (a, s'))) (sentinel_pass N C s)"
| "take_turn bd num xd (StatusCheck N) (a, s) = Some (obind (client_is_connected N s) (\<lambda>(_, s'). Ret (a, s')))"
| "take_turn bd num xd (Ask E mth ps) (a, s) = Some (Ret (a, snd (op_request E mth ps Inr s)))"
| "take_turn bd num xd (AskBatch E calls) (a, s) =
     Some (Ret (a, snd (op_batch_request E (map (\<lambda>(mth, ps). (mth, ps, Inr)) calls) s
       :: (json, unit) yum_batch_future \<times> sys)))"

fun play ::
  "(json \<Rightarrow> string + 'b option) \<Rightarrow> ('b \<Rightarrow> u256 option) \<Rightarrow> (json \<Rightarrow> string + 'x option) \<Rightarrow> turn list \<Rightarrow>
     ('b, 'x, 't) app \<times> sys \<Rightarrow> (('b, 'x, 't) app \<times> sys) outcome option" where
  "play bd num xd [] x = Some (Ret x)"
| "play bd num xd (u # us) x =
     (case take_turn bd num xd u x of
        None \<Rightarrow> None
      | Some Panic \<Rightarrow> Some Panic
      | Some (Ret y) \<Rightarrow> play bd num xd us y)"

text \<open>
  What a turn must be spared: a control frame, which the message handler does not expect; a
  status channel dropped without an answer, on which the caller panics; and, for the sentinel,
  a clock that stands still.
\<close>

definition status_answered :: "net \<Rightarrow> bool" where
  "status_answered N \<longleftrightarrow> (\<forall>tx. status_reply N tx \<noteq> None)"

fun undisturbed :: "turn \<Rightarrow> bool" where
  "undisturbed (Receive L (MsgPing _)) = False"
| "undisturbed (Receive L (MsgPong _)) = False"
| "undisturbed (StatusCheck N) = status_answered N"
| "undisturbed (SentinelPass N C) = (status_answered N \<and> (\<forall>timeout. clocks_advance C timeout))"
| "undisturbed _ = True"

definition good_app :: "('b \<Rightarrow> u256 option) \<Rightarrow> u64 \<Rightarrow> u64 \<Rightarrow> nat \<Rightarrow> ('b, 'x, 't) app \<Rightarrow> bool" where
  "good_app num lo hi cap a \<longleftrightarrow>
     good_blocks num lo hi cap (app_blocks a) \<and> tx_inv (app_txs a) \<and> pb_inv (app_notes a)"

lemma status_check_returns:
  assumes "status_answered N"
  shows "\<exists>b t. worker_is_connected N w s = Ret (b, t)"
proof -
  obtain b where "status_reply N (next_chan s) = Some b" using assms by (auto simp: status_answered_def)
  then show ?thesis
    by (auto simp: worker_is_connected_def new_chan_def expect_def split: sum.split)
qed

lemma any_connected_returns:
  assumes "status_answered N"
  shows "\<exists>b t. any_connected N ws s = Ret (b, t)"
proof (induction ws arbitrary: s)
  case Nil
  have "any_connected N [] s = Ret (False, s)" by simp
  then show ?case by blast
next
  case (Cons w ws)
  obtain b t where "worker_is_connected N w s = Ret (b, t)" using status_check_returns [OF assms] by blast
  with Cons [of t] show ?case by auto
qed

lemma wait_reconnected_total:
  assumes "timeout < re_clock l n" and "k \<le> n" and "status_answered N"
  shows "wait_reconnected N l timeout w k s \<noteq> Some Panic"
  using assms(2)
proof (induction "n - k" arbitrary: k s)
  case 0
  with assms(1) show ?case by (subst wait_reconnected.simps) auto
next
  case (Suc m)
  then have "wait_reconnected N l timeout w (Suc k) s1 \<noteq> Some Panic" for s1 by (intro Suc.hyps(1)) auto
  with status_check_returns [OF assms(3), of w s] show ?case
    by (subst wait_reconnected.simps) (auto split: if_split_asm)
qed

lemma reconnect_total:
  assumes "clocks_advance C timeout" and "status_answered N"
  shows "reconnect N C timeout w s \<noteq> Some Panic"
proof -
  have "wait_reconnected N (C h c) timeout w' 0 s' \<noteq> Some Panic" for h c w' s'
  proof -
    obtain n where "timeout < re_clock (C h c) n" using assms(1) by (auto simp: clocks_advance_def)
    then show ?thesis using assms(2) by (rule wait_reconnected_total [OF _ le0])
  qed
  with status_check_returns [OF assms(2), of w s] show ?thesis
    by (auto simp: reconnect_def Let_def split: bool.split option.split outcome.split sum.split prod.split)
qed

lemma sentinel_workers_total:
  assumes "clocks_advance C timeout" and "status_answered N"
  shows "\<exists>ws' t. sentinel_workers N C timeout ws s = Some (Ret (ws', t))"
proof (induction ws arbitrary: s)
  case Nil
  then show ?case by simp
next
  case (Cons w ws)
  have "\<exists>r w' t. reconnect N C timeout w s1 = Some (Ret (r, w', t))" for s1
    using reconnect_returns [OF assms(1), of N w s1] reconnect_total [OF assms, of w s1]
    by (metis not_None_eq outcome.exhaust surj_pair)
  then have "\<exists>w' t. sentinel_worker N C timeout w s = Some (Ret (w', t))"
    by (fastforce simp: sentinel_worker_def new_chan_def Let_def split: sum.split)
  with Cons show ?case by fastforce
qed

lemma read_undisturbed:
  "undisturbed (Receive L msg) \<Longrightarrow> \<exists>t. read_message L msg s = Ret t"
  by (cases msg) (auto simp: read_message_def split: sum.split)

lemma turn_total:
  assumes "good_app num lo hi cap a" and "undisturbed u"
  shows "\<exists>a' s'. take_turn bd num xd u (a, s) = Some (Ret (a', s')) \<and> good_app num lo hi cap a' \<and> client_steps s s'"
proof (cases u)
  case (PollBlocks E clk t w)
  with assms(1) block_polls.poll_total [of num lo hi cap "app_blocks a" bd "(E, clk, t, w)" s] show ?thesis
    by (auto simp: good_app_def)
next
  case (PollTransactions E clk t w)
  with assms(1) transaction_polls.poll_total [of "app_txs a" xd "(E, clk, t, w)" s] show ?thesis
    by (auto simp: good_app_def)
next
  case (PollNotifications w nw)
  with assms(1) notification_polls.poll_total [of "app_notes a" "(w, nw)" s] show ?thesis
    by (auto simp: good_app_def)
next
  case (Receive L msg)
  then obtain t where "read_message L msg s = Ret t" using read_undisturbed assms(2) by blast
  with Receive assms(1) steps_read_message [of L msg s t] show ?thesis by simp
next
  case (TimeoutPass sec)
  with assms(1) steps_sweep show ?thesis by simp
next
  case (SentinelPass N C)
  then have "\<exists>t. sentinel_pass N C s = Some (Ret t)"
    using assms(2) sentinel_workers_total [of C "cl_timeout s" N "sockets s" s] by (auto simp: sentinel_pass_def)
  then obtain t where t: "sentinel_pass N C s = Some (Ret t)" by blast
  with SentinelPass assms(1) steps_sentinel_pass [OF t] show ?thesis by simp
next
  case (StatusCheck N)
  then obtain b t where t: "client_is_connected N s = Ret (b, t)"
    using assms(2) any_connected_returns by (fastforce simp: client_is_connected_def)
  then have "client_steps s t"
    using any_connected_same by (fastforce simp: client_is_connected_def same_requests_def)
  with t StatusCheck assms(1) show ?thesis by simp
next
  case (Ask E mth ps)
  with assms(1) steps_request show ?thesis by (simp add: op_request_def)
next
  case (AskBatch E calls)
  with assms(1) steps_batch_request show ?thesis by (simp add: op_batch_request_def)
qed

lemma play_total:
  assumes "list_all undisturbed us" and "good_app num lo hi cap a"
  shows "\<exists>a' s'. play bd num xd us (a, s) = Some (Ret (a', s')) \<and> good_app num lo hi cap a' \<and> client_steps s s'"
  using assms
proof (induction us arbitrary: a s)
  case Nil
  then show ?case by simp
next
  case (Cons u us)
  then obtain a1 s1 where "take_turn bd num xd u (a, s) = Some (Ret (a1, s1))" "good_app num lo hi cap a1"
    "client_steps s s1"
    using turn_total [of num lo hi cap a u bd xd s] by auto
  with Cons.IH [of a1 s1] Cons.prems(1) show ?case by (auto intro: rtranclp_trans)
qed

section \<open>From the construction of the client on\<close>

lemma run_of_subscribe [run_of]:
  assumes "subscribe E ps op s = (p, t)"
  shows "client_steps s t"
proof -
  let ?s1 = "s\<lparr>next_chan := Suc (next_chan s)\<rparr>"
  have "t = snd (op_request E ''parity_subscribe'' ps (de_usize (kodec E)) ?s1)"
    using assms by (auto simp: subscribe_def new_chan_def Let_def split: prod.splits)
  then have "client_steps ?s1 t" by (simp add: op_request_def steps_request)
  moreover have "client_step s ?s1" by (rule step_chan)
  ultimately show ?thesis by (rule converse_rtranclp_into_rtranclp [rotated])
qed

lemma subscribe_inv: "subscribe E ps op s = (p, t) \<Longrightarrow> pb_inv p"
  by (auto simp: subscribe_def new_chan_def pubsub_new_def pb_inv_def Let_def split: prod.splits)

lemma reach_steps: "reach start step s \<Longrightarrow> step\<^sup>*\<^sup>* s t \<Longrightarrow> reach start step t"
  by (erule rtranclp_induct) (auto intro: reach_step)

lemma client_new_reach:
  assumes "client_new info N C hs n timeout = Some (Ret (Inr s))"
  shows "reach client_start client_step s"
proof (rule reach_steps [OF reach_start client_new_run [OF assms]])
  show "client_start (client_empty hs timeout)" by (simp add: client_start_def client_empty_def)
qed

end
