(* ===== verification/Node_Batch.thy ===== *)
theory Node_Batch
  imports Rpc_Ops "HOL-Library.Multiset"
begin

text \<open>
  A batch of requests on its way to the node and back: the calls that \<open>batch_request\<close> puts on a
  socket, a node that answers every call of the message in an order of its own, the message
  handler that hands the answers to the channels of the requests, and the batch future that
  puts them back in the order of the requests. Everything is stated for any list of requests;
  the root theory draws the consequences for the operations of the client.
\<close>

section \<open>Permutations\<close>

lemma mset_map_perm:
  "mset ys = image_mset f M \<Longrightarrow> \<exists>p. mset p = M \<and> map f p = ys"
proof (induction ys arbitrary: M)
  case Nil
  then show ?case by (intro exI [of _ "[]"]) simp
next
  case (Cons y ys)
  then have "image_mset f M = add_mset y (mset ys)" by simp
  from msed_map_invR [OF this] obtain a M'
    where M: "M = add_mset a M'" "f a = y" "image_mset f M' = mset ys" by blast
  from Cons.IH [of M'] M(3) obtain p where "mset p = M'" "map f p = ys" by auto
  with M show ?case by (intro exI [of _ "a # p"]) simp
qed

lemma order_of_calls:
  assumes "mset ys = mset (map f [0..<n])"
  obtains p where "ys = map f p" and "distinct p" and "set p = {..<n}"
proof -
  from mset_map_perm [of ys f "mset [0..<n]"] assms obtain p where p: "mset p = mset [0..<n]" "map f p = ys"
    by (auto simp: mset_map)
  have "distinct p" using mset_eq_imp_distinct_iff [OF p(1)] by simp
  moreover have "set p = {..<n}" using mset_eq_setD [OF p(1)] by (simp add: lessThan_atLeast0)
  ultimately show thesis using that p(2) by blast
qed

lemma word_ids_inj:
  fixes i :: usize
  assumes "set p \<subseteq> {..<n}" and "n \<le> 2 ^ 64" and "distinct p"
  shows "distinct (map (\<lambda>k. i + word_of_nat k) p)"
proof -
  have "inj_on (\<lambda>k. i + word_of_nat k) (set p)"
  proof (rule inj_onI)
    fix j k
    assume jk: "j \<in> set p" "k \<in> set p" and "i + word_of_nat j = i + word_of_nat k"
    then have "unat (word_of_nat j :: usize) = unat (word_of_nat k :: usize)" by simp
    moreover have "j < 2 ^ LENGTH(64)" "k < 2 ^ LENGTH(64)" using jk assms(1,2) by auto
    ultimately show "j = k" by (simp add: unat_word_of_nat_small)
  qed
  with assms(3) show ?thesis by (simp add: distinct_map)
qed

section \<open>The calls of a batch\<close>

definition batch_call :: "usize \<Rightarrow> 't req \<Rightarrow> rpc_call" where
  "batch_call i req = (case req of (mth, ps, _) \<Rightarrow> build_request i mth ps)"

definition batch_calls :: "usize \<Rightarrow> 't req list \<Rightarrow> rpc_call list" where
  "batch_calls i reqs = map (\<lambda>k. batch_call (i + word_of_nat k) (reqs ! k)) [0..<length reqs]"

lemma register_all_calls: "fst (register_all reqs s) = batch_calls (ids s) reqs"
proof (induction reqs arbitrary: s)
  case Nil
  then show ?case by (simp add: batch_calls_def)
next
  case (Cons req reqs)
  obtain mth ps d where req: "req = (mth, ps, d)" by (cases req)
  have "fst (register_all (req # reqs) s) =
      batch_call (ids s) req # batch_calls (ids s + 1) reqs"
    using Cons.IH [of "snd (snd (register s))"]
    by (auto simp: req register_all_Cons batch_call_def split: prod.split)
  also have "\<dots> = batch_calls (ids s) (req # reqs)"
    by (simp add: batch_calls_def upt_conv_Cons map_Suc_upt [symmetric] ac_simps comp_def
        del: upt_Suc)
  finally show ?case .
qed

lemma register_all_pending:
  "length reqs \<le> 2 ^ 64 \<Longrightarrow> k < length reqs \<Longrightarrow>
     pending (snd (snd (register_all reqs s))) (ids s + word_of_nat k) = Some (next_chan s + k)"
proof (induction reqs arbitrary: s k)
  case Nil
  then show ?case by simp
next
  case (Cons req reqs)
  let ?s1 = "snd (snd (register s))"
  show ?case
  proof (cases k)
    case 0
    have "ids s \<noteq> ids ?s1 + word_of_nat j" if "j < length reqs" for j
    proof -
      have "unat (word_of_nat (Suc j) :: usize) = Suc j"
        using that Cons.prems(1) by (intro unat_word_of_nat_small) simp
      then have "(word_of_nat (Suc j) :: usize) \<noteq> 0" by (metis nat.distinct(1) unat_0)
      then show ?thesis by (simp add: add.assoc)
    qed
    then show ?thesis
      using register_all_keeps [of reqs "ids s" ?s1] 0 by (simp add: register_all_state)
  next
    case (Suc j)
    have "pending (snd (snd (register_all reqs ?s1))) (ids ?s1 + word_of_nat j) = Some (next_chan ?s1 + j)"
      using Cons.prems Suc by (intro Cons.IH) simp_all
    then show ?thesis by (simp add: register_all_state Suc add.assoc)
  qed
qed

text \<open>A batch sent over an open socket: its message, its futures, and the table while it is in flight.\<close>

definition batch_members :: "chan \<Rightarrow> 't req list \<Rightarrow> (chan \<times> 't decoder) list" where
  "batch_members c reqs = map (\<lambda>k. (c + k, snd (snd (reqs ! k)))) [0..<length reqs]"

lemma send_batch_open:
  assumes "sockets s = wk # rest" and "ws_open N (wk_tx wk)"
  shows "send L N m (snd (snd (register_all reqs s))) =
    (Inr (), (snd (snd (register_all reqs s)))\<lparr>sockets := rest @ [wk],
       trace := trace (snd (snd (register_all reqs s))) @ [Queue (wk_tx wk) m]\<rparr>)"
proof -
  have "sockets (snd (snd (register_all reqs s))) = wk # rest"
    using register_all_frame [of reqs s] assms(1) by simp
  with assms(2) show ?thesis by (simp add: send_open)
qed

lemma batch_open_futures:
  assumes "sockets s = wk # rest" and "ws_open N (wk_tx wk)"
  shows "fst (batch_request L N reqs s) = BWaiting (map batch_member (batch_members (next_chan s) reqs))"
proof -
  have "fst (batch_request L N reqs s) = BWaiting (fresh_futures (next_chan s) (map (snd \<circ> snd) reqs))"
    by (simp only: batch_request_futures send_batch_open [OF assms] prod.case sum.case)
  also have "fresh_futures (next_chan s) (map (snd \<circ> snd) reqs) =
      map batch_member (batch_members (next_chan s) reqs)"
    by (rule nth_equalityI) (simp_all add: fresh_futures_def batch_members_def batch_member_def)
  finally show ?thesis .
qed

lemma batch_open:
  assumes "sockets s = wk # rest" and "ws_open N (wk_tx wk)"
    and "length reqs \<le> 2 ^ 64" and "batch_request L N reqs s = (b, t)"
  shows "b = BWaiting (map batch_member (batch_members (next_chan s) reqs))"
    and "last (trace t) = Queue (wk_tx wk) (Text (batch_to_string L (batch_calls (ids s) reqs)))"
    and "\<And>k. k < length reqs \<Longrightarrow> pending t (ids s + word_of_nat k) = Some (next_chan s + k)"
proof -
  let ?s1 = "snd (snd (register_all reqs s))"
  let ?m = "Text (batch_to_string L (batch_calls (ids s) reqs))"
  show "b = BWaiting (map batch_member (batch_members (next_chan s) reqs))"
    using batch_open_futures [OF assms(1,2)] assms(4) by (metis fst_conv)
  have "t = snd (batch_request L N reqs s :: ('a, 'b) yum_batch_future \<times> sys)"
    using assms(4) by simp
  then have t: "t = ?s1\<lparr>sockets := rest @ [wk], trace := trace ?s1 @ [Queue (wk_tx wk) ?m]\<rparr>"
    by (simp only: batch_request_state register_all_calls send_batch_open [OF assms(1,2)] snd_conv)
  then show "last (trace t) = Queue (wk_tx wk) ?m" by simp
  from t have "pending t = pending ?s1" by simp
  then show "\<And>k. k < length reqs \<Longrightarrow> pending t (ids s + word_of_nat k) = Some (next_chan s + k)"
    using register_all_pending [of reqs _ s] assms(3) by simp
qed

section \<open>A node that answers\<close>

text \<open>
  \<open>node c\<close> is the result with which the node answers call \<open>c\<close>; its output carries the id of the
  call, as JSON-RPC 2.0 demands.
\<close>

definition node_output :: "(rpc_call \<Rightarrow> json) \<Rightarrow> rpc_call \<Rightarrow> rpc_output" where
  "node_output node c =
     (case c of MethodCall mc \<Rightarrow> OutSuccess \<lparr>success_result = node c, success_id = call_id mc\<rparr>)"

lemma node_output_call:
  "node_output node (batch_call i req) =
     OutSuccess \<lparr>success_result = node (batch_call i req), success_id = IdNum i\<rparr>"
  by (simp add: node_output_def batch_call_def build_request_def split: prod.split)

text \<open>The answers of the node on the channels of the batch.\<close>

definition node_answers :: "(rpc_call \<Rightarrow> json) \<Rightarrow> usize \<Rightarrow> chan \<Rightarrow> 't req list \<Rightarrow> nat list \<Rightarrow> event list" where
  "node_answers node i c reqs p =
     map (\<lambda>k. Answer (c + k) (Inr (node (batch_call (i + word_of_nat k) (reqs ! k))))) p"

lemma read_node_batch:
  assumes pend: "\<And>k. k < length reqs \<Longrightarrow> pending t (i + word_of_nat k) = Some (c + k)"
    and "length reqs \<le> 2 ^ 64" and p: "distinct p" "set p = {..<length reqs}"
    and "response_from_str L txt = Inr (RespBatch (map (\<lambda>k. node_output node (batch_call (i + word_of_nat k) (reqs ! k))) p))"
  shows "\<exists>v. read_message L (MsgText txt) t = Ret v \<and> trace v = trace t @ node_answers node i c reqs p"
proof -
  let ?outs = "map (\<lambda>k. node_output node (batch_call (i + word_of_nat k) (reqs ! k))) p"
  let ?js = "map (\<lambda>k. i + word_of_nat k) p" and ?cs = "map (\<lambda>k. c + k) p"
  have "read_message L (MsgText txt) t = Ret (t\<lparr>pending := without (pending t) (set ?js),
      trace := trace t @ map2 Answer ?cs (map (reply_result \<circ> reply_of L) ?outs)\<rparr>)"
  proof (rule read_batch)
    show "response_from_str L txt = Inr (RespBatch ?outs)" by (rule assms(5))
    show "map output_id ?outs = map IdNum ?js" by (simp add: output_id_def node_output_call)
    show "distinct ?js" using word_ids_inj [of p "length reqs" i] assms(2) p by simp
    show "map (pending t) ?js = map Some ?cs" using pend p(2) by simp
  qed
  moreover have "map2 Answer ?cs (map (reply_result \<circ> reply_of L) ?outs) = node_answers node i c reqs p"
    by (rule nth_equalityI) (simp_all add: node_answers_def reply_of_def Let_def node_output_call)
  ultimately show ?thesis by simp
qed

lemma batch_members_resolve:
  assumes "join_contract J view"
    and "\<And>k. k < length reqs \<Longrightarrow> w (c + k) = RxReady (Inr (ans k))"
    and "\<And>k. k < length reqs \<Longrightarrow> snd (snd (reqs ! k)) (ans k) = Inr (val k)"
  shows "batch_run J [w] (BWaiting (map batch_member (batch_members c reqs))) =
    Ret (Some (Inr (map val [0..<length reqs])))"
proof -
  let ?ms = "batch_members c reqs" and ?ans = "\<lambda>d. ans (d - c)"
  have "\<exists>xs. batch_run J [w] (BWaiting (map batch_member ?ms)) = Ret (Some (Inr xs)) \<and>
      map (\<lambda>m. snd m (?ans (fst m))) ?ms = map Inr xs"
    using assms(2,3)
    by (intro batch_resolves [OF assms(1)]) (simp_all add: batch_members_def world_ok_def list_all_iff)
  moreover have "map (\<lambda>m. snd m (?ans (fst m))) ?ms = map Inr (map val [0..<length reqs])"
    using assms(3) by (simp add: batch_members_def)
  ultimately show ?thesis by (metis map_injective inj_Inr)
qed

lemma batch_round_trip:
  assumes "sockets s = wk # rest" and "ws_open N (wk_tx wk)" and "length reqs \<le> 2 ^ 64"
    and "batch_request L N reqs s = (b, t)" and "join_contract J view"
    and dec: "\<And>k. k < length reqs \<Longrightarrow>
      snd (snd (reqs ! k)) (node (batch_call (ids s + word_of_nat k) (reqs ! k))) = Inr (val k)"
    and order: "mset order = mset (batch_calls (ids s) reqs)"
    and reply: "response_from_str L txt = Inr (RespBatch (map (node_output node) order))"
  shows "\<exists>v. read_message L (MsgText txt) t = Ret v \<and>
    (oneshot_contract (trace v) w \<longrightarrow> batch_run J [w] b = Ret (Some (Inr (map val [0..<length reqs]))))"
proof -
  note sent = batch_open [OF assms(1-4)]
  obtain p where p: "order = map (\<lambda>k. batch_call (ids s + word_of_nat k) (reqs ! k)) p" "distinct p"
    "set p = {..<length reqs}"
    using order unfolding batch_calls_def by (rule order_of_calls)
  obtain v where v: "read_message L (MsgText txt) t = Ret v"
    "trace v = trace t @ node_answers node (ids s) (next_chan s) reqs p"
    using read_node_batch [OF sent(3) assms(3) p(2,3), of L "txt" node] reply by (auto simp: p(1) comp_def)
  have "batch_run J [w] b = Ret (Some (Inr (map val [0..<length reqs])))" if "oneshot_contract (trace v) w"
  proof -
    have "w (next_chan s + k) = RxReady (Inr (node (batch_call (ids s + word_of_nat k) (reqs ! k))))"
      if "k < length reqs" for k
      using \<open>oneshot_contract (trace v) w\<close> that p(3) by (auto simp: v(2) oneshot_contract_def node_answers_def)
    with dec show ?thesis unfolding sent(1) by (intro batch_members_resolve [OF assms(5)])
  qed
  with v(1) show ?thesis by blast
qed

end
