(* ===== verification/Block_Progress.thy ===== *)
theory Block_Progress
  imports Block_Stream Node_Batch
begin

text \<open>
  Does a \<open>BlockStream\<close> (\<open>src/client/stream.rs\<close>) make progress? That depends on its capacity. With
  room for three requests or more, a stream whose requests are answered yields every block of
  its range and ends after a bounded number of polls. With room for one or two it never gets
  past its first blocks, whatever the node does.
\<close>

section \<open>What a call of next asks for\<close>

definition advance :: "'b block_stream \<Rightarrow> u64" where
  "advance st =
     word_of_nat (min (unat (bs_to st) - unat (bs_from st)) (cap_of st - length (queue st) - 1))"

definition asked :: "'b block_stream \<Rightarrow> u64 list" where
  "asked st =
     (if bs_from st = bs_to st then (if queue st = [] then missing st else [])
      else if cap_of st div 2 < length (queue st) then []
      else fill_blocks st (advance st))"

lemma unat_advance:
  "unat (advance st) = min (unat (bs_to st) - unat (bs_from st)) (cap_of st - length (queue st) - 1)"
proof -
  have "unat (bs_to st) < 2 ^ 64" using unsigned_less [of "bs_to st"] by simp
  then show ?thesis unfolding advance_def by (intro unat_word_of_nat_small) simp
qed

lemma fill_blocks_not_Nil: "bs_from st \<le> bs_from st + n \<Longrightarrow> fill_blocks st n \<noteq> []"
  by (simp add: fill_blocks_def word_le_nat_alt)

lemma advance_room:
  assumes "bs_from st \<le> bs_to st"
  shows "advance st \<le> bs_to st - bs_from st"
  using unat_advance [of st] unat_sub [OF assms] by (simp add: word_le_nat_alt)

lemma asked_mid:
  assumes "bs_from st < bs_to st"
  shows "asked st = (if cap_of st div 2 < length (queue st) then [] else fill_blocks st (advance st))"
    and "asked st = [] \<longleftrightarrow> cap_of st div 2 < length (queue st)"
proof -
  have le: "bs_from st \<le> bs_to st" using assms by simp
  show "asked st = (if cap_of st div 2 < length (queue st) then [] else fill_blocks st (advance st))"
    using assms by (auto simp: asked_def)
  with fill_blocks_not_Nil [OF word_room(3) [OF le advance_room [OF le]]]
  show "asked st = [] \<longleftrightarrow> cap_of st div 2 < length (queue st)" by simp
qed

text \<open>A call either takes the front of the queue or asks for these blocks first.\<close>

lemma next_block_asked:
  assumes inv: "block_inv num lo hi cap (ys, st)" and cap: "1 \<le> cap" "cap < 2 ^ 64"
  shows "next_block E bd clk st s =
    Ret (if asked st = [] then (pop_front st, s)
         else ask_blocks E bd clk (asked st) (if bs_from st = bs_to st then 0 else advance st) st s)"
proof (cases "bs_from st = bs_to st")
  case True
  have ne: "bs_to st \<noteq> - 1" using inv by (auto simp: block_inv_def)
  show ?thesis
  proof (cases "queue st = []")
    case empty: True
    then have "pop_front st = (None, st)" by (simp add: pop_front_def)
    with True empty ne show ?thesis by (simp add: next_block_end asked_def)
  next
    case False
    with True show ?thesis by (simp add: next_block_drain asked_def)
  qed
next
  case False
  have ne: "bs_to st \<noteq> - 1" and lt: "bs_from st < bs_to st" and st: "cap_of st = cap"
    and len: "length (queue st) \<le> cap"
    using inv cap False by (auto simp: block_inv_def)
  show ?thesis
  proof (cases "cap div 2 < length (queue st)")
    case True
    obtain h where h: "half_capacity (oc E) st = Ret h" "unat h = cap_of st div 2"
      using half_capacity_exact [of st "oc E"] cap(2) st by auto
    have "unat (word_of_nat (length (queue st)) :: usize) = length (queue st)"
      using len cap(2) by (intro unat_word_of_nat_small) simp
    with h True st have "h < word_of_nat (length (queue st))" by (simp add: word_less_nat_alt)
    with h(1) True st asked_mid(2) [OF lt] show ?thesis by (simp add: next_block_mid [OF lt ne])
  next
    case False
    obtain n where n: "unat n = min (unat (bs_to st) - unat (bs_from st)) (cap_of st - length (queue st) - 1)"
      "next_block E bd clk st s = Ret (ask_blocks E bd clk (fill_blocks st n) n st s)"
      using next_block_fill [OF lt ne, of E bd clk s] cap st False by (auto simp: not_less)
    then have "n = advance st" unfolding unat_advance [symmetric] by (rule_tac unsigned_word_eqI)
    with n(2) False st less_imp_neq [OF lt] asked_mid [OF lt] show ?thesis by simp
  qed
qed

section \<open>Room for one or two requests\<close>

definition small_inv ::
  "('b \<Rightarrow> u256 option) \<Rightarrow> u64 \<Rightarrow> u64 \<Rightarrow> nat \<Rightarrow> 'b list \<times> 'b block_stream \<Rightarrow> bool" where
  "small_inv num lo hi cap x \<longleftrightarrow>
     block_inv num lo hi cap x \<and>
     (1 \<le> cap \<and> cap \<le> 2 \<and> unat lo + cap \<le> unat hi \<longrightarrow>
        unat (bs_from (snd x)) < unat lo + cap \<and> (queue (snd x) = [] \<longrightarrow> bs_from (snd x) = lo))"

lemma small_fill:
  assumes from_st: "unat (bs_from st) < unat lo + cap" "queue st = [] \<longrightarrow> bs_from st = lo"
    and lt: "bs_from st < bs_to st" and cap: "cap_of st = cap" "1 \<le> cap" "cap \<le> 2"
    and short: "length (queue st) \<le> cap div 2"
    and ask: "ask_blocks E bd clk (fill_blocks st (advance st)) (advance st) st s = ((m, st1), s1)"
  shows "m \<noteq> None \<and> unat (bs_from st1) < unat lo + cap \<and> (queue st1 = [] \<longrightarrow> bs_from st1 = lo)"
proof -
  let ?n = "advance st"
  have le: "bs_from st \<le> bs_to st" using lt by simp
  note frame = ask_blocks_frame [OF ask]
  have len: "length (fill_blocks st ?n) = Suc (unat ?n)"
    by (rule length_fill_blocks [OF le advance_room [OF le]])
  have from1: "unat (bs_from st1) = unat (bs_from st) + unat ?n"
    unfolding frame(6) by (rule word_room(1) [OF le advance_room [OF le]])
  have n: "unat ?n \<le> cap - length (queue st) - 1" using unat_advance [of st] cap(1) by simp
  have q1: "length (queue st1) = length (queue st) + unat ?n" using frame(7) len by simp
  have m: "m \<noteq> None" using frame(8) len by auto
  show ?thesis
  proof (cases "queue st")
    case Nil
    with from_st(2) have lo: "bs_from st = lo" by simp
    have "bs_from st1 = lo" if "queue st1 = []"
      using that q1 from1 lo Nil by (auto intro: unsigned_word_eqI)
    with m from1 n lo Nil cap(2) show ?thesis by auto
  next
    case (Cons x xs)
    then have "1 \<le> length (queue st)" by simp
    with short cap(3) have "length (queue st) = 1" "cap = 2" by linarith+
    with n have "unat ?n = 0" by simp
    with m from1 from_st(1) q1 Cons show ?thesis by auto
  qed
qed

lemma small_next:
  assumes inv: "small_inv num lo hi cap (ys, st)" and small: "1 \<le> cap" "cap \<le> 2" "unat lo + cap \<le> unat hi"
    and nxt: "next_block E bd clk st s = Ret ((m, st1), s1)"
  shows "m \<noteq> None \<and> unat (bs_from st1) < unat lo + cap \<and> (queue st1 = [] \<longrightarrow> bs_from st1 = lo)"
proof -
  have st: "block_inv num lo hi cap (ys, st)" "unat (bs_from st) < unat lo + cap"
    "queue st = [] \<longrightarrow> bs_from st = lo"
    using inv small by (auto simp: small_inv_def)
  have to: "bs_to st = hi" "cap_of st = cap" "lo \<le> bs_from st" using st(1) by (auto simp: block_inv_def)
  have lt: "bs_from st < bs_to st" using st(2) small(3) to(1) by (simp add: word_less_nat_alt)
  note eq = next_block_asked [OF st(1) small(1), of E bd clk s]
  show ?thesis
  proof (cases "asked st = []")
    case True
    then have long: "cap div 2 < length (queue st)" using asked_mid(2) [OF lt] to(2) by simp
    have pop: "(m, st1) = pop_front st" using eq True nxt small(2) by simp
    have "bs_from st = lo" if "tl (queue st) = []"
    proof -
      have "length (queue st) \<le> 1" using that by (cases "queue st") auto
      with long small have "cap = 1" by linarith
      with st(2) to(3) have "unat (bs_from st) = unat lo" by (simp add: word_le_nat_alt)
      then show ?thesis by (rule unsigned_word_eqI)
    qed
    moreover have "queue st \<noteq> []" using long by auto
    ultimately show ?thesis
      using pop st(2) by (metis fst_conv snd_conv pop_front_frame(2,8,9))
  next
    case False
    then have ask: "asked st = fill_blocks st (advance st)" and short: "length (queue st) \<le> cap div 2"
      using asked_mid [OF lt] to(2) by (auto simp: not_less)
    have "ask_blocks E bd clk (fill_blocks st (advance st)) (advance st) st s = ((m, st1), s1)"
      using eq False nxt small(2) less_imp_neq [OF lt] ask by simp
    with st(2,3) lt to(2) small(1,2) short show ?thesis by (rule small_fill)
  qed
qed

lemma small_poll:
  assumes inv: "small_inv num lo hi cap (ys, st)" and poll: "bs_poll E bd num clk t w st s = Ret (r, st', s')"
    and small: "1 \<le> cap" "cap \<le> 2" "unat lo + cap \<le> unat hi"
  shows "unat (bs_from st') < unat lo + cap \<and> (queue st' = [] \<longrightarrow> bs_from st' = lo) \<and> r \<noteq> Inr (Ready None)"
proof -
  obtain m st1 where "next_block E bd clk st s = Ret ((m, st1), s')" and ok: "poll_ok num m st1 r st'"
    using bs_poll_ok [OF poll] by blast
  from small_next [OF inv small this(1)] ok show ?thesis by (auto simp: poll_ok_def)
qed

interpretation small: inductive_invariant "block_start lo hi cap" "block_poll bd num" "small_inv num lo hi cap"
proof
  fix x :: "'a list \<times> 'a block_stream"
  assume start: "block_start lo hi cap x"
  then have "block_inv num lo hi cap x" by (rule bstream.inv_start)
  with start show "small_inv num lo hi cap x"
    by (auto simp: small_inv_def block_start_def block_stream_with_options_def)
next
  fix x y
  assume inv: "small_inv num lo hi cap x" and step: "block_poll bd num x y"
  then have "block_inv num lo hi cap y" by (auto simp: small_inv_def intro: bstream.inv_step)
  moreover from step obtain ys st E clk t w s r s' where "x = (ys, st)"
    and "bs_poll E bd num clk t w st s = Ret (r, snd y, s')"
    by (cases rule: block_poll.cases) auto
  ultimately show "small_inv num lo hi cap y"
    using small_poll [OF inv [unfolded \<open>x = (ys, st)\<close>]] unfolding small_inv_def by blast
qed

section \<open>Room for three requests or more\<close>

text \<open>
  A poll that finds everything in order: a worker accepts messages, every request in flight
  has been answered, and the channels of the blocks that this poll asks for will carry these
  blocks. \<open>ans c\<close> is the answer on channel \<open>c\<close> and \<open>blk n\<close> the block with number \<open>n\<close>.
\<close>

type_synonym block_input = "env \<times> (nat \<Rightarrow> instant) \<times> instant \<times> world \<times> sys"

definition served ::
  "(json \<Rightarrow> string + 'b option) \<Rightarrow> (u64 \<Rightarrow> 'b) \<Rightarrow> (chan \<Rightarrow> json) \<Rightarrow> block_input \<Rightarrow> 'b block_stream \<Rightarrow> bool" where
  "served bd blk ans x st \<longleftrightarrow>
     (case x of (E, clk, t, w, s) \<Rightarrow>
        (\<exists>wk rest. sockets s = wk # rest \<and> ws_open (netw E) (wk_tx wk)) \<and>
        (\<forall>c. w c = RxReady (Inr (ans c))) \<and>
        (\<forall>k < length (asked st). bd (ans (next_chan s + k)) = Inr (Some (blk (asked st ! k)))))"

text \<open>The results of successive polls, up to the end of the stream.\<close>

fun bs_run ::
  "(json \<Rightarrow> string + 'b option) \<Rightarrow> ('b \<Rightarrow> u256 option) \<Rightarrow> block_input list \<Rightarrow> 'b block_stream \<Rightarrow>
     'b option poll list outcome" where
  "bs_run bd num [] st = Ret []"
| "bs_run bd num ((E, clk, t, w, s) # ins) st =
     obind (bs_poll E bd num clk t w st s) (\<lambda>(r, st', _).
       if r = Inr (Ready None) then Ret [r] else obind (bs_run bd num ins st') (\<lambda>rs. Ret (r # rs)))"

fun served_run ::
  "(json \<Rightarrow> string + 'b option) \<Rightarrow> ('b \<Rightarrow> u256 option) \<Rightarrow> (u64 \<Rightarrow> 'b) \<Rightarrow> (chan \<Rightarrow> json) \<Rightarrow>
     block_input list \<Rightarrow> 'b block_stream \<Rightarrow> bool" where
  "served_run bd num blk ans [] st \<longleftrightarrow> True"
| "served_run bd num blk ans ((E, clk, t, w, s) # ins) st \<longleftrightarrow>
     served bd blk ans (E, clk, t, w, s) st \<and>
     (case bs_poll E bd num clk t w st s of
        Panic \<Rightarrow> True
      | Ret (_, st', _) \<Rightarrow> served_run bd num blk ans ins st')"

text \<open>
  The numbers \<open>g\<close> of the requests in the queue; every block up to the cursor has been yielded or
  is in the queue.
\<close>

definition carries :: "(json \<Rightarrow> string + 'b option) \<Rightarrow> (u64 \<Rightarrow> 'b) \<Rightarrow> (chan \<Rightarrow> json) \<Rightarrow> u64 \<Rightarrow> 'b item \<Rightarrow> bool" where
  "carries bd blk ans n x \<longleftrightarrow> (\<exists>c. snd x = FWaitingFn c (de bd) \<and> bd (ans c) = Inr (Some (blk n)))"

definition on_track ::
  "(json \<Rightarrow> string + 'b option) \<Rightarrow> ('b \<Rightarrow> u256 option) \<Rightarrow> (u64 \<Rightarrow> 'b) \<Rightarrow> (chan \<Rightarrow> json) \<Rightarrow> u64 \<Rightarrow> u64 \<Rightarrow> nat \<Rightarrow>
     'b list \<Rightarrow> u64 list \<Rightarrow> 'b block_stream \<Rightarrow> bool" where
  "on_track bd num blk ans lo hi cap ys g st \<longleftrightarrow>
     block_inv num lo hi cap (ys, st) \<and> list_all2 (carries bd blk ans) g (queue st) \<and>
     set g \<subseteq> {lo..hi} \<and> completed st \<subseteq> {lo..hi} \<and>
     (bs_from st \<noteq> lo \<longrightarrow> {lo..bs_from st} \<subseteq> completed st \<union> set g) \<and>
     (bs_from st = lo \<longrightarrow> queue st = [])"

text \<open>An upper bound for the number of polls before the end.\<close>

definition left_over :: "u64 \<Rightarrow> u64 \<Rightarrow> 'b block_stream \<Rightarrow> nat" where
  "left_over lo hi st = 2 * (unat hi - unat (bs_from st)) + length (queue st) +
     (if lo = hi \<and> lo \<notin> completed st then 1 else 0)"

lemma set_missing:
  assumes "bs_to st \<noteq> - 1"
  shows "set (missing st) = {start_block st..bs_to st} - completed st"
proof -
  have "x < bs_to st + 1 \<longleftrightarrow> x \<le> bs_to st" for x
    unfolding word_less_nat_alt word_le_nat_alt plus_one_no_overflow(2) [OF assms] by (rule less_Suc_eq_le)
  then have "set (word_range (start_block st) (bs_to st + 1)) = {start_block st..bs_to st}"
    by (simp add: set_word_range atLeastAtMost_def atLeast_def atMost_def Collect_conj_eq)
  then show ?thesis by (simp only: missing_def set_filter) blast
qed

lemma set_fill_blocks: "set (fill_blocks st n) = {bs_from st..bs_from st + n}"
proof (rule set_eqI)
  fix x
  have "x \<in> set (fill_blocks st n) \<longleftrightarrow> unat x \<in> set (map unat (fill_blocks st n))"
    by (simp add: inj_image_mem_iff [OF inj_unsigned])
  then show "x \<in> set (fill_blocks st n) \<longleftrightarrow> x \<in> {bs_from st..bs_from st + n}"
    by (simp add: unat_fill_blocks word_le_nat_alt less_Suc_eq_le del: upt_Suc)
qed

text \<open>The queue after asking: the requests in it carry the numbers asked for.\<close>

lemma served_queue:
  fixes bd :: "json \<Rightarrow> string + 'b option"
  assumes "served bd blk ans (E, clk, t, w, s) st" and "list_all2 (carries bd blk ans) g (queue st)"
    and "ask_blocks E bd clk (asked st) n st s = ((m, st1), s1)"
  shows "\<exists>q. (m, st1) = pop_front (st\<lparr>queue := q, bs_from := bs_from st + n\<rparr>) \<and>
    list_all2 (carries bd blk ans) (g @ asked st) q"
proof -
  let ?reqs = "map (\<lambda>n. block_req E bd (bs_with_tx st) (Number n)) (asked st)"
  let ?ms = "batch_members (next_chan s) ?reqs"
  let ?b = "get_blocks E bd (bs_with_tx st) (asked st) s :: ('b option, unit) yum_batch_future \<times> sys"
  let ?q = "queue st @ zip (map clk [0..<length (asked st)]) (map batch_member ?ms)"
  obtain wk rest where "sockets s = wk # rest" "ws_open (netw E) (wk_tx wk)"
    using assms(1) by (auto simp: served_def)
  then have "fst ?b = BWaiting (map batch_member ?ms)"
    by (simp add: get_blocks_def get_blocks_named_def op_batch_request_def comp_def batch_open_futures)
  moreover have len: "length ?ms = length (asked st)" by (simp add: batch_members_def)
  ultimately have "(m, st1) = pop_front (st\<lparr>queue := ?q, bs_from := bs_from st + n\<rparr>)"
    using assms(3) by (simp add: ask_blocks_def enqueue_def case_prod_beta)
  moreover have "list_all2 (carries bd blk ans) (asked st) (zip (map clk [0..<length (asked st)]) (map batch_member ?ms))"
    using assms(1) len
    by (auto simp: list_all2_conv_all_nth carries_def batch_members_def batch_member_def block_req_def served_def)
  ultimately show ?thesis using assms(2) by (blast intro: list_all2_appendI)
qed

text \<open>The three ways to go on: take from the queue, refill it, or ask for the only block.\<close>

lemma asked_cases:
  assumes track: "on_track bd num blk ans lo hi cap ys g st" and cap: "3 \<le> cap" "cap < 2 ^ 64"
  obtains (take) "asked st = []"
  | (fill) "bs_from st < hi" "asked st = fill_blocks st (advance st)" "1 \<le> unat (advance st)"
  | (single) "lo = hi" "bs_from st = lo" "queue st = []" "asked st = [lo]" "completed st = {}"
proof -
  have inv: "hi \<noteq> - 1" "bs_to st = hi" "start_block st = lo" "cap_of st = cap" "bs_from st \<le> hi"
    using track by (auto simp: on_track_def block_inv_def)
  consider "asked st = []" | "asked st \<noteq> []" "bs_from st < hi" | "asked st \<noteq> []" "bs_from st = hi"
    using inv(5) by fastforce
  then show thesis
  proof cases
    case 2
    have lt: "bs_from st < bs_to st" using 2(2) inv(2) by simp
    have ask: "asked st = fill_blocks st (advance st)" and short: "length (queue st) \<le> cap div 2"
      using asked_mid [OF lt] 2(1) inv(4) by (auto simp: not_less)
    have "1 \<le> cap - length (queue st) - 1" using short cap(1) by linarith
    moreover have "1 \<le> unat hi - unat (bs_from st)" using 2(2) by (simp add: word_less_nat_alt)
    ultimately have "1 \<le> unat (advance st)" using unat_advance [of st] inv(2,4) by simp
    with 2(2) ask show thesis by (rule fill)
  next
    case 3
    then have ask: "asked st = missing st" and q: "queue st = []"
      using inv(2) by (auto simp: asked_def split: if_splits)
    have set: "set (asked st) = {lo..hi} - completed st"
      using set_missing [of st] inv ask by simp
    have "g = []" using track q by (simp add: on_track_def)
    with track 3(2) have "lo \<noteq> hi \<Longrightarrow> {lo..hi} \<subseteq> completed st" by (auto simp: on_track_def)
    with set 3(1) have lo: "lo = hi" by (metis Diff_eq_empty_iff set_empty)
    have "completed st \<subseteq> {lo}" using track lo by (auto simp: on_track_def)
    with set 3(1) lo have comp: "completed st = {}" by auto
    have "distinct (asked st)" by (simp add: ask missing_def distinct_word_range)
    moreover have only: "set (asked st) = {lo}" using set lo comp by simp
    ultimately have "length (asked st) = 1" using distinct_card [of "asked st"] by simp
    then obtain x where "asked st = [x]" by (cases "asked st") auto
    with only have "asked st = [lo]" by simp
    with lo 3(2) q comp show thesis by (intro single) simp_all
  qed (rule take)
qed

text \<open>What asking does to the bookkeeping.\<close>

definition cursor :: "'b block_stream \<Rightarrow> u64" where
  "cursor st = (if asked st = [] \<or> bs_from st = bs_to st then bs_from st else bs_from st + advance st)"

lemma fill_track:
  assumes inv: "bs_to st = hi" "lo \<le> bs_from st" and lt: "bs_from st < hi"
    and ask: "asked st = fill_blocks st (advance st)" "1 \<le> unat (advance st)"
    and cover: "bs_from st \<noteq> lo \<longrightarrow> {lo..bs_from st} \<subseteq> fin"
  shows "cursor st \<noteq> lo" and "set (asked st) \<subseteq> {lo..hi}" and "{lo..cursor st} \<subseteq> fin \<union> set (asked st)"
    and "2 * (unat hi - unat (cursor st)) + length (asked st) \<le> 2 * (unat hi - unat (bs_from st))"
proof -
  let ?n = "advance st"
  have le: "bs_from st \<le> bs_to st" using lt inv(1) by simp
  note room = advance_room [OF le]
  note step = word_room [OF le room]
  have "asked st \<noteq> []" using ask(1) fill_blocks_not_Nil [OF step(3)] by simp
  then have cur: "cursor st = bs_from st + ?n" using lt inv(1) by (auto simp: cursor_def)
  have set: "set (asked st) = {bs_from st..cursor st}" using ask(1) cur by (simp add: set_fill_blocks)
  show "cursor st \<noteq> lo" using step(1) ask(2) inv(2) cur by (auto simp: word_le_nat_alt)
  show "set (asked st) \<subseteq> {lo..hi}"
    using set cur step(2) inv by (auto intro: order_trans)
  show "{lo..cursor st} \<subseteq> fin \<union> set (asked st)"
  proof (cases "bs_from st = lo")
    case False
    have "{lo..cursor st} \<subseteq> {lo..bs_from st} \<union> {bs_from st..cursor st}" by auto
    with False cover set show ?thesis by blast
  qed (use set in auto)
  have "length (asked st) = Suc (unat ?n)" using ask(1) length_fill_blocks [OF le room] by simp
  then show "2 * (unat hi - unat (cursor st)) + length (asked st) \<le> 2 * (unat hi - unat (bs_from st))"
    using step(1,2) ask(2) cur inv(1) by (simp add: word_le_nat_alt)
qed

lemma asked_track:
  assumes track: "on_track bd num blk ans lo hi cap ys g st" and cap: "3 \<le> cap" "cap < 2 ^ 64"
    and ne: "g @ asked st = n # g'" and c: "c = insert n (completed st)"
  shows "set (g @ asked st) \<subseteq> {lo..hi} \<and>
    (cursor st \<noteq> lo \<longrightarrow> {lo..cursor st} \<subseteq> c \<union> set g') \<and> (cursor st = lo \<longrightarrow> g' = []) \<and>
    2 * (unat hi - unat (cursor st)) + length g' + (if lo = hi \<and> lo \<notin> c then 1 else 0) < left_over lo hi st"
proof -
  have inv: "bs_to st = hi" "lo \<le> bs_from st" "bs_from st \<le> hi" and g: "length g = length (queue st)"
    "set g \<subseteq> {lo..hi}" "bs_from st \<noteq> lo \<longrightarrow> {lo..bs_from st} \<subseteq> completed st \<union> set g"
    "bs_from st = lo \<longrightarrow> queue st = []"
    using track by (auto simp: on_track_def block_inv_def dest: list_all2_lengthD)
  have all: "c \<union> set g' = completed st \<union> set (g @ asked st)" unfolding ne c by auto
  have len: "Suc (length g') = length g + length (asked st)" using arg_cong [OF ne, of length] by simp
  show ?thesis
    using track cap
  proof (cases rule: asked_cases)
    case take
    then have cur: "cursor st = bs_from st" by (simp add: cursor_def)
    have "g \<noteq> []" using take ne by auto
    then have "cursor st \<noteq> lo" using g(1,4) cur by auto
    moreover have "{lo..bs_from st} \<subseteq> c \<union> set g'" if "bs_from st \<noteq> lo"
      unfolding all using g(3) that by auto
    moreover have "Suc (length g') = length (queue st)" using len take g(1) by simp
    moreover have "lo \<notin> c \<Longrightarrow> lo \<notin> completed st" by (simp add: c)
    ultimately show ?thesis using take g(2) cur by (auto simp: left_over_def)
  next
    case fill
    note fill' = fill_track [OF inv(1,2) fill g(3)]
    have "lo \<noteq> hi" using fill(1) inv(2) by auto
    with fill' g(1,2) len show ?thesis unfolding all by (auto simp: left_over_def)
  next
    case single
    then have "g = []" using g(1) by simp
    with single ne have "n = lo" "g' = []" by auto
    with single c inv(1) \<open>g = []\<close> show ?thesis
      by (simp add: cursor_def left_over_def)
  qed
qed

text \<open>The state of the stream after a call of \<open>next\<close> on a poll that is served.\<close>

lemma served_next:
  assumes track: "on_track bd num blk ans lo hi cap ys g st" and cap: "3 \<le> cap" "cap < 2 ^ 64"
    and ok: "served bd blk ans (E, clk, t, w, s) st"
  shows "\<exists>q s1. next_block E bd clk st s = Ret (pop_front (st\<lparr>queue := q, bs_from := cursor st\<rparr>), s1) \<and>
    (asked st = [] \<longrightarrow> s1 = s \<and> q = queue st) \<and> list_all2 (carries bd blk ans) (g @ asked st) q"
proof -
  have inv: "block_inv num lo hi cap (ys, st)" and g: "list_all2 (carries bd blk ans) g (queue st)"
    using track by (simp_all add: on_track_def)
  have eq: "next_block E bd clk st s = Ret (if asked st = [] then (pop_front st, s)
      else ask_blocks E bd clk (asked st) (if bs_from st = bs_to st then 0 else advance st) st s)"
    using inv cap by (intro next_block_asked) simp_all
  show ?thesis
  proof (cases "asked st = []")
    case True
    have "st\<lparr>queue := queue st, bs_from := bs_from st\<rparr> = st" by simp
    with True eq g show ?thesis by (intro exI [of _ "queue st"] exI [of _ s]) (simp add: cursor_def)
  next
    case False
    let ?n = "if bs_from st = bs_to st then 0 else advance st"
    obtain m st1 s1 where ask: "ask_blocks E bd clk (asked st) ?n st s = ((m, st1), s1)"
      by (metis surj_pair)
    have "bs_from st + ?n = cursor st" using False by (simp add: cursor_def)
    with served_queue [OF ok g ask] eq False ask show ?thesis by auto
  qed
qed

lemma served_item:
  assumes "carries bd blk ans n x" and "\<forall>c. w c = RxReady (Inr (ans c))"
  shows "\<exists>f. yf_poll w (snd x) = (Inr (Ready (Some (blk n))), f)"
  using assms by (auto simp: carries_def de_def)

lemma served_poll:
  assumes track: "on_track bd num blk ans lo hi cap ys g st" and cap: "3 \<le> cap" "cap < 2 ^ 64"
    and num: "\<forall>n. map_option low_u64 (num (blk n)) = Some n"
    and ok: "served bd blk ans (E, clk, t, w, s) st" and ne: "g @ asked st = n # g'"
  shows "\<exists>st' s'. bs_poll E bd num clk t w st s = Ret (Inr (Ready (Some (blk n))), st', s') \<and>
    n \<in> {lo..hi} \<and> completed st' = insert n (completed st) \<and>
    on_track bd num blk ans lo hi cap (ys @ [blk n]) g' st' \<and> left_over lo hi st' < left_over lo hi st"
proof -
  obtain q s1 where nxt: "next_block E bd clk st s = Ret (pop_front (st\<lparr>queue := q, bs_from := cursor st\<rparr>), s1)"
    and q: "list_all2 (carries bd blk ans) (n # g') q"
    using served_next [OF track cap ok] ne by auto
  then obtain x q' where q': "q = x # q'" "carries bd blk ans n x" "list_all2 (carries bd blk ans) g' q'"
    by (auto simp: list_all2_Cons1)
  obtain f where yf: "yf_poll w (snd x) = (Inr (Ready (Some (blk n))), f)"
    using served_item [OF q'(2), of w] ok by (auto simp only: served_def prod.case)
  obtain m where m: "num (blk n) = Some m" "low_u64 m = n"
    using num by (cases "num (blk n)") (auto dest: spec [where x = n])
  let ?st' = "st\<lparr>queue := q', bs_from := cursor st, completed := insert n (completed st)\<rparr>"
  have poll: "bs_poll E bd num clk t w st s = Ret (Inr (Ready (Some (blk n))), ?st', s1)"
    using nxt yf m q'(1) by (cases x) (simp add: bs_poll_def pop_front_def)
  have "block_inv num lo hi cap (ys @ [blk n], ?st')"
    using track by (intro block_inv_poll [OF _ poll]) (auto simp: on_track_def)
  moreover have "set g' \<subseteq> {lo..hi}" "n \<in> {lo..hi}"
    "bs_from ?st' \<noteq> lo \<longrightarrow> {lo..bs_from ?st'} \<subseteq> completed ?st' \<union> set g'" "bs_from ?st' = lo \<longrightarrow> queue ?st' = []"
    "left_over lo hi ?st' < left_over lo hi st"
    using asked_track [OF track cap ne refl] q'(3) ne by (auto simp: left_over_def list_all2_lengthD)
  moreover have "completed st \<subseteq> {lo..hi}" using track by (simp add: on_track_def)
  ultimately have "on_track bd num blk ans lo hi cap (ys @ [blk n]) g' ?st'"
    using q'(3) by (simp add: on_track_def)
  with poll \<open>n \<in> {lo..hi}\<close> \<open>left_over lo hi ?st' < left_over lo hi st\<close> show ?thesis by simp
qed

lemma served_last_poll:
  assumes track: "on_track bd num blk ans lo hi cap ys g st" and cap: "3 \<le> cap" "cap < 2 ^ 64"
    and ok: "served bd blk ans (E, clk, t, w, s) st" and ne: "g @ asked st = []"
  shows "bs_poll E bd num clk t w st s = Ret (Inr (Ready None), st, s) \<and> completed st = {lo..hi}"
proof -
  have inv: "hi \<noteq> - 1" "bs_to st = hi" "start_block st = lo" "bs_from st \<le> hi"
    and q: "queue st = []" and sub: "completed st \<subseteq> {lo..hi}"
    using track ne by (auto simp: on_track_def block_inv_def)
  have "\<not> bs_from st < hi" using asked_mid(2) [of st] ne q inv(2) by auto
  then have "bs_from st = bs_to st" using inv by simp
  then have "missing st = []" using ne q by (simp add: asked_def)
  with set_missing [of st] inv sub have "completed st = {lo..hi}" by auto
  moreover have "next_block E bd clk st s = Ret ((None, st), s)"
    using \<open>bs_from st = bs_to st\<close> \<open>missing st = []\<close> q inv by (simp add: next_block_end)
  ultimately show ?thesis by (simp add: bs_poll_def)
qed

lemma served_run_ends:
  assumes cap: "3 \<le> cap" "cap < 2 ^ 64" and num: "\<forall>n. map_option low_u64 (num (blk n)) = Some n"
  shows "on_track bd num blk ans lo hi cap ys g st \<Longrightarrow> served_run bd num blk ans ins st \<Longrightarrow>
    left_over lo hi st < length ins \<Longrightarrow>
    \<exists>ns. bs_run bd num ins st = Ret (map (\<lambda>n. Inr (Ready (Some (blk n)))) ns @ [Inr (Ready None)]) \<and>
      completed st \<union> set ns = {lo..hi} \<and> length ns \<le> left_over lo hi st"
proof (induction ins arbitrary: ys g st)
  case Nil
  then show ?case by simp
next
  case (Cons i ins)
  obtain E clk t w s where i: "i = (E, clk, t, w, s)" by (cases i)
  have ok: "served bd blk ans (E, clk, t, w, s) st" using Cons.prems(2) by (simp add: i)
  show ?case
  proof (cases "g @ asked st")
    case Nil
    from served_last_poll [OF Cons.prems(1) cap ok Nil] show ?thesis
      by (intro exI [of _ "[]"]) (simp add: i)
  next
    case (Cons n g')
    obtain st' s' where poll: "bs_poll E bd num clk t w st s = Ret (Inr (Ready (Some (blk n))), st', s')"
      and st': "n \<in> {lo..hi}" "completed st' = insert n (completed st)"
        "on_track bd num blk ans lo hi cap (ys @ [blk n]) g' st'" "left_over lo hi st' < left_over lo hi st"
      using served_poll [OF Cons.prems(1) cap num ok Cons] by blast
    have "served_run bd num blk ans ins st'" using Cons.prems(2) poll by (simp add: i)
    moreover have "left_over lo hi st' < length ins" using Cons.prems(3) st'(4) by simp
    ultimately obtain ns where
      "bs_run bd num ins st' = Ret (map (\<lambda>n. Inr (Ready (Some (blk n)))) ns @ [Inr (Ready None)])"
      "completed st' \<union> set ns = {lo..hi}" "length ns \<le> left_over lo hi st'"
      using Cons.IH [OF st'(3)] by blast
    with poll st' show ?thesis by (intro exI [of _ "n # ns"]) (auto simp: i)
  qed
qed

section \<open>Properties\<close>

text \<open>
  C9: A block stream ends. Take a stream over \<open>lo\<close> to \<open>hi\<close> (\<open>lo\<close> not above \<open>hi\<close>, \<open>hi\<close> below the
  largest \<open>u64\<close>) with room for at least three requests (and fewer than \<open>2 ^ 64\<close>), and poll it while a worker accepts messages and every request in flight has been answered
  with the block it asked for when it is looked at. Then no poll panics or fails, every poll
  yields a block of the range until all of them have been yielded, and the stream ends, after
  at most \<open>2 * (hi - lo) + 1\<close> blocks (a block at the end of a batch is yielded twice).
\<close>

theorem block_stream_ends:
  assumes "lo \<le> hi" and "hi \<noteq> - 1" and "3 \<le> unat buffer * unat batch" and "unat buffer * unat batch < 2 ^ 64"
    and "\<forall>n. map_option low_u64 (num (blk n)) = Some n"
    and "served_run bd num blk ans ins (block_stream_with_options lo hi tx batch buffer)"
    and "2 * (unat hi - unat lo) + 1 < length ins"
  shows "\<exists>ns. bs_run bd num ins (block_stream_with_options lo hi tx batch buffer) =
      Ret (map (\<lambda>n. Inr (Ready (Some (blk n)))) ns @ [Inr (Ready None)]) \<and>
    set ns = {lo..hi} \<and> length ns \<le> 2 * (unat hi - unat lo) + 1"
proof -
  let ?st = "block_stream_with_options lo hi tx batch buffer :: 'a block_stream"
  have "block_start lo hi (unat buffer * unat batch) ([], ?st)"
    using assms(1,2) unfolding block_start_def by blast
  then have "block_inv num lo hi (unat buffer * unat batch) ([], ?st)" by (rule bstream.inv_start)
  then have track: "on_track bd num blk ans lo hi (unat buffer * unat batch) [] [] ?st"
    by (simp add: on_track_def block_stream_with_options_def)
  have left: "left_over lo hi ?st \<le> 2 * (unat hi - unat lo) + 1"
    and comp: "completed ?st = {}"
    by (simp_all add: left_over_def block_stream_with_options_def)
  then have "left_over lo hi ?st < length ins" using assms(7) by simp
  from served_run_ends [OF assms(3,4,5) track assms(6) this] left comp show ?thesis
    by (auto intro: order_trans)
qed

theorem block_stream_ends_witness:
  "let ins = replicate 2 (demo_env, \<lambda>_. 0, 0, demo_answer, demo_sys) in
   served_run demo_block Some ucast (\<lambda>_. JNull) ins demo_stream \<and>
   (\<exists>ns. bs_run demo_block Some ins demo_stream =
      Ret (map (\<lambda>n. Inr (Ready (Some (ucast n)))) ns @ [Inr (Ready None)]) \<and> set ns = {5 :: u64})"
proof -
  let ?i = "(demo_env, \<lambda>_. 0, 0, demo_answer, demo_sys) :: block_input"
  have low: "map_option low_u64 (Some (ucast n)) = Some n" for n :: u64
    by (simp add: low_u64_def ucast_up_ucast_id is_up)
  have ask: "asked demo_stream = [5]" "asked (demo_stream\<lparr>completed := {5}\<rparr>) = []"
    by (simp_all add: asked_def missing_def demo_stream_def block_stream_with_options_def word_range_def)
  have sv: "served demo_block ucast (\<lambda>_. JNull) ?i demo_stream"
    "served demo_block ucast (\<lambda>_. JNull) ?i (demo_stream\<lparr>completed := {5}\<rparr>)"
    by (simp_all add: served_def ask demo_answer_def demo_sys_def demo_env_def demo_net_def demo_block_def)
  obtain s' where "bs_poll demo_env demo_block Some (\<lambda>_. 0) 0 demo_answer demo_stream demo_sys =
      Ret (Inr (Ready (Some 5)), demo_stream\<lparr>completed := {5}\<rparr>, s')"
    using demo_first_poll by blast
  with sv demo_last_poll have run: "served_run demo_block Some ucast (\<lambda>_. JNull) (replicate 2 ?i) demo_stream"
    by (simp add: numeral_2_eq_2)
  have "unat (5 :: u64) * unat (10 :: u64) = 50" by simp
  with run low have "\<exists>ns. bs_run demo_block Some (replicate 2 ?i) demo_stream =
      Ret (map (\<lambda>n. Inr (Ready (Some (ucast n)))) ns @ [Inr (Ready None)]) \<and> set ns = {5 :: u64..5} \<and>
      length ns \<le> 2 * (unat (5 :: u64) - unat (5 :: u64)) + 1"
    unfolding demo_stream_def by (intro block_stream_ends) simp_all
  with run show ?thesis by (simp add: Let_def) blast
qed

text \<open>
  C38: A stream with room for one or two requests never gets past its first blocks. If its batch
  and buffer sizes multiply to one or two and the range has more blocks than that (and ends below the
  largest \<open>u64\<close>), then no poll moves the cursor further than the first one or two blocks and no poll ever ends the
  stream, whatever the node does: the same block is requested over and over.
\<close>

theorem small_capacity_never_ends:
  assumes "reach (block_start lo hi cap) (block_poll bd num) (ys, st)"
    and "1 \<le> cap" and "cap \<le> 2" and "unat lo + cap \<le> unat hi"
    and "bs_poll E bd num clk t w st s = Ret (r, st', s')"
  shows "unat (bs_from st') < unat lo + cap \<and> r \<noteq> Inr (Ready None)"
  using small_poll [OF small.inv_reach [OF assms(1)] assms(5,2-4)] by blast

theorem small_capacity_never_ends_witness:
  "\<exists>r st' s'. bs_poll demo_env demo_block Some (\<lambda>_. 0) 0 demo_answer
      (block_stream_with_options 0 9 True 1 2) demo_sys = Ret (r, st', s') \<and>
    unat (bs_from st') < 2 \<and> r \<noteq> Inr (Ready None)"
proof -
  let ?st = "block_stream_with_options 0 9 True 1 2 :: u256 block_stream"
  let ?p = "bs_poll demo_env demo_block Some (\<lambda>_. 0) 0 demo_answer ?st demo_sys"
  have "unat (2 :: u64) * unat (1 :: u64) = 2" by simp
  then have "block_start 0 9 2 ([], ?st)" unfolding block_start_def by fastforce
  then have run: "reach (block_start 0 9 2) (block_poll demo_block Some) ([], ?st)" by (rule reach_start)
  have "?p \<noteq> Panic" by (rule bs_poll_total [OF bstream.inv_reach [OF run]]) simp_all
  then obtain r st' s' where p: "?p = Ret (r, st', s')" by (cases ?p) auto
  from small_capacity_never_ends [OF run _ _ _ p] p show ?thesis by simp
qed

end
