(* ===== verification/Tcp_Stream.thy ===== *)
theory Tcp_Stream
  imports Socket_Worker
begin

text \<open>
  The websocket transport (\<open>src/client/tcp.rs\<close>) and the older response future
  (\<open>src/client/response.rs\<close>, which no module includes any more).

  The websocket and its handshake are tungstenite's. Each call into it yields a result that
  is an argument here; the handshake is a step function on a state type \<open>'h\<close>.
\<close>

section \<open>Blocking calls as polls\<close>

fun to_async :: "ws_error + 'a \<Rightarrow> ws_error + 'a async" where
  "to_async (Inr x) = Inr (Ready x)"
| "to_async (Inl e) = (if e = WsIo WouldBlock then Inr NotReady else Inl e)"

datatype async_sink = SinkReady | SinkNotReady ws_message

text \<open>\<open>Stream::poll\<close>, \<open>Sink::start_send\<close>, \<open>Sink::poll_complete\<close> and \<open>Sink::close\<close>, for the result
  of \<open>read_message\<close>, \<open>write_message\<close>, \<open>write_pending\<close> and \<open>close\<close> of the websocket.\<close>

definition ws_poll :: "ws_error + ws_message \<Rightarrow> ws_message option poll" where
  "ws_poll read = map_err Ws (to_async (map_ok Some read))"

definition ws_start_send :: "ws_error + unit \<Rightarrow> async_sink rslt" where
  "ws_start_send written = and_then (map_err Ws (to_async written)) (\<lambda>_. Inr SinkReady)"

definition ws_poll_complete :: "ws_error + unit \<Rightarrow> unit poll" where
  "ws_poll_complete flushed = map_err Ws (to_async flushed)"

definition ws_close :: "ws_error + unit \<Rightarrow> unit poll" where
  "ws_close closed = map_err Ws (to_async closed)"

section \<open>The handshake\<close>

datatype 'h handshake_error = HsFailure ws_error | HsInterrupted 'h

type_synonym ('h, 'r) handshake = "'h \<Rightarrow> 'h handshake_error + 'r"
type_synonym ('h, 'r) mid_handshake = "('h handshake_error + 'r) option"

fun mid_poll ::
  "('h, 'r) handshake \<Rightarrow> ('h, 'r) mid_handshake \<Rightarrow> ('r poll \<times> ('h, 'r) mid_handshake) outcome" where
  "mid_poll handshake None = Panic"
| "mid_poll handshake (Some (Inr result)) = Ret (Inr (Ready result), None)"
| "mid_poll handshake (Some (Inl (HsFailure e))) = Ret (Inl (Ws e), None)"
| "mid_poll handshake (Some (Inl (HsInterrupted h))) =
     (case handshake h of
        Inr result \<Rightarrow> Ret (Inr (Ready result), None)
      | Inl (HsFailure e) \<Rightarrow> Ret (Inl (Ws e), None)
      | Inl (HsInterrupted h') \<Rightarrow> Ret (Inr NotReady, Some (Inl (HsInterrupted h'))))"

definition client_async :: "('h, 'r) handshake \<Rightarrow> 'h \<Rightarrow> ('h, 'r) mid_handshake" where
  "client_async handshake start = Some (handshake start)"

text \<open>\<open>ConnectAsync::poll\<close>: the websocket of the finished handshake is wrapped by \<open>wrap\<close>.\<close>

definition connect_async_poll ::
  "('h, 'ws \<times> 'resp) handshake \<Rightarrow> ('ws \<Rightarrow> 'stream) \<Rightarrow> ('h, 'ws \<times> 'resp) mid_handshake \<Rightarrow>
     (('stream \<times> 'resp) poll \<times> ('h, 'ws \<times> 'resp) mid_handshake) outcome" where
  "connect_async_poll handshake wrap m =
     obind (mid_poll handshake m) (\<lambda>(r, m').
       (case r of
          Inl e \<Rightarrow> Ret (Inl e, m')
        | Inr NotReady \<Rightarrow> Ret (Inr NotReady, m')
        | Inr (Ready (ws, resp)) \<Rightarrow> Ret (Inr (Ready (wrap ws, resp)), m')))"

text \<open>
  \<open>connect_async\<close> up to the start of its future: the address and the URL it parses, each with
  an \<open>unwrap\<close>. \<open>parse_addr\<close> and \<open>parse_url\<close> are the parsers of the standard library and of the url
  crate.
\<close>

definition connect_async ::
  "(string \<Rightarrow> 'addr option) \<Rightarrow> (string \<Rightarrow> 'url option) \<Rightarrow> string \<Rightarrow> ('addr \<times> 'url) outcome" where
  "connect_async parse_addr parse_url host =
     (let h = replace_str ''ws://'' [] host in
      obind (expect (parse_addr h)) (\<lambda>addr.
        obind (expect (parse_url (''ws://'' @ h))) (\<lambda>url. Ret (addr, url))))"

section \<open>The older response future\<close>

datatype resp_state =
    Enqueued "unit rslt option" chan
  | RespNotReady chan
  | Completed

record 'b response =
  resp_id :: u64
  resp_state :: resp_state
  to_value :: "'b decoder"

definition response_new :: "u64 \<Rightarrow> unit rslt \<Rightarrow> chan \<Rightarrow> 'b decoder \<Rightarrow> 'b response" where
  "response_new i send_status rx f =
     \<lparr>resp_id = i, resp_state = Enqueued (Some send_status) rx, to_value = f\<rparr>"

text \<open>The \<open>loop\<close> goes round once, from \<open>Enqueued\<close> to \<open>NotReady\<close>.\<close>

function response_poll :: "world \<Rightarrow> 'b response \<Rightarrow> 'b poll \<times> 'b response" where
  "response_poll w r =
     (case resp_state r of
        Enqueued is_sent rx \<Rightarrow>
          (case is_sent of
             Some (Inl e) \<Rightarrow> (Inl e, r\<lparr>resp_state := Enqueued None rx\<rparr>)
           | _ \<Rightarrow> response_poll w (r\<lparr>resp_state := RespNotReady rx\<rparr>))
      | RespNotReady rx \<Rightarrow>
          (case w rx of
             RxCanceled \<Rightarrow> (Inl (Io TimedOut), r)
           | RxNotReady \<Rightarrow> (Inr NotReady, r)
           | RxReady result \<Rightarrow> (map_ok Ready (and_then result (to_value r)), r))
      | Completed \<Rightarrow> (Inl (YumError ''Couldn't complete request''), r))"
  by pat_completeness auto
termination
  by (relation "measure (\<lambda>(w, r). case resp_state r of Enqueued _ _ \<Rightarrow> 1 | _ \<Rightarrow> 0)") auto

declare response_poll.simps [simp del]

section \<open>Lemmas\<close>

lemma to_async_no_block: "to_async r = Inl e \<Longrightarrow> r = Inl e \<and> e \<noteq> WsIo WouldBlock"
  by (cases r) (auto split: if_splits)

lemma start_send_accepts: "ws_start_send r = Inr a \<Longrightarrow> a = SinkReady"
  by (cases r) (auto simp: ws_start_send_def split: if_splits)

text \<open>A handshake that is interrupted a number of times before it ends.\<close>

fun handshake_run :: "nat \<Rightarrow> ('h, 'r) handshake \<Rightarrow> 'h \<Rightarrow> 'h handshake_error + 'r" where
  "handshake_run 0 hs h = Inl (HsInterrupted h)"
| "handshake_run (Suc n) hs h =
     (case hs h of Inl (HsInterrupted h') \<Rightarrow> handshake_run n hs h' | r \<Rightarrow> r)"

fun mid_run :: "nat \<Rightarrow> ('h, 'r) handshake \<Rightarrow> ('h, 'r) mid_handshake \<Rightarrow> 'r poll outcome" where
  "mid_run 0 hs m = Ret (Inr NotReady)"
| "mid_run (Suc n) hs m =
     obind (mid_poll hs m) (\<lambda>(r, m'). if r = Inr NotReady then mid_run n hs m' else Ret r)"

lemma mid_run_interrupted:
  "mid_run n hs (Some (Inl (HsInterrupted h))) =
     Ret (case handshake_run n hs h of
            Inr result \<Rightarrow> Inr (Ready result)
          | Inl (HsFailure e) \<Rightarrow> Inl (Ws e)
          | Inl (HsInterrupted _) \<Rightarrow> Inr NotReady)"
  by (induction n arbitrary: h) (auto split: sum.split handshake_error.split)

text \<open>The loop of \<open>Response::poll\<close> never reaches \<open>Completed\<close>.\<close>

lemma response_not_completed:
  "resp_state r \<noteq> Completed \<Longrightarrow> resp_state (snd (response_poll w r)) \<noteq> Completed"
proof (induction w r rule: response_poll.induct)
  case (1 w r)
  then show ?case
    by (subst response_poll.simps)
      (auto split: resp_state.splits option.splits sum.splits rx_poll.splits)
qed

end
