(* ===== verification/Socket_Thread.thy ===== *)
theory Socket_Thread
  imports Tcp_Stream
begin

text \<open>
  The thread of a socket worker: the closure that \<open>SocketWorker::connect\<close> spawns
  (\<open>src/client/mod.rs\<close>) over the connection future of \<open>src/client/tcp.rs\<close>. It connects, reports
  on \<open>conn_tx\<close>, and then runs the write half and the read half under \<open>select\<close>.

  The event loop polls the thread's future; what one poll meets outside is a \<open>wire\<close>: the answer
  of the TCP connection, whether the waiting caller still holds \<open>conn_rx\<close>, whether the sender of
  the request channel is gone, what the calls of \<open>write_message\<close> on the websocket return (the
  \<open>k\<close>-th call of the poll returns \<open>writes k\<close>), and what consecutive calls of \<open>read_message\<close>
  return (after the list, the socket would block). The request channel is the client's own:
  a poll takes the messages queued on it since the last one.
\<close>

section \<open>The connection future\<close>

text \<open>
  \<open>TcpStream::connect(..).map_err(Into::into).and_then(|stream| client_async(request, stream))\<close>:
  the second future is polled in the poll that finishes the first; \<open>start\<close> is
  \<open>ClientHandshake::start\<close> for the request.
\<close>

datatype ('h, 'r) connecting = ConnTcp | ConnHandshake "('h, 'r) mid_handshake" | ConnDone

fun connect_poll ::
  "('h, 'ws \<times> 'resp) handshake \<Rightarrow> ('sock \<Rightarrow> 'h) \<Rightarrow> ('ws \<Rightarrow> 'stream) \<Rightarrow> io_error + 'sock async \<Rightarrow>
     ('h, 'ws \<times> 'resp) connecting \<Rightarrow> (('stream \<times> 'resp) poll \<times> ('h, 'ws \<times> 'resp) connecting) outcome" where
  "connect_poll handshake start wrap tcp ConnTcp =
     (case map_err Io tcp of
        Inl e \<Rightarrow> Ret (Inl e, ConnDone)
      | Inr NotReady \<Rightarrow> Ret (Inr NotReady, ConnTcp)
      | Inr (Ready stream) \<Rightarrow>
          obind (connect_async_poll handshake wrap (client_async handshake (start stream)))
            (\<lambda>(r, m). Ret (r, ConnHandshake m)))"
| "connect_poll handshake start wrap tcp (ConnHandshake m) =
     obind (connect_async_poll handshake wrap m) (\<lambda>(r, m'). Ret (r, ConnHandshake m'))"
| "connect_poll handshake start wrap tcp ConnDone = Panic"

section \<open>The two halves\<close>

text \<open>
  One poll of \<open>rx.take_while(..).filter_map(..).for_each(..)\<close> on the messages in the channel: the
  effects, the number of messages taken, and whether the half has ended. A text or binary
  message is a call of \<open>sink.start_send\<close>, whose result is that of the next \<open>write_message\<close> (the
  lock that \<open>split\<close> puts between the halves is free, since one task polls both in turn). When
  the call fails, the error is only logged: the message is gone, and the loop goes on.
\<close>

fun calls_sink :: "socket_request \<Rightarrow> bool" where
  "calls_sink (Text _) = True"
| "calls_sink (Binary _) = True"
| "calls_sink _ = False"

fun send_effect :: "ws_error + unit \<Rightarrow> write_effect \<Rightarrow> write_effect" where
  "send_effect written (WsSend msg) =
     (case ws_start_send written of Inr _ \<Rightarrow> WsSend msg | Inl e \<Rightarrow> WsRefused msg e)"
| "send_effect written effect = effect"

fun write_poll ::
  "(nat \<Rightarrow> ws_error + unit) \<Rightarrow> bool \<Rightarrow> socket_request list \<Rightarrow> write_effect list \<times> nat \<times> unit async" where
  "write_poll written closed [] = ([], 0, if closed then Ready () else NotReady)"
| "write_poll written closed (req # reqs) =
     (if req = Stop then ([], 1, Ready ())
      else (case write_poll (if calls_sink req then written \<circ> Suc else written) closed reqs of
              (out, n, r) \<Rightarrow> (map (send_effect (written 0)) (write_item req) @ out, Suc n, r)))"

text \<open>One poll of \<open>stream.for_each(..)\<close>.\<close>

fun read_poll :: "rpc_lib \<Rightarrow> (ws_error + ws_message) list \<Rightarrow> sys \<Rightarrow> (unit poll \<times> sys) outcome" where
  "read_poll L [] s = Ret (Inr NotReady, s)"
| "read_poll L (read # reads) s =
     (case ws_poll read of
        Inl e \<Rightarrow> Ret (Inl e, s)
      | Inr NotReady \<Rightarrow> Ret (Inr NotReady, s)
      | Inr (Ready None) \<Rightarrow> Ret (Inr (Ready ()), s)
      | Inr (Ready (Some msg)) \<Rightarrow> obind (read_message L msg s) (read_poll L reads))"

section \<open>The thread\<close>

record ('sock, 'h, 'r) wire =
  tcp :: "io_error + 'sock async"
  hand :: "('h, 'r) handshake"
  caller_waits :: bool
  sender_gone :: bool
  writes :: "nat \<Rightarrow> ws_error + unit"
  reads :: "(ws_error + ws_message) list"

datatype ('h, 'r) phase = Connecting "('h, 'r) connecting" | Running | Ended

record ('h, 'r) socket =
  sock_tx :: chan
  sock_phase :: "('h, 'r) phase"
  sock_taken :: nat
  sock_out :: "write_effect list"

text \<open>
  \<open>write_stream.select(read_stream).then(|_| Ok(()))\<close>: the write half first; the read half is
  polled only when the write half has not ended; either one ends the thread, and the result
  of the one that ends is dropped.
\<close>

definition halves_poll ::
  "rpc_lib \<Rightarrow> ('sock, 'h, 'ws \<times> 'resp) wire \<Rightarrow> ('h, 'ws \<times> 'resp) socket \<Rightarrow> sys \<Rightarrow>
     (('h, 'ws \<times> 'resp) socket \<times> sys) outcome" where
  "halves_poll L i th s =
     (case write_poll (writes i) (sender_gone i) (drop (sock_taken th) (queued (sock_tx th) (trace s))) of
        (out, n, r) \<Rightarrow>
          (let th1 = th\<lparr>sock_taken := sock_taken th + n, sock_out := sock_out th @ out\<rparr> in
           case r of
             Ready _ \<Rightarrow> Ret (th1\<lparr>sock_phase := Ended\<rparr>, s)
           | NotReady \<Rightarrow>
               obind (read_poll L (reads i) s) (\<lambda>(r', s1).
                 Ret (th1\<lparr>sock_phase := (if r' = Inr NotReady then Running else Ended)\<rparr>, s1))))"

text \<open>
  One poll of the thread's future: connect, then \<open>conn_tx.send(true).unwrap()\<close>, which panics when
  the caller has given up, then the two halves. A failed connection ends the thread.
\<close>

definition thread_poll ::
  "rpc_lib \<Rightarrow> ('sock \<Rightarrow> 'h) \<Rightarrow> ('sock, 'h, 'ws \<times> 'resp) wire \<Rightarrow> ('h, 'ws \<times> 'resp) socket \<Rightarrow> sys \<Rightarrow>
     (('h, 'ws \<times> 'resp) socket \<times> sys) outcome" where
  "thread_poll L start i th s =
     (case sock_phase th of
        Connecting c \<Rightarrow>
          obind (connect_poll (hand i) start id (tcp i) c) (\<lambda>(r, c').
            (case r of
               Inl e \<Rightarrow> Ret (th\<lparr>sock_phase := Ended\<rparr>, s)
             | Inr NotReady \<Rightarrow> Ret (th\<lparr>sock_phase := Connecting c'\<rparr>, s)
             | Inr (Ready _) \<Rightarrow>
                 if caller_waits i then halves_poll L i (th\<lparr>sock_phase := Running\<rparr>) s else Panic))
      | Running \<Rightarrow> halves_poll L i th s
      | Ended \<Rightarrow> Ret (th, s))"

text \<open>The thread that \<open>connect\<close> starts for a host, on the channel \<open>tx\<close>.\<close>

definition socket_start ::
  "(string \<Rightarrow> 'addr option) \<Rightarrow> (string \<Rightarrow> 'url option) \<Rightarrow> string \<Rightarrow> chan \<Rightarrow> ('h, 'r) socket outcome" where
  "socket_start parse_addr parse_url host tx =
     obind (connect_async parse_addr parse_url (host_address host)) (\<lambda>_.
       Ret \<lparr>sock_tx = tx, sock_phase = Connecting ConnTcp, sock_taken = 0, sock_out = []\<rparr>)"

section \<open>Steps of a thread among the steps of the others\<close>

text \<open>
  The thread shares the client with every other thread, so its future is not polled at one
  moment: while one half is polled, requests are queued and other responses are handled. A
  step is a step of the connection, a poll of the write half, one message of the read half,
  the end of the read half, or an atomic step of the client by anyone.
\<close>

definition wrote ::
  "('h, 'r) socket \<Rightarrow> write_effect list \<times> nat \<times> unit async \<Rightarrow> ('h, 'r) socket" where
  "wrote th w =
     (case w of (out, n, r) \<Rightarrow>
        th\<lparr>sock_phase := (if r = NotReady then Running else Ended),
           sock_taken := sock_taken th + n, sock_out := sock_out th @ out\<rparr>)"

definition untaken :: "('h, 'r) socket \<Rightarrow> sys \<Rightarrow> socket_request list" where
  "untaken th s = drop (sock_taken th) (queued (sock_tx th) (trace s))"

definition connected_phase :: "('stream \<times> 'resp) poll \<Rightarrow> ('h, 'r) connecting \<Rightarrow> ('h, 'r) phase" where
  "connected_phase r c =
     (case r of Inl _ \<Rightarrow> Ended | Inr NotReady \<Rightarrow> Connecting c | Inr (Ready _) \<Rightarrow> Running)"

inductive sock_step ::
  "rpc_lib \<Rightarrow> ('sock \<Rightarrow> 'h) \<Rightarrow> ('h, 'ws \<times> 'resp) socket \<times> sys \<Rightarrow> ('h, 'ws \<times> 'resp) socket \<times> sys \<Rightarrow> bool"
  for L :: rpc_lib and start :: "'sock \<Rightarrow> 'h" where
  sock_client: "client_step s t \<Longrightarrow> sock_step L start (th, s) (th, t)"
| sock_connect: "sock_phase th = Connecting c \<Longrightarrow> connect_poll handshake start id tc c = Ret (r, c') \<Longrightarrow>
    sock_step L start (th, s) (th\<lparr>sock_phase := connected_phase r c'\<rparr>, s)"
| sock_write: "sock_phase th = Running \<Longrightarrow>
    sock_step L start (th, s) (wrote th (write_poll written gone (untaken th s)), s)"
| sock_read: "sock_phase th = Running \<Longrightarrow> read_message L msg s = Ret t \<Longrightarrow> sock_step L start (th, s) (th, t)"
| sock_end: "sock_phase th = Running \<Longrightarrow> sock_step L start (th, s) (th\<lparr>sock_phase := Ended\<rparr>, s)"

abbreviation sock_steps ::
  "rpc_lib \<Rightarrow> ('sock \<Rightarrow> 'h) \<Rightarrow> ('h, 'ws \<times> 'resp) socket \<times> sys \<Rightarrow> ('h, 'ws \<times> 'resp) socket \<times> sys \<Rightarrow> bool" where
  "sock_steps L start \<equiv> (sock_step L start)\<^sup>*\<^sup>*"

lemma halves_poll_eq:
  "halves_poll L i th s =
     (let th1 = wrote th (write_poll (writes i) (sender_gone i) (untaken th s)) in
      if sock_phase th1 = Ended then Ret (th1, s)
      else obind (read_poll L (reads i) s) (\<lambda>(r, t).
             Ret (if r = Inr NotReady then th1 else th1\<lparr>sock_phase := Ended\<rparr>, t)))"
proof -
  obtain out n r where w: "write_poll (writes i) (sender_gone i) (untaken th s) = (out, n, r)" by (metis surj_pair)
  show ?thesis
    by (cases r; cases "read_poll L (reads i) s")
      (auto simp: halves_poll_def wrote_def w [unfolded untaken_def] untaken_def Let_def)
qed

lemma read_poll_steps:
  assumes "read_poll L rs s = Ret (r, t)" and "sock_phase th = Running"
  shows "sock_steps L start (th, s) (th, t)"
  using assms(1)
proof (induction rs arbitrary: s)
  case Nil
  then show ?case by simp
next
  case (Cons read rs)
  show ?case
  proof (cases "\<exists>msg. ws_poll read = Inr (Ready (Some msg))")
    case True
    then obtain msg u where "read_message L msg s = Ret u" "read_poll L rs u = Ret (r, t)"
      using Cons.prems by (auto simp: obind_eq_Ret)
    with Cons.IH [of u] sock_read [OF assms(2)] show ?thesis
      by (meson converse_rtranclp_into_rtranclp)
  next
    case False
    then have "t = s" using Cons.prems by (auto split: sum.splits async.splits option.splits)
    then show ?thesis by simp
  qed
qed

lemma halves_poll_steps:
  assumes "halves_poll L i th s = Ret (th', t)" and "sock_phase th = Running"
  shows "sock_steps L start (th, s) (th', t)"
proof -
  let ?th1 = "wrote th (write_poll (writes i) (sender_gone i) (untaken th s))"
  have w: "sock_steps L start (th, s) (?th1, s)" by (intro r_into_rtranclp sock_write assms(2))
  show ?thesis
  proof (cases "sock_phase ?th1 = Ended")
    case True
    with assms(1) have "th' = ?th1 \<and> t = s" by (auto simp: halves_poll_eq Let_def)
    with w show ?thesis by simp
  next
    case False
    then have run: "sock_phase ?th1 = Running" by (auto simp: wrote_def split: prod.splits)
    from False obtain r where r: "read_poll L (reads i) s = Ret (r, t)"
      and th': "th' = (if r = Inr NotReady then ?th1 else ?th1\<lparr>sock_phase := Ended\<rparr>)"
      using assms(1) by (auto simp: halves_poll_eq Let_def obind_eq_Ret)
    have "sock_steps L start (?th1, t) (th', t)"
      unfolding th' using sock_end [OF run] by auto
    with w read_poll_steps [OF r run] show ?thesis by (meson rtranclp_trans)
  qed
qed

lemma sock_running: "sock_phase th = Running \<Longrightarrow> th\<lparr>sock_phase := Running\<rparr> = th"
  by (cases th) simp

lemma thread_poll_cases:
  assumes "thread_poll L start i th s = Ret (th', t)"
  obtains (waiting) c r c' where "sock_phase th = Connecting c"
      "connect_poll (hand i) start id (tcp i) c = Ret (r, c')" "connected_phase r c' \<noteq> Running"
      "th' = th\<lparr>sock_phase := connected_phase r c'\<rparr>" "t = s"
  | (halves) "sock_phase th \<noteq> Ended" "sock_steps L start (th, s) (th\<lparr>sock_phase := Running\<rparr>, s)"
      "halves_poll L i (th\<lparr>sock_phase := Running\<rparr>) s = Ret (th', t)"
  | (ended) "sock_phase th = Ended" "th' = th" "t = s"
proof (cases "sock_phase th")
  case (Connecting c)
  obtain r c' where c: "connect_poll (hand i) start id (tcp i) c = Ret (r, c')"
    using assms Connecting by (auto simp: thread_poll_def obind_eq_Ret)
  show ?thesis
  proof (cases "connected_phase r c' = Running")
    case True
    then obtain x where r: "r = Inr (Ready x)"
      by (auto simp: connected_phase_def split: sum.splits async.splits)
    then have "halves_poll L i (th\<lparr>sock_phase := Running\<rparr>) s = Ret (th', t)"
      using assms Connecting c by (cases x) (simp add: thread_poll_def split: if_splits)
    moreover have "sock_step L start (th, s) (th\<lparr>sock_phase := Running\<rparr>, s)"
      using sock_connect [OF Connecting c, of L s] True by simp
    ultimately show ?thesis by (intro halves) (auto simp: Connecting)
  next
    case False
    with assms Connecting c show ?thesis
      by (intro waiting [OF Connecting c])
        (auto simp: thread_poll_def connected_phase_def split: sum.splits async.splits)
  qed
next
  case Running
  with assms show ?thesis by (intro halves) (simp_all add: thread_poll_def sock_running)
next
  case Ended
  with assms show ?thesis by (intro ended) (simp_all add: thread_poll_def)
qed

lemma thread_poll_steps:
  assumes "thread_poll L start i th s = Ret (th', t)"
  shows "sock_steps L start (th, s) (th', t)"
  using assms
proof (cases rule: thread_poll_cases)
  case (waiting c r c')
  then show ?thesis using sock_connect by blast
next
  case halves
  have "sock_phase (th\<lparr>sock_phase := Running\<rparr>) = Running" by simp
  from halves_poll_steps [OF halves(3) this, of start] halves(2) show ?thesis
    by (auto intro: rtranclp_trans)
qed simp

lemma sock_steps_client: "sock_steps L start x y \<Longrightarrow> client_steps (snd x) (snd y)"
proof (induction rule: rtranclp_induct)
  case base
  then show ?case by simp
next
  case (step y z)
  from step.hyps(2) have "client_steps (snd y) (snd z)"
    by cases (auto dest: steps_read_message)
  with step.IH show ?case by (rule rtranclp_trans)
qed

section \<open>What has been written\<close>

lemma write_stream_Cons:
  "write_stream (r # rs) = (if r = Stop then [] else write_item r @ write_stream rs)"
  by (simp add: write_stream_def)

lemma write_stream_Nil [simp]: "write_stream [] = []"
  by (simp add: write_stream_def)

lemma write_stream_append:
  "Stop \<notin> set xs \<Longrightarrow> write_stream (xs @ ys) = write_stream xs @ write_stream ys"
  by (induction xs) (auto simp: write_stream_Cons)

text \<open>What the write half set out to do, whether the sink accepted it or not.\<close>

fun attempted :: "write_effect \<Rightarrow> write_effect" where
  "attempted (WsRefused msg e) = WsSend msg"
| "attempted effect = effect"

lemma attempted_send: "attempted (send_effect written x) = attempted x"
  by (cases x) (auto split: sum.split)

lemma attempted_item [simp]: "map (attempted \<circ> send_effect written) (write_item req) = write_item req"
  by (cases req) (simp_all add: attempted_send del: send_effect.simps)

text \<open>One poll goes through all that is queued up to a \<open>Stop\<close>, which it takes as well.\<close>

lemma write_poll_result:
  assumes "write_poll written gone reqs = (out, n, r)"
  shows "map attempted out = write_stream reqs \<and> n \<le> length reqs \<and> write_stream (take n reqs) = write_stream reqs \<and>
    r = (if Stop \<in> set reqs \<or> gone then Ready () else NotReady) \<and>
    (Stop \<in> set reqs \<or> n = length reqs)"
  using assms
  by (induction written gone reqs arbitrary: out n r rule: write_poll.induct)
    (auto simp: write_stream_Cons split: if_splits prod.splits)

text \<open>
  The results of the calls of \<open>start_send\<close> that a list of effects records, and that those of one
  poll are the results of its calls of \<open>write_message\<close>, in order.
\<close>

fun sink_result :: "write_effect \<Rightarrow> async_sink rslt list" where
  "sink_result (WsSend _) = [Inr SinkReady]"
| "sink_result (WsRefused _ e) = [Inl e]"
| "sink_result _ = []"

abbreviation sink_results :: "write_effect list \<Rightarrow> async_sink rslt list" where
  "sink_results out \<equiv> concat (map sink_result out)"

definition first_results :: "(nat \<Rightarrow> ws_error + unit) \<Rightarrow> nat \<Rightarrow> async_sink rslt list" where
  "first_results written n = map (\<lambda>k. ws_start_send (written k)) [0..<n]"

lemma sink_result_send: "sink_result (send_effect written (WsSend msg)) = [ws_start_send written]"
  by (auto dest: start_send_accepts split: sum.split)

lemma first_results_Suc: "first_results written (Suc n) = ws_start_send (written 0) # first_results (written \<circ> Suc) n"
  by (simp add: first_results_def map_upt_Suc del: upt_Suc)

lemma write_poll_calls:
  "write_poll written gone reqs = (out, n, r) \<Longrightarrow>
     sink_results out = first_results written (length (sink_results out))"
proof (induction written gone reqs arbitrary: out n r rule: write_poll.induct)
  case (2 written gone req reqs)
  show ?case
  proof (cases "req = Stop")
    case False
    let ?w = "if calls_sink req then written \<circ> Suc else written"
    obtain out' n' where w: "write_poll ?w gone reqs = (out', n', r)"
      and out: "out = map (send_effect (written 0)) (write_item req) @ out'"
      using 2(2) False by (auto split: prod.splits)
    from 2(1) [OF False w] show ?thesis
      by (cases req) (simp_all add: out sink_result_send first_results_Suc comp_def del: send_effect.simps(1))
  qed (use 2(2) in \<open>simp add: first_results_def\<close>)
qed (simp add: first_results_def)

text \<open>
  The effects of a thread are those of the messages it has taken; it has taken a \<open>Stop\<close> only
  if it has ended. While it connects, its future is one that may be polled again.
\<close>

fun conn_ok :: "('h, 'r) phase \<Rightarrow> bool" where
  "conn_ok (Connecting ConnTcp) = True"
| "conn_ok (Connecting (ConnHandshake (Some (Inl (HsInterrupted h))))) = True"
| "conn_ok (Connecting _) = False"
| "conn_ok _ = True"

definition sock_inv :: "('h, 'r) socket \<times> sys \<Rightarrow> bool" where
  "sock_inv x \<longleftrightarrow>
     (case x of (th, s) \<Rightarrow>
        let q = queued (sock_tx th) (trace s); k = sock_taken th in
        k \<le> length q \<and> map attempted (sock_out th) = write_stream (take k q) \<and>
        (sock_phase th = Ended \<or> Stop \<notin> set (take k q)) \<and> conn_ok (sock_phase th))"

definition sock_start :: "('h, 'r) socket \<times> sys \<Rightarrow> bool" where
  "sock_start x \<longleftrightarrow>
     sock_phase (fst x) = Connecting ConnTcp \<and> sock_taken (fst x) = 0 \<and> sock_out (fst x) = []"

lemma queued_grows:
  assumes "client_step s t"
  shows "\<exists>q. queued c (trace t) = queued c (trace s) @ q"
  using assms
proof (cases rule: client_step.cases)
  case (step_answer i r)
  then show ?thesis by (auto simp: answer_def log_def split: option.split)
next
  case (step_notify i v)
  then show ?thesis by (auto simp: notify_def log_def split: option.split)
qed (auto simp: client_defs split: option.split)

lemma queued_grows_steps: "client_steps s t \<Longrightarrow> \<exists>q. queued c (trace t) = queued c (trace s) @ q"
proof (induction rule: rtranclp_induct)
  case base
  then show ?case by simp
next
  case (step t u)
  with queued_grows [OF step.hyps(2), of c] show ?case by auto
qed

lemma sock_inv_client:
  assumes "sock_inv (th, s)" and "client_steps s t"
  shows "sock_inv (th, t)"
proof -
  obtain q where "queued (sock_tx th) (trace t) = queued (sock_tx th) (trace s) @ q"
    using queued_grows_steps [OF assms(2)] by blast
  with assms(1) show ?thesis by (auto simp: sock_inv_def Let_def)
qed

lemma sock_inv_wrote:
  assumes "sock_inv (th, s)" and "sock_phase th \<noteq> Ended"
  shows "sock_inv (wrote th (write_poll written gone (untaken th s)), s)"
proof -
  define q where "q = queued (sock_tx th) (trace s)"
  define k where "k = sock_taken th"
  obtain out n r where w: "write_poll written gone (drop k q) = (out, n, r)" by (metis surj_pair)
  have k: "k \<le> length q" "map attempted (sock_out th) = write_stream (take k q)" "Stop \<notin> set (take k q)"
    using assms by (auto simp: sock_inv_def Let_def q_def k_def)
  have split: "take (k + n) q = take k q @ take n (drop k q)" by (simp add: take_add)
  with k write_poll_result [OF w] have "write_stream (take (k + n) q) = map attempted (sock_out th @ out)"
    by (simp add: write_stream_append)
  moreover have "n \<le> length (drop k q)" using write_poll_result [OF w] by blast
  then have "k + n \<le> length q" using k(1) by simp
  moreover have "r = NotReady \<longrightarrow> Stop \<notin> set (take (k + n) q)"
    using write_poll_result [OF w] k(3) by (auto simp: split dest: in_set_takeD)
  moreover have "wrote th (write_poll written gone (untaken th s)) =
      th\<lparr>sock_phase := (if r = NotReady then Running else Ended), sock_taken := k + n, sock_out := sock_out th @ out\<rparr>"
    by (simp add: wrote_def untaken_def q_def [symmetric] k_def [symmetric] w)
  ultimately show ?thesis by (simp add: sock_inv_def Let_def q_def)
qed

lemma mid_poll_ok:
  "\<exists>r m'. mid_poll hs (Some m) = Ret (r, m') \<and> (r = Inr NotReady \<longrightarrow> (\<exists>h. m' = Some (Inl (HsInterrupted h))))"
  by (cases "(hs, Some m)" rule: mid_poll.cases) (auto split: sum.split handshake_error.split)

lemma connect_async_poll_ok:
  "\<exists>r m'. connect_async_poll hs wrap (Some m) = Ret (r, m') \<and>
     (r = Inr NotReady \<longrightarrow> (\<exists>h. m' = Some (Inl (HsInterrupted h))))"
proof -
  obtain r m' where "mid_poll hs (Some m) = Ret (r, m')"
    "r = Inr NotReady \<longrightarrow> (\<exists>h. m' = Some (Inl (HsInterrupted h)))"
    using mid_poll_ok by blast
  then show ?thesis by (auto simp: connect_async_poll_def split: sum.split async.split)
qed

lemma connected_phase_ok:
  "(r = Inr NotReady \<Longrightarrow> conn_ok (Connecting c)) \<Longrightarrow> conn_ok (connected_phase r c)"
  by (simp add: connected_phase_def split: sum.split async.split)

text \<open>A connection that may be polled does not panic, and it may be polled again while it is not ready.\<close>

lemma connect_poll_ok:
  assumes "conn_ok (Connecting c)"
  shows "\<exists>r c'. connect_poll hs start wrap tc c = Ret (r, c') \<and> conn_ok (connected_phase r c')"
proof -
  have shake: "\<exists>r c'. obind (connect_async_poll hs wrap (Some m)) (\<lambda>(r, m'). Ret (r, ConnHandshake m')) = Ret (r, c') \<and>
      conn_ok (connected_phase r c')" for m
  proof -
    obtain r m' where m: "connect_async_poll hs wrap (Some m) = Ret (r, m')"
      "r = Inr NotReady \<longrightarrow> (\<exists>h. m' = Some (Inl (HsInterrupted h)))"
      using connect_async_poll_ok by blast
    then have "conn_ok (connected_phase r (ConnHandshake m'))" by (intro connected_phase_ok) auto
    with m show ?thesis by simp
  qed
  show ?thesis
  proof (cases c)
    case ConnTcp
    show ?thesis
    proof (cases "\<exists>sock. tc = Inr (Ready sock)")
      case True
      with shake show ?thesis by (auto simp: ConnTcp client_async_def)
    next
      case False
      then show ?thesis
        by (cases tc) (auto simp: ConnTcp connected_phase_def split: async.split)
    qed
  next
    case (ConnHandshake m)
    then obtain h where "m = Some (Inl (HsInterrupted h))"
      using assms by (cases "Connecting c" rule: conn_ok.cases) auto
    with shake show ?thesis by (simp add: ConnHandshake)
  qed (use assms in simp)
qed

lemma sock_inv_step:
  assumes "sock_inv x" and "sock_step L start x y"
  shows "sock_inv y"
  using assms(2)
proof (cases rule: sock_step.cases)
  case (sock_client s t th)
  with assms(1) show ?thesis by (auto intro: sock_inv_client)
next
  case (sock_write th written gone s)
  with assms(1) show ?thesis by (auto intro: sock_inv_wrote)
next
  case (sock_read th msg s t)
  with assms(1) show ?thesis by (auto intro: sock_inv_client dest: steps_read_message)
next
  case (sock_connect th c hs tc r c' s)
  with assms(1) connect_poll_ok [of c hs start id tc] show ?thesis by (auto simp: sock_inv_def Let_def)
qed (use assms(1) in \<open>auto simp: sock_inv_def Let_def\<close>)

interpretation socket: inductive_invariant sock_start "sock_step L start" sock_inv
proof
  fix x :: "('h, 'r) socket \<times> sys"
  assume "sock_start x"
  then show "sock_inv x" by (cases x) (simp add: sock_start_def sock_inv_def)
qed (rule sock_inv_step)

lemma sock_tx_step: "sock_step L start x y \<Longrightarrow> sock_tx (fst y) = sock_tx (fst x)"
  by (induction rule: sock_step.induct) (auto simp: wrote_def split: prod.split)

lemma sock_tx_steps: "sock_steps L start x y \<Longrightarrow> sock_tx (fst y) = sock_tx (fst x)"
  by (induction rule: rtranclp_induct) (auto dest: sock_tx_step)

lemma prefix_write_stream: "\<exists>rest. write_stream q = write_stream (take k q) @ rest"
  by (induction q arbitrary: k) (auto simp: write_stream_Cons take_Cons' split: if_splits)

lemma sock_out_prefix:
  assumes "sock_inv (th, s)"
  shows "\<exists>rest. write_stream (queued (sock_tx th) (trace s)) = map attempted (sock_out th) @ rest"
  using assms prefix_write_stream [of "queued (sock_tx th) (trace s)" "sock_taken th"]
  by (auto simp: sock_inv_def Let_def)

lemma wrote_all:
  assumes "sock_inv (th, s)" and "sock_phase th \<noteq> Ended"
  shows "map attempted (sock_out (wrote th (write_poll written gone (untaken th s)))) = write_stream (queued (sock_tx th) (trace s))"
proof -
  let ?q = "queued (sock_tx th) (trace s)" and ?k = "sock_taken th"
  obtain out n r where w: "write_poll written gone (drop ?k ?q) = (out, n, r)" by (metis surj_pair)
  have "map attempted (sock_out th) = write_stream (take ?k ?q)" "Stop \<notin> set (take ?k ?q)"
    using assms by (auto simp: sock_inv_def Let_def)
  then have "map attempted (sock_out th @ out) = write_stream (take ?k ?q @ drop ?k ?q)"
    using write_poll_result [OF w] by (simp add: write_stream_append del: append_take_drop_id)
  then show ?thesis by (simp add: wrote_def untaken_def w)
qed

lemma halves_poll_out:
  "halves_poll L i th s = Ret (th', t) \<Longrightarrow>
     sock_out th' = sock_out (wrote th (write_poll (writes i) (sender_gone i) (untaken th s)))"
  by (auto simp: halves_poll_eq Let_def obind_eq_Ret split: if_splits)

lemma queued_read: "read_message L msg s = Ret t \<Longrightarrow> queued c (trace t) = queued c (trace s)"
proof -
  have d: "queued c (trace (dispatch r u)) = queued c (trace u)" for r u
    by (cases r) (auto simp: notify_def answer_def log_def split: option.split)
  have "queued c (trace (fold dispatch rs u)) = queued c (trace u)" for rs u
    by (induction rs arbitrary: u) (simp_all add: d)
  then show "read_message L msg s = Ret t \<Longrightarrow> queued c (trace t) = queued c (trace s)"
    by (cases "handle_message L msg") (auto simp: read_message_def split: sum.splits)
qed

lemma queued_read_poll: "read_poll L rs s = Ret (r, t) \<Longrightarrow> queued c (trace t) = queued c (trace s)"
proof (induction rs arbitrary: s)
  case (Cons read rs)
  then show ?case
    by (auto simp: obind_eq_Ret dest: queued_read split: sum.splits async.splits option.splits)
qed simp

lemma queued_halves: "halves_poll L i th s = Ret (th', t) \<Longrightarrow> queued c (trace t) = queued c (trace s)"
  by (auto simp: halves_poll_eq Let_def obind_eq_Ret dest: queued_read_poll split: if_splits)

lemma thread_poll_all:
  assumes "sock_inv (th, s)" and "thread_poll L start i th s = Ret (th', t)" and "sock_phase th' = Running"
  shows "map attempted (sock_out th') = write_stream (queued (sock_tx th) (trace t))"
  using assms(2)
proof (cases rule: thread_poll_cases)
  case halves
  have "sock_inv (th\<lparr>sock_phase := Running\<rparr>, s)"
    using assms(1) halves(1) by (auto simp: sock_inv_def Let_def)
  from wrote_all [OF this] halves_poll_out [OF halves(3)] queued_halves [OF halves(3)] show ?thesis
    by simp
qed (use assms(3) in auto)

text \<open>
  What a poll adds: the calls of \<open>start_send\<close> it makes have the results of its calls of
  \<open>write_message\<close>, the first the first, and so on.
\<close>

lemma wrote_calls:
  "\<exists>new. sock_out (wrote th (write_poll written gone reqs)) = sock_out th @ new \<and>
     sink_results new = first_results written (length (sink_results new))"
  using write_poll_calls [of written gone reqs] by (auto simp: wrote_def split: prod.split)

lemma thread_poll_calls:
  assumes "thread_poll L start i th s = Ret (th', t)"
  shows "\<exists>new. sock_out th' = sock_out th @ new \<and>
    sink_results new = first_results (writes i) (length (sink_results new))"
  using assms
proof (cases rule: thread_poll_cases)
  case halves
  from halves_poll_out [OF halves(3)] wrote_calls [of "th\<lparr>sock_phase := Running\<rparr>" "writes i" "sender_gone i"]
  show ?thesis by simp
qed (auto simp: first_results_def)

section \<open>What a poll reads\<close>

text \<open>The messages a poll gets before the first error, handled one after the other.\<close>

definition heard :: "(ws_error + ws_message) list \<Rightarrow> ws_message list" where
  "heard rs = map projr (takeWhile (Not \<circ> isl) rs)"

fun read_all :: "rpc_lib \<Rightarrow> ws_message list \<Rightarrow> sys \<Rightarrow> sys outcome" where
  "read_all L [] s = Ret s"
| "read_all L (msg # msgs) s = obind (read_message L msg s) (read_all L msgs)"

definition read_end :: "(ws_error + ws_message) list \<Rightarrow> unit poll" where
  "read_end rs =
     (case find isl rs of
        Some (Inl e) \<Rightarrow> if e = WsIo WouldBlock then Inr NotReady else Inl (Ws e)
      | _ \<Rightarrow> Inr NotReady)"

lemma read_poll_eq: "read_poll L rs s = obind (read_all L (heard rs) s) (\<lambda>t. Ret (read_end rs, t))"
proof (induction rs arbitrary: s)
  case Nil
  then show ?case by (simp add: heard_def read_end_def)
next
  case (Cons read rs)
  show ?case
  proof (cases read)
    case (Inl e)
    then show ?thesis by (simp add: heard_def read_end_def ws_poll_def)
  next
    case (Inr msg)
    with Cons.IH show ?thesis
      by (cases "read_message L msg s") (simp_all add: heard_def read_end_def ws_poll_def)
  qed
qed

fun control_frame :: "ws_message \<Rightarrow> bool" where
  "control_frame (MsgPing _) = True"
| "control_frame (MsgPong _) = True"
| "control_frame _ = False"

lemma read_message_panic: "read_message L msg s = Panic \<longleftrightarrow> control_frame msg"
  by (cases msg) (auto simp: read_message_def split: sum.split)

lemma read_all_panic: "read_all L msgs s = Panic \<longleftrightarrow> list_ex control_frame msgs"
proof (induction msgs arbitrary: s)
  case Nil
  then show ?case by simp
next
  case (Cons msg msgs)
  then show ?case
    using read_message_panic [of L msg s] by (cases "read_message L msg s") simp_all
qed

lemma halves_poll_panic:
  assumes "sock_phase th = Running"
  shows "halves_poll L i th s = Panic \<longleftrightarrow>
    Stop \<notin> set (untaken th s) \<and> \<not> sender_gone i \<and> list_ex control_frame (heard (reads i))"
proof -
  obtain out n r where w: "write_poll (writes i) (sender_gone i) (untaken th s) = (out, n, r)" by (metis surj_pair)
  show ?thesis
    using write_poll_result [OF w] read_all_panic [of L "heard (reads i)" s]
    by (cases "read_all L (heard (reads i)) s") (auto simp: halves_poll_eq Let_def wrote_def w read_poll_eq)
qed

text \<open>The connection of a thread comes up in this poll.\<close>

definition comes_up :: "('sock \<Rightarrow> 'h) \<Rightarrow> ('sock, 'h, 'ws \<times> 'resp) wire \<Rightarrow> ('h, 'ws \<times> 'resp) socket \<Rightarrow> bool" where
  "comes_up start i th =
     (case sock_phase th of
        Connecting c \<Rightarrow>
          (case connect_poll (hand i) start id (tcp i) c of Ret (Inr (Ready _), _) \<Rightarrow> True | _ \<Rightarrow> False)
      | _ \<Rightarrow> False)"

lemma untaken_phase [simp]: "untaken (th\<lparr>sock_phase := p\<rparr>) s = untaken th s"
  by (simp add: untaken_def)

lemma thread_poll_panic:
  assumes "conn_ok (sock_phase th)"
  shows "thread_poll L start i th s = Panic \<longleftrightarrow>
    comes_up start i th \<and> \<not> caller_waits i \<or>
    (comes_up start i th \<or> sock_phase th = Running) \<and>
      Stop \<notin> set (untaken th s) \<and> \<not> sender_gone i \<and> list_ex control_frame (heard (reads i))"
proof (cases "sock_phase th")
  case (Connecting c)
  obtain r c' where c: "connect_poll (hand i) start id (tcp i) c = Ret (r, c')"
    using connect_poll_ok assms Connecting by metis
  show ?thesis
  proof (cases "\<exists>x. r = Inr (Ready x)")
    case True
    then have "thread_poll L start i th s = (if caller_waits i then halves_poll L i (th\<lparr>sock_phase := Running\<rparr>) s else Panic)"
      and "comes_up start i th"
      using Connecting c by (auto simp: thread_poll_def comes_up_def)
    then show ?thesis using halves_poll_panic [of "th\<lparr>sock_phase := Running\<rparr>" L i s] by simp
  next
    case False
    then show ?thesis
      using Connecting c by (auto simp: thread_poll_def comes_up_def split: sum.split async.split)
  qed
next
  case Running
  then show ?thesis using halves_poll_panic [of th L i s] by (simp add: thread_poll_def comes_up_def)
next
  case Ended
  then show ?thesis by (simp add: thread_poll_def comes_up_def)
qed

section \<open>A run of polls\<close>

fun thread_polls ::
  "rpc_lib \<Rightarrow> ('sock \<Rightarrow> 'h) \<Rightarrow> ('sock, 'h, 'ws \<times> 'resp) wire list \<Rightarrow> ('h, 'ws \<times> 'resp) socket \<times> sys \<Rightarrow>
     (('h, 'ws \<times> 'resp) socket \<times> sys) outcome" where
  "thread_polls L start [] x = Ret x"
| "thread_polls L start (i # is) x = obind (thread_poll L start i (fst x) (snd x)) (thread_polls L start is)"

text \<open>Nobody gives up, nothing arrives, and the handshake goes on as \<open>hs\<close>.\<close>

definition quiet :: "('h, 'r) handshake \<Rightarrow> ('sock, 'h, 'r) wire \<Rightarrow> bool" where
  "quiet hs i \<longleftrightarrow> hand i = hs \<and> caller_waits i \<and> \<not> sender_gone i \<and> reads i = []"

definition stop_free :: "('h, 'r) socket \<Rightarrow> sys \<Rightarrow> bool" where
  "stop_free th s \<longleftrightarrow> Stop \<notin> set (queued (sock_tx th) (trace s))"

lemma stop_free_untaken: "stop_free th s \<Longrightarrow> Stop \<notin> set (untaken th s)"
  by (auto simp: stop_free_def untaken_def dest: in_set_dropD)

lemma quiet_halves:
  assumes "quiet hs i" and "stop_free th s" and "sock_phase th = Running"
  shows "\<exists>th'. halves_poll L i th s = Ret (th', s) \<and> sock_phase th' = Running \<and> stop_free th' s"
proof -
  obtain out n r where w: "write_poll (writes i) False (untaken th s) = (out, n, r)" by (metis surj_pair)
  then have "r = NotReady"
    using write_poll_result [OF w] stop_free_untaken [OF assms(2)] by simp
  with assms show ?thesis
    by (auto simp: halves_poll_eq Let_def wrote_def w quiet_def stop_free_def)
qed

lemma quiet_running:
  assumes "list_all (quiet hs) is" and "stop_free th s" and "sock_phase th = Running"
  shows "\<exists>th'. thread_polls L start is (th, s) = Ret (th', s) \<and> sock_phase th' = Running"
  using assms
proof (induction "is" arbitrary: th)
  case (Cons i "is")
  then obtain th' where "thread_poll L start i th s = Ret (th', s)" "sock_phase th' = Running" "stop_free th' s"
    using quiet_halves [of hs i th s L] by (auto simp: thread_poll_def)
  with Cons.IH [of th'] Cons.prems(1) show ?case by auto
qed simp

text \<open>A poll in which the connection comes up enters the halves in the same poll.\<close>

lemma quiet_up:
  assumes "quiet hs i" and "stop_free th s" and "sock_phase th = Connecting c"
    and "connect_poll hs start id (tcp i) c = Ret (Inr (Ready x), c')"
  shows "\<exists>th'. thread_poll L start i th s = Ret (th', s) \<and> sock_phase th' = Running \<and> stop_free th' s"
  using assms quiet_halves [OF assms(1), of "th\<lparr>sock_phase := Running\<rparr>" s L]
  by (cases x) (auto simp: thread_poll_def quiet_def stop_free_def)

lemma quiet_handshake:
  assumes "list_all (quiet hs) is" and "handshake_run n hs h = Inr x" and "n \<le> length is"
    and "stop_free th s" and "sock_phase th = Connecting (ConnHandshake (Some (Inl (HsInterrupted h))))"
  shows "\<exists>th'. thread_polls L start is (th, s) = Ret (th', s) \<and> sock_phase th' = Running"
  using assms
proof (induction n arbitrary: "is" h th)
  case (Suc n)
  then obtain i js where i: "is = i # js" by (cases "is") auto
  with Suc.prems have q: "quiet hs i" "list_all (quiet hs) js" by auto
  show ?case
  proof (cases "hs h")
    case (Inr y)
    obtain ws resp where "y = (ws, resp)" by (cases y)
    with Inr have "connect_poll hs start id (tcp i) (ConnHandshake (Some (Inl (HsInterrupted h)))) =
        Ret (Inr (Ready (ws, resp)), ConnHandshake None)"
      by (simp add: connect_async_poll_def)
    from quiet_up [OF q(1) Suc.prems(4,5) this, of L] quiet_running [OF q(2)] show ?thesis
      by (fastforce simp: i)
  next
    case (Inl e)
    then obtain h' where h': "e = HsInterrupted h'"
      using Suc.prems(2) by (cases e) auto
    let ?th = "th\<lparr>sock_phase := Connecting (ConnHandshake (Some (Inl (HsInterrupted h'))))\<rparr>"
    have "thread_poll L start i th s = Ret (?th, s)"
      using Suc.prems(5) q(1) by (simp add: thread_poll_def quiet_def connect_async_poll_def Inl h')
    moreover have "\<exists>th'. thread_polls L start js (?th, s) = Ret (th', s) \<and> sock_phase th' = Running"
      using Suc.prems q(2) by (intro Suc.IH [of js h']) (auto simp: i Inl h' stop_free_def)
    ultimately show ?thesis by (simp add: i)
  qed
qed simp

text \<open>The poll that finishes the TCP connection makes the first two calls of the handshake.\<close>

lemma first_handshake:
  assumes "handshake_run n hs (start sock) = Inr x" and "n \<le> Suc k"
    and "connect_poll hs start id tc ConnTcp = Ret (r, c')" and "tc = Inr (Ready sock)" and "\<nexists>x. r = Inr (Ready x)"
  shows "\<exists>h m. r = Inr NotReady \<and> c' = ConnHandshake (Some (Inl (HsInterrupted h))) \<and>
    handshake_run m hs h = Inr x \<and> m \<le> k"
proof -
  obtain m where n: "n = Suc m" using assms(1) by (cases n) auto
  obtain h where h: "hs (start sock) = Inl (HsInterrupted h)" "handshake_run m hs h = Inr x"
    using assms(1,3-5)
    by (auto simp: n client_async_def connect_async_poll_def split: sum.splits handshake_error.splits prod.splits)
  obtain l where l: "m = Suc l" using h(2) by (cases m) auto
  obtain h' where "hs h = Inl (HsInterrupted h')" "handshake_run l hs h' = Inr x"
    using h assms(3-5)
    by (auto simp: l client_async_def connect_async_poll_def split: sum.splits handshake_error.splits prod.splits)
  with h assms(2-4) show ?thesis
    by (intro exI [of _ h'] exI [of _ l]) (auto simp: n l client_async_def connect_async_poll_def)
qed

lemma quiet_tcp:
  assumes "list_all (\<lambda>i. quiet hs i \<and> tcp i = Inr NotReady) is" and "sock_phase th = Connecting ConnTcp"
  shows "thread_polls L start is (th, s) = Ret (th, s)"
  using assms(1)
proof (induction "is")
  case (Cons i "is")
  then have "thread_poll L start i th s = Ret (th, s)"
    using assms(2) by (cases th) (simp add: thread_poll_def)
  with Cons show ?case by simp
qed simp

lemma thread_polls_append:
  "thread_polls L start (is @ js) x = obind (thread_polls L start is x) (thread_polls L start js)"
  by (induction "is" arbitrary: x) (simp_all add: obind_def split: outcome.split)

lemma thread_polls_all:
  assumes "sock_inv (th, s)" and "thread_polls L start (is @ [i]) (th, s) = Ret (th', t)" and "sock_phase th' = Running"
  shows "map attempted (sock_out th') = write_stream (queued (sock_tx th) (trace t))"
proof -
  have runs: "sock_steps L start x y" if "thread_polls L start is x = Ret y" for x y
    using that
  proof (induction "is" arbitrary: x)
    case (Cons j js)
    then obtain z where "thread_poll L start j (fst x) (snd x) = Ret z" "thread_polls L start js z = Ret y"
      by (auto simp: obind_eq_Ret)
    with Cons.IH [of z] thread_poll_steps [of L start j "fst x" "snd x" "fst z" "snd z"] show ?case
      by (auto intro: rtranclp_trans)
  qed simp
  obtain y where y: "thread_polls L start is (th, s) = Ret y" "thread_poll L start i (fst y) (snd y) = Ret (th', t)"
    using assms(2) by (auto simp: thread_polls_append obind_eq_Ret)
  from socket.inv_steps [OF runs [OF y(1)] assms(1)] have "sock_inv (fst y, snd y)" by simp
  from thread_poll_all [OF this y(2) assms(3)] sock_tx_steps [OF runs [OF y(1)]] show ?thesis by simp
qed

text \<open>When every call of \<open>start_send\<close> succeeds, no effect is a refused one.\<close>

definition accepting :: "('sock, 'h, 'r) wire \<Rightarrow> bool" where
  "accepting i \<longleftrightarrow> (\<forall>k. ws_start_send (writes i k) = Inr SinkReady)"

lemma attempted_accepted: "set (sink_results out) \<subseteq> {Inr SinkReady} \<Longrightarrow> map attempted out = out"
proof (induction out)
  case (Cons x out)
  then show ?case by (cases x) auto
qed simp

lemma thread_polls_accepted:
  assumes "thread_polls L start is (th, s) = Ret (th', t)" and "list_all accepting is"
    and "map attempted (sock_out th) = sock_out th"
  shows "map attempted (sock_out th') = sock_out th'"
  using assms
proof (induction "is" arbitrary: th s)
  case (Cons i "is")
  then obtain th1 s1 where one: "thread_poll L start i th s = Ret (th1, s1)"
    and rest: "thread_polls L start is (th1, s1) = Ret (th', t)"
    by (auto simp: obind_eq_Ret)
  obtain new where new: "sock_out th1 = sock_out th @ new"
    "sink_results new = first_results (writes i) (length (sink_results new))"
    using thread_poll_calls [OF one] by blast
  have "set (first_results (writes i) n) \<subseteq> {Inr SinkReady}" for n
    using Cons.prems(2) by (auto simp: first_results_def accepting_def)
  with new(2) have "map attempted new = new" by (metis attempted_accepted)
  with Cons.IH [OF rest] Cons.prems(2,3) new(1) show ?case by simp
qed simp

section \<open>Starting and ending\<close>

text \<open>Only the names of hosts that are addresses get a thread that does not panic at once.\<close>

lemma no_slash: "CHR ''/'' \<notin> set (replace_str ''/'' [] h)"
  by (induction "''/''" "[] :: string" h rule: replace_str.induct) auto

lemma socket_start_result:
  "socket_start parse_addr parse_url host tx =
     (if parse_addr (host_address host) = None \<or> parse_url (''ws://'' @ host_address host) = None then Panic
      else Ret \<lparr>sock_tx = tx, sock_phase = Connecting ConnTcp, sock_taken = 0, sock_out = []\<rparr>)"
proof -
  have "replace_str ''ws://'' [] (host_address host) = host_address host"
    using no_slash by (intro replace_absent) (simp_all add: host_address_def)
  then show ?thesis
    by (cases "parse_addr (host_address host)"; cases "parse_url (''ws://'' @ host_address host)")
      (simp_all add: socket_start_def connect_async_def Let_def)
qed

lemma steps_thread_poll: "thread_poll L start i th s = Ret (th', t) \<Longrightarrow> client_steps s t"
  using sock_steps_client [OF thread_poll_steps] by fastforce

lemma ended_step: "sock_step L start x y \<Longrightarrow> sock_phase (fst x) = Ended \<Longrightarrow> fst y = fst x"
  by (induction rule: sock_step.induct) simp_all

lemma ended_silent: "sock_steps L start x y \<Longrightarrow> sock_phase (fst x) = Ended \<Longrightarrow> fst y = fst x"
  by (induction rule: rtranclp_induct) (auto dest: ended_step)

text \<open>
  What a status channel yields in the end: \<open>true\<close> if the thread has answered it, and nothing if
  the thread has ended without that, because the sender went with the queue. A check whose
  message is queued when the thread ends, and not yet taken, panics in the caller.
\<close>

definition status_from :: "('h, 'r) socket \<Rightarrow> chan \<Rightarrow> bool option" where
  "status_from th c = (if SendStatus c True \<in> set (sock_out th) then Some True else None)"

lemma status_check_race:
  assumes "sock_phase th = Running" and "SendStatus (next_chan s) True \<notin> set (sock_out th)"
    and "sock_steps L start (th\<lparr>sock_phase := Ended\<rparr>, log (Queue (wk_tx wk) (ConnectedStatus (next_chan s))) s) (th', t)"
    and "wk_thread wk \<noteq> None" and "ws_open N (wk_tx wk)" and "status_reply N = status_from th'"
  shows "worker_is_connected N wk s = Panic"
  using assms(2,4-6) ended_silent [OF assms(3)]
  by (auto simp: worker_is_connected_def new_chan_def send_request_def status_from_def)

section \<open>A small socket\<close>

text \<open>A thread on channel 0, a handshake that is interrupted once, and a wire on which \<open>rs\<close> arrives.\<close>

definition demo_socket :: "(nat, nat \<times> nat) socket" where
  "demo_socket = \<lparr>sock_tx = 0, sock_phase = Connecting ConnTcp, sock_taken = 0, sock_out = []\<rparr>"

definition demo_handshake :: "(nat, nat \<times> nat) handshake" where
  "demo_handshake h = (if h = 0 then Inr (0, 0) else Inl (HsInterrupted (h - 1)))"

definition demo_wire :: "io_error + nat async \<Rightarrow> (ws_error + ws_message) list \<Rightarrow> (nat, nat, nat \<times> nat) wire" where
  "demo_wire tc rs =
     \<lparr>tcp = tc, hand = demo_handshake, caller_waits = True, sender_gone = False, writes = \<lambda>_. Inr (), reads = rs\<rparr>"

section \<open>Properties\<close>

text \<open>
  C19: A socket thread hands what is queued to the sink, in order. Start a thread on a channel
  and let its connection, the portions in which its two halves are polled and the steps of all
  other threads interleave in any way, whatever the calls of \<open>start_send\<close> return; then poll it
  once more. At every moment the messages it has tried to send, and the checks it has answered,
  are an initial part of what is queued so far, up to the first \<open>Stop\<close>; if that poll leaves the
  thread running, they are all of it. So no message is skipped, tried twice or overtaken. What is
  lost is exactly what \<open>start_send\<close> refuses: the poll's calls, in order, have the results of its
  calls of \<open>write_message\<close>, and a message whose call fails is recorded as refused, is never
  tried again, and leaves the thread running.
\<close>

theorem socket_writes_in_order:
  assumes "sock_start (th0, s0)" and "sock_steps L start (th0, s0) (th, s)"
    and "thread_poll L start i th s = Ret (th', t)"
  shows "(\<exists>rest. write_stream (queued (sock_tx th0) (trace t)) = map attempted (sock_out th') @ rest) \<and>
    (sock_phase th' = Running \<longrightarrow>
       map attempted (sock_out th') = write_stream (queued (sock_tx th0) (trace t))) \<and>
    (\<exists>new. sock_out th' = sock_out th @ new \<and>
       sink_results new = map (\<lambda>k. ws_start_send (writes i k)) [0..<length (sink_results new)])"
proof -
  have "sock_inv (th0, s0)" using assms(1) by (rule socket.inv_start)
  then have inv: "sock_inv (th, s)" using socket.inv_steps [OF assms(2)] by simp
  then have inv': "sock_inv (th', t)" using socket.inv_steps [OF thread_poll_steps [OF assms(3)]] by simp
  have tx: "sock_tx th = sock_tx th0" "sock_tx th' = sock_tx th0"
    using sock_tx_steps [OF assms(2)] sock_tx_steps [OF thread_poll_steps [OF assms(3)]] by simp_all
  from sock_out_prefix [OF inv'] thread_poll_all [OF inv assms(3)]
    thread_poll_calls [OF assms(3), unfolded first_results_def] show ?thesis by (simp add: tx)
qed

text \<open>Two messages are queued on the channel of the thread, and \<open>start_send\<close> refuses the first.\<close>

theorem socket_writes_in_order_witness:
  "let s = log (Queue 0 (Text ''b'')) (log (Queue 1 (Text ''x'')) (log (Queue 0 (Text ''a'')) demo_sys));
       i = (demo_wire (Inr (Ready 1)) [])\<lparr>writes := \<lambda>k. if k = 0 then Inl (WsOther ''closed'') else Inr ()\<rparr> in
   \<exists>th'. thread_poll (demo_lib (RespBatch [])) id i demo_socket s = Ret (th', s) \<and>
     sock_phase th' = Running \<and>
     map attempted (sock_out th') = [WsSend (MsgText ''a''), WsSend (MsgText ''b'')] \<and>
     sink_results (sock_out th') = [Inl (Ws (WsOther ''closed'')), Inr SinkReady]"
proof -
  define s where "s = log (Queue 0 (Text ''b'')) (log (Queue 1 (Text ''x'')) (log (Queue 0 (Text ''a'')) demo_sys))"
  define i where "i = (demo_wire (Inr (Ready 1)) [])\<lparr>writes := \<lambda>k. if k = 0 then Inl (WsOther ''closed'') else Inr ()\<rparr>"
  have "connect_poll (hand i) id id (tcp i) ConnTcp = Ret (Inr (Ready (0, 0)), ConnHandshake None)"
    by (simp add: i_def demo_wire_def client_async_def demo_handshake_def connect_async_poll_def)
  then obtain th' where th': "thread_poll (demo_lib (RespBatch [])) id i demo_socket s = Ret (th', s)" "sock_phase th' = Running"
    using quiet_up [of demo_handshake i demo_socket s ConnTcp id "(0, 0)"]
    by (auto simp: quiet_def stop_free_def i_def demo_wire_def demo_socket_def s_def log_def demo_sys_def)
  have start: "sock_start (demo_socket, s)" by (simp add: sock_start_def demo_socket_def)
  obtain new where new: "sock_out th' = sock_out demo_socket @ new"
    "sink_results new = map (\<lambda>k. ws_start_send (writes i k)) [0..<length (sink_results new)]"
    and "sock_phase th' = Running \<longrightarrow> map attempted (sock_out th') = write_stream (queued (sock_tx demo_socket) (trace s))"
    using socket_writes_in_order [OF start rtranclp.rtrancl_refl th'(1)] by blast
  moreover have "sock_out th' = new" using new(1) by (simp add: demo_socket_def)
  ultimately have out: "map attempted (sock_out th') = write_stream (queued 0 (trace s))"
    and res: "sink_results (sock_out th') =
      map (\<lambda>k. ws_start_send (writes i k)) [0..<length (sink_results (sock_out th'))]"
    using th'(2) by (simp_all only: demo_socket_def socket.simps)
  have two: "map attempted (sock_out th') = [WsSend (MsgText ''a''), WsSend (MsgText ''b'')]"
    using out by (simp add: s_def log_def demo_sys_def write_stream_Cons)
  have calls: "length (sink_result x) = length (sink_result (attempted x))" for x by (cases x) simp_all
  then have "length (sink_results (sock_out th')) = length (sink_results (map attempted (sock_out th')))"
    by (simp add: length_concat comp_def)
  also have "\<dots> = Suc (Suc 0)" by (simp add: two)
  finally have "sink_results (sock_out th') = map (\<lambda>k. ws_start_send (writes i k)) [0..<Suc (Suc 0)]"
    using res by metis
  moreover have "map (\<lambda>k. ws_start_send (writes i k)) [0..<Suc (Suc 0)] = [Inl (Ws (WsOther ''closed'')), Inr SinkReady]"
    by (simp add: i_def demo_wire_def ws_start_send_def)
  ultimately have "sink_results (sock_out th') = [Inl (Ws (WsOther ''closed'')), Inr SinkReady]" by (rule trans)
  with th' two show ?thesis unfolding s_def i_def Let_def by (intro exI [of _ th'] conjI)
qed

text \<open>
  C21: When a socket thread panics. In every state that a thread and the other threads can reach
  together, a poll of the thread panics in exactly two cases: the connection comes up in this
  poll and the caller has stopped waiting for it; or a ping or pong frame is among the
  messages the websocket yields before its first error, and the write half has not ended the
  thread before the read half is polled. The handshake is never polled after it has ended.
\<close>

theorem socket_thread_panics:
  assumes "sock_start (th0, s0)" and "sock_steps L start (th0, s0) (th, s)"
  shows "thread_poll L start i th s = Panic \<longleftrightarrow>
    comes_up start i th \<and> \<not> caller_waits i \<or>
    (comes_up start i th \<or> sock_phase th = Running) \<and>
      Stop \<notin> set (untaken th s) \<and> \<not> sender_gone i \<and> list_ex control_frame (heard (reads i))"
proof (rule thread_poll_panic)
  have "sock_inv (th, s)"
    using socket.inv_steps [OF assms(2)] socket.inv_start [OF assms(1)] by simp
  then show "conn_ok (sock_phase th)" by (simp add: sock_inv_def Let_def)
qed

theorem socket_thread_panics_witness:
  "thread_poll (demo_lib (RespBatch [])) id (demo_wire (Inr (Ready 1)) [Inr (MsgPing [])]) demo_socket demo_sys = Panic \<and>
   thread_poll (demo_lib (RespBatch [])) id ((demo_wire (Inr (Ready 1)) [])\<lparr>caller_waits := False\<rparr>) demo_socket demo_sys = Panic \<and>
   thread_poll (demo_lib (RespBatch [])) id (demo_wire (Inr (Ready 1)) [Inl (WsIo WouldBlock), Inr (MsgPing [])]) demo_socket demo_sys \<noteq> Panic"
proof -
  have start: "sock_start (demo_socket, demo_sys)" by (simp add: sock_start_def demo_socket_def)
  have up: "comes_up id (demo_wire (Inr (Ready 1)) rs) demo_socket"
    "comes_up id ((demo_wire (Inr (Ready 1)) rs)\<lparr>caller_waits := False\<rparr>) demo_socket" for rs
    by (simp_all add: comes_up_def demo_socket_def demo_wire_def client_async_def demo_handshake_def connect_async_poll_def)
  have un: "untaken demo_socket demo_sys = []" by (simp add: untaken_def demo_socket_def demo_sys_def)
  show ?thesis
    unfolding socket_thread_panics [OF start rtranclp.rtrancl_refl]
    by (simp only: up un) (simp add: demo_wire_def heard_def)
qed

text \<open>
  C20: A connection comes up. Let nobody give up and nobody stop the worker. If the TCP
  connection is pending in the first polls and ready in the ones that follow, and the handshake
  ends with a websocket after at most as many calls as there are polls left, then the polls
  leave the thread running, and it has handed everything that was queued meanwhile to the sink,
  in order; when no call of \<open>start_send\<close> fails in these polls, all of it has been accepted. The
  client's tables are as they were.
\<close>

theorem socket_comes_up:
  assumes "sock_start (th, s)" and "Stop \<notin> set (queued (sock_tx th) (trace s))"
    and "list_all (\<lambda>i. quiet hs i \<and> tcp i = Inr NotReady) early"
    and "list_all (\<lambda>i. quiet hs i \<and> tcp i = Inr (Ready sock)) later"
    and "handshake_run n hs (start sock) = Inr x" and "n \<le> length later"
  shows "\<exists>th'. thread_polls L start (early @ later) (th, s) = Ret (th', s) \<and> sock_phase th' = Running \<and>
    map attempted (sock_out th') = write_stream (queued (sock_tx th) (trace s)) \<and>
    (list_all accepting (early @ later) \<longrightarrow> sock_out th' = write_stream (queued (sock_tx th) (trace s)))"
proof -
  have con: "sock_phase th = Connecting ConnTcp" using assms(1) by (simp add: sock_start_def)
  have free: "stop_free th s" using assms(2) by (simp add: stop_free_def)
  obtain i js where later: "later = i # js" and q: "quiet hs i" "tcp i = Inr (Ready sock)" "list_all (quiet hs) js"
    using assms(4-6) by (cases later; cases n) (auto simp: list_all_iff)
  obtain r c' where c: "connect_poll hs start id (tcp i) ConnTcp = Ret (r, c')"
    using connect_poll_ok [of ConnTcp] by fastforce
  have "\<exists>th'. thread_polls L start later (th, s) = Ret (th', s) \<and> sock_phase th' = Running"
  proof (cases "\<exists>x. r = Inr (Ready x)")
    case True
    then obtain y where "connect_poll hs start id (tcp i) ConnTcp = Ret (Inr (Ready y), c')" using c by blast
    from quiet_up [OF q(1) free con this, of L] obtain th1 where
      one: "thread_poll L start i th s = Ret (th1, s)" "sock_phase th1 = Running" "stop_free th1 s" by blast
    from quiet_running [OF q(3) one(3,2), of L start] one(1) show ?thesis by (simp add: later)
  next
    case False
    have "n \<le> Suc (length js)" using assms(6) by (simp add: later)
    from first_handshake [OF assms(5) this c q(2) False] obtain h m where
      "r = Inr NotReady" "c' = ConnHandshake (Some (Inl (HsInterrupted h)))" "handshake_run m hs h = Inr x" "m \<le> length js"
      by blast
    moreover from this have "thread_poll L start i th s = Ret (th\<lparr>sock_phase := Connecting c'\<rparr>, s)"
      using con c q(1) by (simp add: thread_poll_def quiet_def)
    ultimately show ?thesis
      using quiet_handshake [OF q(3), of m h x "th\<lparr>sock_phase := Connecting c'\<rparr>" s] free
      by (auto simp: later stop_free_def)
  qed
  then obtain th' where th': "thread_polls L start (early @ later) (th, s) = Ret (th', s)" "sock_phase th' = Running"
    using quiet_tcp [OF assms(3) con] by (auto simp: thread_polls_append)
  moreover have eq: "early @ later = (early @ butlast later) @ [last later]" by (simp add: later)
  from thread_polls_all [OF socket.inv_start [OF assms(1)] th'(1) [unfolded eq] th'(2)]
  have out: "map attempted (sock_out th') = write_stream (queued (sock_tx th) (trace s))" .
  moreover have "map attempted (sock_out th') = sock_out th'" if "list_all accepting (early @ later)"
    using thread_polls_accepted [OF th'(1) that] assms(1) by (simp add: sock_start_def)
  ultimately show ?thesis by (intro exI [of _ th']) (auto simp: out)
qed

theorem socket_comes_up_witness:
  "\<exists>th'. thread_polls (demo_lib (RespBatch [])) id
      [demo_wire (Inr NotReady) [], demo_wire (Inr (Ready 2)) [], demo_wire (Inr (Ready 2)) [], demo_wire (Inr (Ready 2)) []]
      (demo_socket, log (Queue 0 (Text ''a'')) demo_sys) = Ret (th', log (Queue 0 (Text ''a'')) demo_sys) \<and>
    sock_phase th' = Running \<and> sock_out th' = [WsSend (MsgText ''a'')]"
  using socket_comes_up [of demo_socket "log (Queue 0 (Text ''a'')) demo_sys" demo_handshake
      "[demo_wire (Inr NotReady) []]" 2 "[demo_wire (Inr (Ready 2)) [], demo_wire (Inr (Ready 2)) [], demo_wire (Inr (Ready 2)) []]"
      3 id "(0, 0)" "demo_lib (RespBatch [])"]
  by (simp add: sock_start_def demo_socket_def log_def demo_sys_def quiet_def demo_wire_def numeral_3_eq_3
      demo_handshake_def write_stream_Cons accepting_def ws_start_send_def) blast

text \<open>
  C4: A request goes out and its response comes back through the socket. Take a client whose
  front worker has a running thread that has taken everything queued so far, and make a
  request. The next poll of the thread hands the text of the request to the sink and nothing
  else, and records whether \<open>start_send\<close> accepts it. If a later poll hears one text message that parses as a single response with the id of the
  request, that poll returns, the thread goes on, and the future polled after it yields the
  decoded result, the decoder's error, or the rendered failure.
\<close>

theorem request_served_by_socket:
  assumes "sockets s = wk # rest" and "ws_open N (wk_tx wk)" and "pending s (ids s) = None"
    and "sock_phase th = Running" and "sock_tx th = wk_tx wk"
    and "sock_taken th = length (queued (wk_tx wk) (trace s))"
    and "request L N sec mth ps d s = (f, t)"
    and "\<not> sender_gone i" and "reads i = []" and "\<not> sender_gone j" and "reads j = [Inr (MsgText txt)]"
    and "response_from_str L txt = Inr (RespSingle out)" and "output_id out = IdNum (ids s)"
  shows "\<exists>th1 th2 v. thread_poll L start i th t = Ret (th1, t) \<and> thread_poll L start j th1 t = Ret (th2, v) \<and>
    sock_phase th2 = Running \<and>
    sock_out th2 = sock_out th @
      [let msg = MsgText (call_to_string L (build_request (ids s) mth ps)) in
       case ws_start_send (writes i 0) of Inr _ \<Rightarrow> WsSend msg | Inl e \<Rightarrow> WsRefused msg e] \<and>
    (oneshot_contract (trace v) w \<longrightarrow>
       fst (yf_poll w f) =
         (case out of
            OutSuccess x \<Rightarrow> map_ok Ready (d (success_result x))
          | OutFailure x \<Rightarrow> Inl (YumError (debug_rpc_error L (failure_error x)))))"
proof -
  let ?m = "Text (call_to_string L (build_request (ids s) mth ps))"
  have tr: "trace (enrolled sec s) = trace s"
    using assms(3) by (simp add: enrolled_def stamp_def client_defs)
  have "send L N ?m (enrolled sec s) =
      (Inr (), (enrolled sec s)\<lparr>sockets := rest @ [wk], trace := trace s @ [Queue (wk_tx wk) ?m]\<rparr>)"
    using send_open [of "enrolled sec s" wk rest N L ?m] assms(1,2) tr by simp
  then have t: "trace t = trace s @ [Queue (wk_tx wk) ?m]" "pending t (ids s) = Some (next_chan s)"
    and f: "f = FWaiting (next_chan s) d"
    using assms(7) by (auto simp: request_send Let_def)
  define th1 where "th1 = th\<lparr>sock_taken := Suc (sock_taken th), sock_out := sock_out th @ map (send_effect (writes i 0)) (write_item ?m)\<rparr>"
  have "untaken th t = [?m]" "untaken th1 t = []" using assms(5,6) t by (simp_all add: untaken_def th1_def)
  note out = this
  have th1: "thread_poll L start i th t = Ret (th1, t)"
    using assms(4,8,9) out(1) sock_running [of th]
    by (cases th) (simp add: thread_poll_def halves_poll_eq wrote_def th1_def Let_def)
  let ?r = "reply_result (reply_of L out)"
  have "read_message L (MsgText txt) t = Ret (answer (ids s) ?r t)" by (rule read_single [OF assms(12,13)])
  then have th2: "thread_poll L start j th1 t = Ret (th1, answer (ids s) ?r t)"
    using assms(4,10,11) out(2)
    by (cases th) (simp add: thread_poll_def halves_poll_eq wrote_def th1_def Let_def ws_poll_def)
  have "fst (yf_poll w f) = map_ok Ready (and_then ?r d)"
    if "oneshot_contract (trace (answer (ids s) ?r t)) w"
  proof -
    have "Answer (next_chan s) ?r \<in> set (trace (answer (ids s) ?r t))" using answer_Some [OF t(2)] by simp
    with that have "w (next_chan s) = RxReady ?r" by (simp add: oneshot_contract_def)
    from poll_ready [of w "next_chan s" ?r d, OF this] show ?thesis by (simp add: f)
  qed
  with th1 th2 assms(4) show ?thesis
    by (intro exI [of _ th1] exI [of _ "answer (ids s) ?r t"])
      (auto simp: th1_def reply_of_def Let_def split: rpc_output.split)
qed

theorem request_served_by_socket_witness:
  "let L = demo_lib (RespSingle (OutSuccess \<lparr>success_result = JBool True, success_id = IdNum 1\<rparr>));
       th = demo_socket\<lparr>sock_phase := Running\<rparr>;
       r = request L demo_net 100 ''eth_syncing'' [] Inr demo_sys in
   \<exists>th1 th2 v. thread_poll L id (demo_wire (Inr NotReady) []) th (snd r) = Ret (th1, snd r) \<and>
     thread_poll L id (demo_wire (Inr NotReady) [Inr (MsgText ''reply'')]) th1 (snd r) = Ret (th2, v) \<and>
     sock_out th2 = [WsSend (MsgText ''call'')] \<and>
     (oneshot_contract (trace v) (\<lambda>_. RxReady (Inr (JBool True))) \<longrightarrow>
        fst (yf_poll (\<lambda>_. RxReady (Inr (JBool True))) (fst r)) = Inr (Ready (JBool True)))"
proof -
  define L where "L = demo_lib (RespSingle (OutSuccess \<lparr>success_result = JBool True, success_id = IdNum 1\<rparr>))"
  define th where "th = demo_socket\<lparr>sock_phase := Running\<rparr>"
  define r where "r = request L demo_net 100 ''eth_syncing'' [] Inr demo_sys"
  have "\<exists>th1 th2 v. thread_poll L id (demo_wire (Inr NotReady) []) th (snd r) = Ret (th1, snd r) \<and>
     thread_poll L id (demo_wire (Inr NotReady) [Inr (MsgText ''reply'')]) th1 (snd r) = Ret (th2, v) \<and>
     sock_phase th2 = Running \<and>
     sock_out th2 = sock_out th @ [WsSend (MsgText (call_to_string L (build_request (ids demo_sys) ''eth_syncing'' [])))] \<and>
     (oneshot_contract (trace v) (\<lambda>_. RxReady (Inr (JBool True))) \<longrightarrow>
        fst (yf_poll (\<lambda>_. RxReady (Inr (JBool True))) (fst r)) = map_ok Ready (Inr (JBool True)))"
    using request_served_by_socket [of demo_sys demo_worker "[]" demo_net th L 100 "''eth_syncing''" "[]" Inr "fst r" "snd r"
        "demo_wire (Inr NotReady) []" "demo_wire (Inr NotReady) [Inr (MsgText ''reply'')]" "''reply''"
        "OutSuccess \<lparr>success_result = JBool True, success_id = IdNum 1\<rparr>" id "\<lambda>_. RxReady (Inr (JBool True))"]
    by (simp add: L_def th_def r_def demo_sys_def demo_worker_def demo_net_def demo_socket_def demo_wire_def output_id_def ws_start_send_def)
  then show ?thesis
    unfolding L_def th_def r_def Let_def by (simp add: demo_socket_def) blast
qed

end
