(* ===== verification/Promise_Spec.thy ===== *)
theory Promise_Spec
  imports Yum_Client
begin

text \<open>
  What the client promises, without its tables: every channel is a promise that is fresh, then
  waiting, and then settled with a result or dropped, once and for all. The client of
  \<open>src/client/mod.rs\<close>, with its ids, its table of senders and its threads, is a refinement of
  this: each of its atomic steps is a sequence of steps of the promises, mostly none or one.
\<close>

section \<open>Promises\<close>

datatype promise = Fresh | Waiting | Settled "json rslt" | Dropped

type_synonym promises = "chan \<Rightarrow> promise"

inductive promise_step :: "promises \<Rightarrow> promises \<Rightarrow> bool" where
  promise_made: "p c = Fresh \<Longrightarrow> promise_step p (p(c := Waiting))"
| promise_kept: "p c = Waiting \<Longrightarrow> promise_step p (p(c := Settled r))"
| promise_dropped: "p c = Waiting \<Longrightarrow> promise_step p (p(c := Dropped))"

abbreviation promise_steps :: "promises \<Rightarrow> promises \<Rightarrow> bool" where
  "promise_steps \<equiv> promise_step\<^sup>*\<^sup>*"

fun final :: "promise \<Rightarrow> bool" where
  "final (Settled r) = True"
| "final Dropped = True"
| "final _ = False"

lemma final_step: "promise_step p q \<Longrightarrow> final (p c) \<Longrightarrow> q c = p c"
  by (induction rule: promise_step.induct) auto

lemma final_steps: "promise_steps p q \<Longrightarrow> final (p c) \<Longrightarrow> q c = p c"
proof (induction rule: rtranclp_induct)
  case (step q q')
  with final_step [OF step.hyps(2), of c] show ?case by simp
qed simp

section \<open>The promises of a client\<close>

fun settled :: "chan \<Rightarrow> event list \<Rightarrow> promise option" where
  "settled c [] = None"
| "settled c (Answer c' r # es) = (if c' = c then Some (Settled r) else settled c es)"
| "settled c (Cancel c' # es) = (if c' = c then Some Dropped else settled c es)"
| "settled c (_ # es) = settled c es"

definition promises_of :: "sys \<Rightarrow> promises" where
  "promises_of s c =
     (case settled c (trace s) of
        Some p \<Rightarrow> p
      | None \<Rightarrow> if c \<in> ran (pending s) then Waiting else Fresh)"

lemma settled_append: "settled c (es @ fs) = (case settled c es of None \<Rightarrow> settled c fs | Some p \<Rightarrow> Some p)"
  by (induction c es rule: settled.induct) auto

lemma settled_None: "settled c es = None \<longleftrightarrow> c \<notin> set (answered es) \<and> c \<notin> set (cancelled es)"
  by (induction c es rule: settled.induct) auto

lemma settled_final: "settled c es = Some p \<Longrightarrow> final p"
  by (induction c es rule: settled.induct) (auto split: if_splits)

lemma settled_Cancels: "settled c (map Cancel cs) = (if c \<in> set cs then Some Dropped else None)"
  by (induction cs) auto

lemma promises_waiting:
  assumes "table_inv s" and "c \<in> ran (pending s)"
  shows "promises_of s c = Waiting" and "settled c (trace s) = None"
proof -
  show none: "settled c (trace s) = None" using assms by (auto simp: table_inv_def used_def settled_None)
  with assms(2) show "promises_of s c = Waiting" by (simp add: promises_of_def)
qed

lemma promises_fresh:
  assumes "table_inv s"
  shows "promises_of s (next_chan s) = Fresh" and "settled (next_chan s) (trace s) = None"
    and "next_chan s \<notin> ran (pending s)"
proof -
  show none: "settled (next_chan s) (trace s) = None" and ran: "next_chan s \<notin> ran (pending s)"
    using assms by (auto simp: table_inv_def used_def settled_None)
  then show "promises_of s (next_chan s) = Fresh" by (simp add: promises_of_def)
qed

lemma promises_same:
  "pending t = pending s \<Longrightarrow> (\<And>c. settled c (trace t) = settled c (trace s)) \<Longrightarrow> promises_of t = promises_of s"
  by (rule ext) (simp only: promises_of_def)

text \<open>Several waiting promises are dropped one after the other.\<close>

lemma drop_promises:
  "distinct cs \<Longrightarrow> \<forall>c \<in> set cs. p c = Waiting \<Longrightarrow> promise_steps p (\<lambda>c. if c \<in> set cs then Dropped else p c)"
proof (induction cs arbitrary: p)
  case (Cons c cs)
  let ?p = "p(c := Dropped)"
  have "promise_step p ?p" using Cons.prems by (intro promise_dropped) simp
  moreover have "promise_steps ?p (\<lambda>d. if d \<in> set cs then Dropped else ?p d)"
    using Cons.prems by (intro Cons.IH) auto
  moreover have "(\<lambda>d. if d \<in> set cs then Dropped else ?p d) = (\<lambda>d. if d \<in> set (c # cs) then Dropped else p d)"
    by (auto simp: fun_eq_iff)
  ultimately show ?case by (metis converse_rtranclp_into_rtranclp)
qed simp

section \<open>Each step of the client\<close>

lemma register_refines:
  assumes "table_inv s"
  shows "promise_steps (promises_of s) (promises_of (snd (snd (register s))))"
proof (cases "pending s (ids s)")
  case None
  let ?t = "snd (snd (register s))"
  have "ran (pending ?t) = insert (next_chan s) (ran (pending s))" using None by (simp add: ran_map_upd)
  moreover have "trace ?t = trace s" using None by (simp add: client_defs)
  ultimately have "promises_of ?t = (promises_of s)(next_chan s := Waiting)"
    using promises_fresh [OF assms] by (auto simp: promises_of_def fun_eq_iff split: option.split)
  moreover have "promise_step (promises_of s) ((promises_of s)(next_chan s := Waiting))"
    by (rule promise_made) (rule promises_fresh(1) [OF assms])
  ultimately show ?thesis by auto
next
  case (Some old)
  let ?t = "snd (snd (register s))"
  have old: "old \<in> ran (pending s)" using Some by (rule ranI)
  then have ne: "old \<noteq> next_chan s" using promises_fresh(3) [OF assms] by blast
  have ran: "ran (pending ?t) = insert (next_chan s) (ran (pending s) - {old})"
    using assms Some by (simp add: table_inv_def ran_overwrite)
  moreover have "trace ?t = trace s @ [Cancel old]" using Some by (simp add: client_defs)
  ultimately have "promises_of ?t = (promises_of s)(old := Dropped, next_chan s := Waiting)"
    using promises_fresh [OF assms] promises_waiting [OF assms old] ne
    by (auto simp: promises_of_def fun_eq_iff settled_append split: option.split)
  moreover have "promise_step (promises_of s) ((promises_of s)(old := Dropped))"
    by (rule promise_dropped) (rule promises_waiting(1) [OF assms old])
  moreover have "promise_step ((promises_of s)(old := Dropped)) ((promises_of s)(old := Dropped, next_chan s := Waiting))"
    using promises_fresh(1) [OF assms] ne by (intro promise_made) simp
  ultimately show ?thesis by (metis converse_rtranclp_into_rtranclp r_into_rtranclp)
qed

lemma answer_refines:
  assumes "table_inv s"
  shows "promise_steps (promises_of s) (promises_of (answer i r s))"
proof (cases "pending s i")
  case None
  then show ?thesis by (simp add: answer_def)
next
  case (Some c)
  have c: "c \<in> ran (pending s)" using Some by (rule ranI)
  have "ran (pending (answer i r s)) = ran (pending s) - {c}"
    using assms Some by (simp add: answer_Some table_inv_def ran_delete)
  then have "promises_of (answer i r s) = (promises_of s)(c := Settled r)"
    using promises_waiting [OF assms c] answer_Some [OF Some]
    by (auto simp: promises_of_def fun_eq_iff settled_append split: option.split)
  moreover have "promise_step (promises_of s) ((promises_of s)(c := Settled r))"
    by (rule promise_kept) (rule promises_waiting(1) [OF assms c])
  ultimately show ?thesis by auto
qed

lemma drop_refines:
  assumes "table_inv s" and "set order = ran (pending s)" and "distinct order"
  shows "promise_steps (promises_of s) (promises_of (drop_client order s))"
proof -
  have "promise_steps (promises_of s) (\<lambda>c. if c \<in> set order then Dropped else promises_of s c)"
    using assms promises_waiting(1) by (intro drop_promises) auto
  moreover have "(\<lambda>c. if c \<in> set order then Dropped else promises_of s c) = promises_of (drop_client order s)"
    using promises_waiting(2) [OF assms(1)] assms(2)
    by (auto simp: promises_of_def fun_eq_iff drop_client_def settled_append settled_Cancels split: option.split)
  ultimately show ?thesis by simp
qed

lemma step_refines:
  assumes "table_inv s" and "client_step s t"
  shows "promise_steps (promises_of s) (promises_of t)"
proof -
  have same: "promise_steps (promises_of s) (promises_of t)"
    if "pending t = pending s" "\<And>c. settled c (trace t) = settled c (trace s)"
    using promises_same [OF that] by simp
  from assms(2) show ?thesis
  proof (cases rule: client_step.cases)
    case step_register
    with register_refines [OF assms(1)] show ?thesis by simp
  next
    case (step_answer i r)
    with answer_refines [OF assms(1)] show ?thesis by simp
  next
    case (step_drop order)
    with drop_refines [OF assms(1)] show ?thesis by simp
  next
    case (step_notify i v)
    then show ?thesis
      by (intro same) (auto simp: notify_def log_def settled_append split: option.split)
  qed (rule same; auto simp: log_def settled_append add_subscription_def split: option.split)+
qed

lemma steps_refine:
  assumes "client_steps s t" and "table_inv s"
  shows "promise_steps (promises_of s) (promises_of t)"
  using assms
proof (induction rule: rtranclp_induct)
  case (step t u)
  have "table_inv t" using step.hyps(1) step.prems by (rule table.inv_steps)
  from step_refines [OF this step.hyps(2)] step.IH [OF step.prems] show ?case by (rule rtranclp_trans [rotated])
qed simp

section \<open>Polling at a moment\<close>

text \<open>What the receiver of a channel answers in a state: the world that the promises make.\<close>

definition world_of :: "sys \<Rightarrow> world" where
  "world_of s c =
     (case promises_of s c of Settled r \<Rightarrow> RxReady r | Dropped \<Rightarrow> RxCanceled | _ \<Rightarrow> RxNotReady)"

lemma settled_answered:
  "distinct (answered es @ cancelled es) \<Longrightarrow>
     (Answer c r \<in> set es \<longrightarrow> settled c es = Some (Settled r)) \<and> (Cancel c \<in> set es \<longrightarrow> settled c es = Some Dropped)"
proof -
  have ans: "Answer c r \<in> set es \<Longrightarrow> c \<in> set (answered es)" for c r es
    by (induction es rule: answered.induct) auto
  have can: "Cancel c \<in> set es \<Longrightarrow> c \<in> set (cancelled es)" for c es
    by (induction es rule: cancelled.induct) auto
  show "distinct (answered es @ cancelled es) \<Longrightarrow> ?thesis"
    by (induction c es rule: settled.induct) (auto dest: ans can)
qed

lemma world_of_contract: "table_inv s \<Longrightarrow> oneshot_contract (trace s) (world_of s)"
  using settled_answered [of "trace s"]
  by (simp add: oneshot_contract_def world_of_def promises_of_def table_inv_def used_def)

text \<open>Once a future can answer, it answers the same in every later state.\<close>

lemma world_of_stable:
  assumes "table_inv s" and "client_steps s t" and "world_of s c \<noteq> RxNotReady"
  shows "world_of t c = world_of s c"
proof -
  have "final (promises_of s c)" using assms(3) by (cases "promises_of s c") (simp_all add: world_of_def)
  from final_steps [OF steps_refine [OF assms(2,1)] this] show ?thesis by (simp add: world_of_def)
qed

section \<open>Properties\<close>

text \<open>
  C3: The client keeps its promises. Start from any state that a new client can reach and let
  any interleaving of all its threads follow. The tables and ids of the client implement the
  promises: what happens is, for the channels, a sequence of steps in which a fresh channel
  becomes waiting and a waiting one is settled once or dropped once. So the result of a request is
  determined the moment it is there: if a future that waits on a channel could answer at the
  earlier moment, then polling it at the later moment gives the same answer and the same rest.
\<close>

theorem client_keeps_promises:
  assumes "reach client_start client_step s" and "client_steps s t"
  shows "promise_steps (promises_of s) (promises_of t) \<and>
    oneshot_contract (trace s) (world_of s) \<and>
    (fst (yf_poll (world_of s) f) = Inr NotReady \<or> yf_poll (world_of t) f = yf_poll (world_of s) f)"
proof -
  have inv: "table_inv s" using assms(1) by (rule table.inv_reach)
  have "yf_poll (world_of t) f = yf_poll (world_of s) f" if "fst (yf_poll (world_of s) f) \<noteq> Inr NotReady"
    using that world_of_stable [OF inv assms(2)] by (cases f) (auto split: rx_poll.splits)
  with steps_refine [OF assms(2) inv] world_of_contract [OF inv] show ?thesis by blast
qed

theorem client_keeps_promises_witness:
  "let s = answer 1 (Inr JNull) (snd (snd (register demo_sys))); t = snd (snd (register s)) in
   promises_of s 1 = Settled (Inr JNull) \<and> promises_of s 2 = Fresh \<and> promises_of t 2 = Waiting \<and>
   promise_steps (promises_of s) (promises_of t) \<and>
   yf_poll (world_of t) (FWaiting 1 (\<lambda>_. Inr True)) = (Inr (Ready True), FComplete)"
proof -
  define s where "s = answer 1 (Inr JNull) (snd (snd (register demo_sys)))"
  define t where "t = snd (snd (register s))"
  have "reach client_start client_step demo_sys"
    by (rule reach_start) (simp add: client_start_def demo_sys_def)
  then have "reach client_start client_step (snd (snd (register demo_sys)))"
    by (rule reach_step) (rule step_register)
  then have reach: "reach client_start client_step s"
    unfolding s_def by (rule reach_step) (rule step_answer)
  have run: "client_steps s t" unfolding t_def by (rule steps_register)
  have p: "promises_of s 1 = Settled (Inr JNull)" "promises_of s 2 = Fresh" "promises_of t 2 = Waiting"
    by (simp_all add: t_def s_def promises_of_def client_defs demo_sys_def ran_def)
  then have "yf_poll (world_of s) (FWaiting 1 (\<lambda>_. Inr True)) = (Inr (Ready True), FComplete)"
    by (simp add: world_of_def)
  with client_keeps_promises [OF reach run, of "FWaiting 1 (\<lambda>_. Inr True)"] p show ?thesis
    unfolding Let_def s_def [symmetric] t_def [symmetric] by auto
qed

end
