(* ===== verification/Task_Wakeups.thy ===== *)
theory Task_Wakeups
  imports Program_Runs
begin

text \<open>
  Who wakes a reader. The streams of blocks and of transactions are read with \<open>wait()\<close> or by an
  executor: after a poll that answers \<open>NotReady\<close> the task sleeps until a receiver it is
  registered with gets a message or loses its sender. In futures 0.1 a task is registered
  with exactly the receivers that it polled and found empty, as long as they exist; a oneshot
  receiver forgets the task when it has notified it.

  A \<open>reader\<close> is a stream with the channels its task is registered with and whether the task may
  run. \<open>reader_step\<close> lets it poll when it may, and lets everybody else take a step of the
  client; the locale \<open>wakeful\<close> says what a stream has to promise so that a sleeping reader can
  be woken, and both streams are instances of it.
\<close>

section \<open>Readers\<close>

record 'st reader =
  rd_stream :: 'st
  rd_reg :: "chan set"
  rd_awake :: bool

definition new_reader :: "'st \<Rightarrow> 'st reader" where
  "new_reader st = \<lparr>rd_stream = st, rd_reg = {}, rd_awake = True\<rparr>"

text \<open>Channels that were answered or dropped notify the task and forget it.\<close>

definition wake :: "'st reader \<Rightarrow> sys \<Rightarrow> 'st reader" where
  "wake rd s =
     rd\<lparr>rd_awake := (rd_awake rd \<or> rd_reg rd \<inter> set (used s) \<noteq> {}), rd_reg := rd_reg rd - set (used s)\<rparr>"

text \<open>
  A poll registers the task with the receivers it found \<open>empty\<close>; the registrations of receivers
  that are no longer \<open>held\<close> go with them. A task whose poll answered goes on.
\<close>

definition after_poll :: "'st reader \<Rightarrow> chan set \<Rightarrow> 'a poll \<Rightarrow> 'st \<Rightarrow> chan set \<Rightarrow> sys \<Rightarrow> 'st reader" where
  "after_poll rd found r st' held s' =
     wake \<lparr>rd_stream = st', rd_reg = (rd_reg rd \<union> found) \<inter> held, rd_awake = (r \<noteq> Inr NotReady)\<rparr> s'"

inductive reader_step ::
  "('i \<Rightarrow> 'st \<Rightarrow> sys \<Rightarrow> ('a poll \<times> 'st \<times> sys) outcome) \<Rightarrow> ('i \<Rightarrow> 'st \<Rightarrow> sys \<Rightarrow> chan set) \<Rightarrow> ('st \<Rightarrow> chan set) \<Rightarrow>
     ('i \<Rightarrow> 'st \<Rightarrow> sys \<Rightarrow> bool) \<Rightarrow> 'st reader \<times> sys \<Rightarrow> 'st reader \<times> sys \<Rightarrow> bool"
  for poll_of :: "'i \<Rightarrow> 'st \<Rightarrow> sys \<Rightarrow> ('a poll \<times> 'st \<times> sys) outcome"
    and empties :: "'i \<Rightarrow> 'st \<Rightarrow> sys \<Rightarrow> chan set" and held :: "'st \<Rightarrow> chan set"
    and ok :: "'i \<Rightarrow> 'st \<Rightarrow> sys \<Rightarrow> bool" where
  reader_poll: "rd_awake rd \<Longrightarrow> ok i (rd_stream rd) s \<Longrightarrow> poll_of i (rd_stream rd) s = Ret (r, st', s') \<Longrightarrow>
    reader_step poll_of empties held ok (rd, s)
      (after_poll rd (empties i (rd_stream rd) s) r st' (held st') s', s')"
| reader_other: "client_step s t \<Longrightarrow> reader_step poll_of empties held ok (rd, s) (wake rd t, t)"

inductive_cases reader_stepE: "reader_step poll_of empties held ok (rd, s) (rd', t)"

text \<open>The channels whose sender the client still has, or that are used up.\<close>

definition tracked :: "sys \<Rightarrow> chan set" where
  "tracked s = ran (pending s) \<union> set (used s)"

lemma tracked_step: "client_step s t \<Longrightarrow> tracked s \<subseteq> tracked t"
  using pending_step used_mono_step by (fastforce simp: tracked_def ran_def)

lemma tracked_steps: "client_steps s t \<Longrightarrow> tracked s \<subseteq> tracked t"
  by (induction rule: rtranclp_induct) (auto dest: tracked_step)

section \<open>What a stream promises\<close>

locale wakeful =
  fixes poll_of :: "'i \<Rightarrow> 'st \<Rightarrow> sys \<Rightarrow> ('a poll \<times> 'st \<times> sys) outcome"
    and empties :: "'i \<Rightarrow> 'st \<Rightarrow> sys \<Rightarrow> chan set"
    and held :: "'st \<Rightarrow> chan set"
    and good :: "'st \<Rightarrow> bool"
    and ok :: "'i \<Rightarrow> 'st \<Rightarrow> sys \<Rightarrow> bool"
  assumes poll_good: "good st \<Longrightarrow> poll_of i st s = Ret (r, st', s') \<Longrightarrow> good st'"
    and poll_registers: "good st \<Longrightarrow> ok i st s \<Longrightarrow> poll_of i st s = Ret (Inr NotReady, st', s') \<Longrightarrow>
      empties i st s \<inter> held st' \<noteq> {}"
    and poll_tracked: "poll_of i st s = Ret (r, st', s') \<Longrightarrow> held st \<subseteq> tracked s \<Longrightarrow> held st' \<subseteq> tracked s'"
begin

definition reader_inv :: "'st reader \<times> sys \<Rightarrow> bool" where
  "reader_inv x \<longleftrightarrow>
     (case x of (rd, s) \<Rightarrow>
        good (rd_stream rd) \<and> held (rd_stream rd) \<subseteq> tracked s \<and> rd_reg rd \<subseteq> held (rd_stream rd) \<and>
        rd_reg rd \<inter> set (used s) = {} \<and> (rd_awake rd \<or> rd_reg rd \<noteq> {}))"

lemma reader_inv_step:
  assumes "reader_step poll_of empties held ok x y" and "reader_inv x"
  shows "reader_inv y"
  using assms
proof (cases rule: reader_step.cases)
  case (reader_poll rd i s r st' s')
  let ?reg = "(rd_reg rd \<union> empties i (rd_stream rd) s) \<inter> held st'"
  have inv: "good (rd_stream rd)" "held (rd_stream rd) \<subseteq> tracked s"
    using assms(2) reader_poll(1) by (simp_all add: reader_inv_def)
  have "r = Inr NotReady \<Longrightarrow> ?reg \<noteq> {}"
    using poll_registers [OF inv(1) reader_poll(4)] reader_poll(5) by blast
  then show ?thesis
    using poll_good [OF inv(1) reader_poll(5)] poll_tracked [OF reader_poll(5) inv(2)]
    by (auto simp: reader_inv_def wake_def after_poll_def reader_poll(2))
next
  case (reader_other s t rd)
  then show ?thesis
    using assms(2) tracked_step [OF reader_other(3)] by (auto simp: reader_inv_def wake_def)
qed

lemma reader_inv_steps:
  "(reader_step poll_of empties held ok)\<^sup>*\<^sup>* x y \<Longrightarrow> reader_inv x \<Longrightarrow> reader_inv y"
  by (induction rule: rtranclp_induct) (auto intro: reader_inv_step)

text \<open>What holds of every reader, however it is polled: registrations are for requests still in flight.\<close>

lemma registered_steps:
  assumes "(reader_step poll_of empties held ok')\<^sup>*\<^sup>* (new_reader st, s0) (rd, s)" and "held st = {}"
  shows "held (rd_stream rd) \<subseteq> tracked s \<and> rd_reg rd \<subseteq> held (rd_stream rd) \<and> rd_reg rd \<inter> set (used s) = {}"
  using assms(1)
proof (induction "(rd, s)" arbitrary: rd s rule: rtranclp_induct)
  case base
  then show ?case using assms(2) by (simp add: new_reader_def)
next
  case (step y)
  obtain rd1 s1 where y: "y = (rd1, s1)" by (cases y)
  from step.hyps(2) [unfolded y] step.hyps(3) [OF y] show ?case
    by cases (use poll_tracked tracked_step in \<open>fastforce simp: after_poll_def wake_def\<close>)+
qed

text \<open>A sleeping reader waits for a request that the client can still answer.\<close>

lemma sleeping_reader:
  assumes "(reader_step poll_of empties held ok)\<^sup>*\<^sup>* (new_reader st, s0) (rd, s)"
    and "good st" and "held st = {}" and "\<not> rd_awake rd"
  shows "\<exists>i c. pending s i = Some c \<and> c \<in> rd_reg rd \<and> c \<in> held (rd_stream rd)"
proof -
  have "reader_inv (new_reader st, s0)"
    using assms(2,3) by (simp add: reader_inv_def new_reader_def)
  then have "reader_inv (rd, s)" by (rule reader_inv_steps [OF assms(1)])
  with assms(4) obtain c where c: "c \<in> rd_reg rd" "c \<in> held (rd_stream rd)" "c \<in> tracked s" "c \<notin> set (used s)"
    by (auto simp: reader_inv_def)
  then obtain i where "pending s i = Some c" by (auto simp: tracked_def ran_def)
  with c show ?thesis by blast
qed

end

text \<open>A reader that sleeps and is registered nowhere is never polled again.\<close>

lemma stalled:
  assumes "(reader_step poll_of empties held ok)\<^sup>*\<^sup>* (rd, s) (rd', t)" and "\<not> rd_awake rd" and "rd_reg rd = {}"
  shows "rd' = rd"
proof -
  have wake_same: "wake rd u = rd" for u using assms(2,3) by (cases rd) (simp add: wake_def)
  have "fst y = rd" if "(reader_step poll_of empties held ok)\<^sup>*\<^sup>* x y" "fst x = rd" for x y
    using that
  proof (induction rule: rtranclp_induct)
    case (step y z)
    from step.hyps(2) step.IH [OF step.prems] assms(2) show ?case
      by cases (auto simp: wake_same)
  qed simp
  with assms(1) show ?thesis by fastforce
qed

section \<open>Receivers in a queue\<close>

fun waits_on :: "'t yum_future \<Rightarrow> chan set" where
  "waits_on (FWaiting c _) = {c}"
| "waits_on (FWaitingFn c _) = {c}"
| "waits_on _ = {}"

definition queue_chans :: "'t item list \<Rightarrow> chan set" where
  "queue_chans q = (\<Union>x \<in> set q. waits_on (snd x))"

definition live_queue :: "'t item list \<Rightarrow> bool" where
  "live_queue q \<longleftrightarrow> list_all (\<lambda>x. snd x \<noteq> FComplete) q"

text \<open>The receiver that polling a future finds empty.\<close>

definition found_empty :: "world \<Rightarrow> 't yum_future \<Rightarrow> chan set" where
  "found_empty w f = {c \<in> waits_on f. w c = RxNotReady}"

lemma queue_chans_simps [simp]:
  "queue_chans [] = {}"
  "queue_chans (x # q) = waits_on (snd x) \<union> queue_chans q"
  "queue_chans (q @ q') = queue_chans q \<union> queue_chans q'"
  by (auto simp: queue_chans_def)

lemma live_queue_simps [simp]:
  "live_queue []"
  "live_queue (x # q) \<longleftrightarrow> snd x \<noteq> FComplete \<and> live_queue q"
  "live_queue (q @ q') \<longleftrightarrow> live_queue q \<and> live_queue q'"
  by (simp_all add: live_queue_def)

lemma pending_poll:
  assumes "yf_poll w f = (Inr NotReady, f')" and "f \<noteq> FComplete"
  shows "f' = f \<and> found_empty w f \<noteq> {} \<and> found_empty w f \<subseteq> waits_on f"
  using assms by (cases f) (auto simp: found_empty_def split: rx_poll.splits sum.splits)

lemma register_all_tracked:
  "set (map fst (fst (snd (register_all reqs s)))) \<subseteq> tracked (snd (snd (register_all reqs s)))"
proof (induction reqs arbitrary: s)
  case (Cons req reqs)
  obtain mth ps d where req: "req = (mth, ps, d)" by (cases req)
  let ?s1 = "snd (snd (register s))"
  obtain calls resp t where all: "register_all reqs ?s1 = (calls, resp, t)" by (metis surj_pair)
  have "next_chan s \<in> tracked ?s1" by (auto simp: tracked_def intro: ranI)
  then have "next_chan s \<in> tracked t"
    using tracked_steps [OF steps_register_all [of ?s1 reqs]] by (auto simp: all)
  with Cons.IH [of ?s1] show ?case by (simp add: register_all_Cons req all)
qed simp

lemma batch_tracked:
  assumes "batch_request L N reqs s = (BWaiting fs, t)" and "f \<in> set fs"
  shows "waits_on f \<subseteq> tracked t"
proof -
  obtain calls resp s1 where all: "register_all reqs s = (calls, resp, s1)" by (metis surj_pair)
  obtain r u where send: "send L N (Text (batch_to_string L calls)) s1 = (r, u)" by fastforce
  have "tracked s1 \<subseteq> tracked u"
    using tracked_steps [OF steps_send [of s1 L N "Text (batch_to_string L calls)"]] by (simp add: send)
  moreover have "set (map fst resp) \<subseteq> tracked s1" using register_all_tracked [of reqs s] by (simp add: all)
  ultimately show ?thesis
    using assms by (cases r) (fastforce simp: batch_request_def all send)+
qed

lemma enqueue_tracked:
  assumes "op_batch_request E reqs s = ((b :: ('t option, 'j) yum_batch_future), t)" and "client_steps s t"
    and "queue_chans q \<subseteq> tracked s"
  shows "queue_chans (enqueue clk b q) \<subseteq> tracked t"
proof (cases b)
  case (BWaiting fs)
  have "queue_chans (zip ks fs) \<subseteq> tracked t" for ks :: "instant list"
    using batch_tracked [OF assms(1) [unfolded op_batch_request_def BWaiting]]
    by (fastforce simp: queue_chans_def dest: set_zip_rightD)
  with assms(2,3) tracked_steps show ?thesis by (fastforce simp: enqueue_def BWaiting)
qed (use assms(2,3) tracked_steps in \<open>fastforce simp: enqueue_def\<close>)+

text \<open>
  What a poll of either stream does with the item \<open>m\<close> it takes and the queue \<open>q\<close> behind it: an
  item that has answered is gone, one that has not goes to the back if it is young.
\<close>

definition queue_polled ::
  "world \<Rightarrow> instant \<Rightarrow> 't item option \<Rightarrow> 't item list \<Rightarrow> 't option poll \<Rightarrow> 't item list \<Rightarrow> bool" where
  "queue_polled w t m q r q' \<longleftrightarrow>
     (case m of
        None \<Rightarrow> r = Inr (Ready None) \<and> q' = q
      | Some (born, f) \<Rightarrow>
          (if fst (yf_poll w f) = Inr NotReady then
             r = Inr NotReady \<and> q' = q @ (if young t born then [(born, snd (yf_poll w f))] else [])
           else q' = q \<and> (r = Inr NotReady \<longleftrightarrow> fst (yf_poll w f) = Inr (Ready None))))"

text \<open>The answer is not \<open>null\<close>, and an item without an answer is young.\<close>

definition prompt :: "world \<Rightarrow> instant \<Rightarrow> 't item option \<Rightarrow> bool" where
  "prompt w t m \<longleftrightarrow>
     (case m of
        None \<Rightarrow> True
      | Some (born, f) \<Rightarrow>
          fst (yf_poll w f) \<noteq> Inr (Ready None) \<and> (fst (yf_poll w f) = Inr NotReady \<longrightarrow> young t born))"

definition item_empties :: "world \<Rightarrow> 't item option \<Rightarrow> chan set" where
  "item_empties w m = (case m of None \<Rightarrow> {} | Some x \<Rightarrow> found_empty w (snd x))"

definition item_chans :: "'t item option \<Rightarrow> chan set" where
  "item_chans m = (case m of None \<Rightarrow> {} | Some x \<Rightarrow> waits_on (snd x))"

lemma polled_live:
  assumes "queue_polled w t m q r q'" and "live_queue q" and "\<forall>x. m = Some x \<longrightarrow> snd x \<noteq> FComplete"
  shows "live_queue q'"
proof -
  have "fst (yf_poll w f) = Inr NotReady \<Longrightarrow> f \<noteq> FComplete \<Longrightarrow> snd (yf_poll w f) \<noteq> FComplete" for f :: "'a option yum_future"
    using pending_not_complete by (metis prod.collapse)
  with assms show ?thesis by (auto simp: queue_polled_def split: option.splits if_splits)
qed

lemma polled_tracked:
  assumes "queue_polled w t m q r q'" and "queue_chans q \<union> item_chans m \<subseteq> T"
  shows "queue_chans q' \<subseteq> T"
proof -
  have "waits_on (snd (yf_poll w f)) \<subseteq> waits_on f" for f :: "'a option yum_future"
    by (cases f) (auto split: rx_poll.split sum.split)
  with assms show ?thesis by (fastforce simp: queue_polled_def item_chans_def split: option.splits if_splits)
qed

lemma polled_registers:
  assumes "queue_polled w t m q (Inr NotReady) q'" and "prompt w t m" and "\<forall>x. m = Some x \<longrightarrow> snd x \<noteq> FComplete"
  shows "item_empties w m \<inter> queue_chans q' \<noteq> {}"
proof -
  obtain born f where m: "m = Some (born, f)" using assms(1) by (cases m) (auto simp: queue_polled_def)
  with assms(1,2) have p: "yf_poll w f = (Inr NotReady, snd (yf_poll w f))" "q' = q @ [(born, snd (yf_poll w f))]"
    by (auto simp: queue_polled_def prompt_def prod_eq_iff split: if_splits)
  from pending_poll [OF p(1)] assms(3) m show ?thesis by (subst p(2)) (auto simp: item_empties_def)
qed

section \<open>The stream of blocks\<close>

text \<open>A call of \<open>next\<close> may ask for more, and then takes the front of the queue.\<close>

lemma pop_front_queue:
  "pop_front (st\<lparr>queue := q\<rparr>) = (m, st1) \<Longrightarrow> (case m of None \<Rightarrow> q = [] \<and> queue st1 = [] | Some x \<Rightarrow> q = x # queue st1)"
  by (auto simp: pop_front_def split: list.splits)

lemma next_block_queue:
  assumes "next_block E bd clk st s = Ret ((m, st1), s1)"
  shows "\<exists>q. (q = queue st \<and> s1 = s \<or>
      (\<exists>bs (b :: ('b option, unit) yum_batch_future). get_blocks_named E bd (bs_with_tx st) bs s = (b, s1) \<and> q = enqueue clk b (queue st))) \<and>
    (case m of None \<Rightarrow> q = [] \<and> queue st1 = [] | Some x \<Rightarrow> q = x # queue st1)"
proof -
  have self: "st\<lparr>queue := queue st\<rparr> = st" by (cases st) simp
  consider "st1 = st" "s1 = s" "m = None" "queue st = []" | "pop_front st = (m, st1)" "s1 = s"
    | bs b n where "get_blocks_named E bd (bs_with_tx st) bs s = ((b :: ('b option, unit) yum_batch_future), s1)"
        "pop_front (st\<lparr>queue := enqueue clk b (queue st), bs_from := n\<rparr>) = (m, st1)"
    | bs b where "get_blocks_named E bd (bs_with_tx st) bs s = ((b :: ('b option, unit) yum_batch_future), s1)"
        "pop_front (st\<lparr>queue := enqueue clk b (queue st)\<rparr>) = (m, st1)"
    using assms
    by (auto simp: next_block_def get_blocks_def get_block_range_def obind_eq_Ret Let_def
        split: if_splits prod.splits)
  then show ?thesis
  proof cases
    case 1
    then show ?thesis by auto
  next
    case 2
    with pop_front_queue [of "queue st" st m st1] self show ?thesis by (intro exI [of _ "queue st"]) simp
  next
    case 3
    have "st\<lparr>queue := enqueue clk b (queue st), bs_from := n\<rparr> = (st\<lparr>bs_from := n\<rparr>)\<lparr>queue := enqueue clk b (queue st)\<rparr>"
      by simp
    with 3 pop_front_queue show ?thesis by metis
  next
    case 4
    with pop_front_queue show ?thesis by metis
  qed
qed

text \<open>The item that a poll takes from the queue.\<close>

definition block_item ::
  "(json \<Rightarrow> string + 'b option) \<Rightarrow> env \<Rightarrow> (nat \<Rightarrow> instant) \<Rightarrow> 'b block_stream \<Rightarrow> sys \<Rightarrow> 'b item option" where
  "block_item bd E clk st s = (case next_block E bd clk st s of Ret ((m, _), _) \<Rightarrow> m | Panic \<Rightarrow> None)"

lemma bs_poll_queue:
  assumes "bs_poll E bd num clk t w st s = Ret (r, st', s')"
  shows "\<exists>st1. next_block E bd clk st s = Ret ((block_item bd E clk st s, st1), s') \<and>
    queue_polled w t (block_item bd E clk st s) (queue st1) r (queue st')"
proof -
  obtain m st1 where nxt: "next_block E bd clk st s = Ret ((m, st1), s')"
    using bs_poll_ok [OF assms] by blast
  have "queue_polled w t m (queue st1) r (queue st')"
  proof (cases m)
    case (Some x)
    obtain born f where x: "x = (born, f)" by (cases x)
    obtain p f' where p: "yf_poll w f = (p, f')" by fastforce
    consider e where "p = Inl e" | "p = Inr NotReady" | "p = Inr (Ready None)"
      | b where "p = Inr (Ready (Some b))"
      by (metis async.exhaust option.exhaust sum.exhaust)
    then show ?thesis
      by cases (use assms nxt Some x p in \<open>auto simp: bs_poll_def obind_eq_Ret queue_polled_def\<close>)
  qed (use assms nxt in \<open>auto simp: bs_poll_def queue_polled_def\<close>)
  with nxt show ?thesis by (simp add: block_item_def)
qed

lemma next_block_live:
  fixes bd :: "json \<Rightarrow> string + 'b option"
  assumes "next_block E bd clk st s = Ret ((m, st1), s1)" and "live_queue (queue st)"
  shows "live_queue (queue st1) \<and> (\<forall>x. m = Some x \<longrightarrow> snd x \<noteq> FComplete)"
proof -
  have enq: "live_queue (enqueue clk b (queue st))"
    if "get_blocks_named E bd (bs_with_tx st) bs s = ((b :: ('b option, unit) yum_batch_future), s1)" for bs b
  proof -
    obtain futs where "fst (get_blocks_named E bd (bs_with_tx st) bs s :: ('b option, unit) yum_batch_future \<times> sys) = BWaiting futs"
      "list_all (\<lambda>f. f \<noteq> FComplete) futs"
      by (rule blocks_named.ask_cases)
    with that assms(2) show ?thesis
      by (auto simp: enqueue_def live_queue_def list_all_iff dest: set_zip_rightD)
  qed
  from next_block_queue [OF assms(1)] obtain q where "live_queue q"
    "case m of None \<Rightarrow> q = [] \<and> queue st1 = [] | Some x \<Rightarrow> q = x # queue st1"
    using enq assms(2) by blast
  then show ?thesis by (auto split: option.splits)
qed

lemma next_block_tracked:
  fixes bd :: "json \<Rightarrow> string + 'b option"
  assumes "next_block E bd clk st s = Ret ((m, st1), s1)" and "queue_chans (queue st) \<subseteq> tracked s"
  shows "queue_chans (queue st1) \<union> item_chans m \<subseteq> tracked s1"
proof -
  have enq: "queue_chans (enqueue clk b (queue st)) \<subseteq> tracked s1"
    if "get_blocks_named E bd (bs_with_tx st) bs s = ((b :: ('b option, unit) yum_batch_future), s1)" for bs b
  proof (rule enqueue_tracked [OF _ _ assms(2)])
    show "op_batch_request E (map (block_req E bd (bs_with_tx st)) bs) s = (b, s1)"
      using that by (simp add: get_blocks_named_def)
    then show "client_steps s s1" by (metis op_batch_request_def snd_conv steps_batch_request)
  qed
  from next_block_queue [OF assms(1)] obtain q where "queue_chans q \<subseteq> tracked s1"
    "case m of None \<Rightarrow> q = [] \<and> queue st1 = [] | Some x \<Rightarrow> q = x # queue st1"
    using enq assms(2) by blast
  then show ?thesis by (auto simp: item_chans_def split: option.splits)
qed

definition block_polled ::
  "(json \<Rightarrow> string + 'b option) \<Rightarrow> ('b \<Rightarrow> u256 option) \<Rightarrow> env \<times> (nat \<Rightarrow> instant) \<times> instant \<times> world \<Rightarrow>
     'b block_stream \<Rightarrow> sys \<Rightarrow> ('b option poll \<times> 'b block_stream \<times> sys) outcome" where
  "block_polled bd num i = (case i of (E, clk, t, w) \<Rightarrow> bs_poll E bd num clk t w)"

interpretation block_reader: wakeful "block_polled bd num"
  "\<lambda>(E, clk, t, w) st s. item_empties w (block_item bd E clk st s)" "\<lambda>st. queue_chans (queue st)"
  "\<lambda>st. live_queue (queue st)" "\<lambda>(E, clk, t, w) st s. prompt w t (block_item bd E clk st s)"
proof (unfold_locales, goal_cases)
  case (1 st i s r st' s')
  obtain E clk t w where i: "i = (E, clk, t, w)" by (cases i)
  from 1(2) bs_poll_queue obtain st1 where
    "next_block E bd clk st s = Ret ((block_item bd E clk st s, st1), s')"
    "queue_polled w t (block_item bd E clk st s) (queue st1) r (queue st')"
    by (fastforce simp: block_polled_def i)
  with next_block_live [OF this(1) 1(1)] show ?case by (blast intro: polled_live)
next
  case (2 st i s st' s')
  obtain E clk t w where i: "i = (E, clk, t, w)" by (cases i)
  from 2(3) bs_poll_queue obtain st1 where nxt:
    "next_block E bd clk st s = Ret ((block_item bd E clk st s, st1), s')"
    "queue_polled w t (block_item bd E clk st s) (queue st1) (Inr NotReady) (queue st')"
    by (fastforce simp: block_polled_def i)
  with 2(2) polled_registers [OF nxt(2)] next_block_live [OF nxt(1) 2(1)] show ?case by (simp add: i)
next
  case (3 i st s r st' s')
  obtain E clk t w where i: "i = (E, clk, t, w)" by (cases i)
  from 3(1) bs_poll_queue obtain st1 where nxt:
    "next_block E bd clk st s = Ret ((block_item bd E clk st s, st1), s')"
    "queue_polled w t (block_item bd E clk st s) (queue st1) r (queue st')"
    by (fastforce simp: block_polled_def i)
  from polled_tracked [OF nxt(2) next_block_tracked [OF nxt(1) 3(2)]] show ?case .
qed

section \<open>The stream of transactions\<close>

definition tx_item ::
  "(json \<Rightarrow> string + 'x option) \<Rightarrow> env \<Rightarrow> (nat \<Rightarrow> instant) \<Rightarrow> 'x transaction_stream \<Rightarrow> sys \<Rightarrow> 'x item option" where
  "tx_item xd E clk st s = (case next_tx E xd clk st s of Ret ((m, _), _) \<Rightarrow> m | Panic \<Rightarrow> None)"

definition tx_polled ::
  "(json \<Rightarrow> string + 'x option) \<Rightarrow> env \<times> (nat \<Rightarrow> instant) \<times> instant \<times> world \<Rightarrow>
     'x transaction_stream \<Rightarrow> sys \<Rightarrow> ('x option poll \<times> 'x transaction_stream \<times> sys) outcome" where
  "tx_polled xd i = (case i of (E, clk, t, w) \<Rightarrow> ts_poll E xd clk t w)"

lemma ts_poll_queue:
  assumes "ts_poll E xd clk t w st s = Ret (r, st', s')"
  shows "\<exists>st1. next_tx E xd clk st s = Ret ((tx_item xd E clk st s, st1), s') \<and>
    queue_polled w t (tx_item xd E clk st s) (tx_queue st1) r (tx_queue st')"
proof -
  obtain m st1 s1 where nxt: "next_tx E xd clk st s = Ret ((m, st1), s1)"
    using assms by (cases "next_tx E xd clk st s") (auto simp: ts_poll_def)
  have "s1 = s' \<and> queue_polled w t m (tx_queue st1) r (tx_queue st')"
  proof (cases m)
    case (Some x)
    obtain born f where x: "x = (born, f)" by (cases x)
    obtain p f' where p: "yf_poll w f = (p, f')" by fastforce
    consider e where "p = Inl e" | "p = Inr NotReady" | "p = Inr (Ready None)"
      | b where "p = Inr (Ready (Some b))"
      by (metis async.exhaust option.exhaust sum.exhaust)
    then show ?thesis
      by cases (use assms nxt Some x p in \<open>auto simp: ts_poll_def queue_polled_def\<close>)
  qed (use assms nxt in \<open>auto simp: ts_poll_def queue_polled_def\<close>)
  with nxt show ?thesis by (simp add: tx_item_def)
qed

lemma next_tx_queue:
  assumes "next_tx E xd clk st s = Ret ((m, st1), s1)"
  shows "\<exists>q. (q = tx_queue st \<and> s1 = s \<or>
      (\<exists>txs (b :: ('x option, unit) yum_batch_future). get_transactions E xd txs s = (b, s1) \<and> q = enqueue clk b (tx_queue st))) \<and>
    (case m of None \<Rightarrow> q = [] \<and> tx_queue st1 = [] | Some x \<Rightarrow> q = x # tx_queue st1)"
proof -
  consider "st1 = st" "s1 = s" "m = None" "tx_queue st = []" | "tx_pop_front st = (m, st1)" "s1 = s"
    | txs b rest where "get_transactions E xd txs s = ((b :: ('x option, unit) yum_batch_future), s1)"
        "tx_pop_front (st\<lparr>tx_list := rest, tx_queue := enqueue clk b (tx_queue st)\<rparr>) = (m, st1)"
    using assms
    by (auto simp: next_tx_def obind_eq_Ret Let_def take_batch_eq split: if_splits prod.splits) (metis surj_pair)
  then show ?thesis
  proof cases
    case 3
    have "case m of None \<Rightarrow> enqueue clk b (tx_queue st) = [] \<and> tx_queue st1 = []
      | Some x \<Rightarrow> enqueue clk b (tx_queue st) = x # tx_queue st1"
      using 3(2) by (auto simp: tx_pop_front_def split: list.splits)
    with 3(1) show ?thesis by blast
  qed (auto simp: tx_pop_front_def split: list.splits)
qed

lemma next_tx_tracked:
  fixes xd :: "json \<Rightarrow> string + 'x option"
  assumes "next_tx E xd clk st s = Ret ((m, st1), s1)" and "queue_chans (tx_queue st) \<subseteq> tracked s"
  shows "queue_chans (tx_queue st1) \<union> item_chans m \<subseteq> tracked s1"
proof -
  have enq: "queue_chans (enqueue clk b (tx_queue st)) \<subseteq> tracked s1"
    if "get_transactions E xd txs s = ((b :: ('x option, unit) yum_batch_future), s1)" for txs b
  proof (rule enqueue_tracked [OF _ _ assms(2)])
    show "op_batch_request E (map (transaction_req E xd) txs) s = (b, s1)"
      using that by (simp add: get_transactions_def)
    then show "client_steps s s1" by (metis op_batch_request_def snd_conv steps_batch_request)
  qed
  from next_tx_queue [OF assms(1)] obtain q where "queue_chans q \<subseteq> tracked s1"
    "case m of None \<Rightarrow> q = [] \<and> tx_queue st1 = [] | Some x \<Rightarrow> q = x # tx_queue st1"
    using enq assms(2) by blast
  then show ?thesis by (auto simp: item_chans_def split: option.splits)
qed

interpretation tx_reader: wakeful "tx_polled xd"
  "\<lambda>(E, clk, t, w) st s. item_empties w (tx_item xd E clk st s)" "\<lambda>st. queue_chans (tx_queue st)"
  tx_inv "\<lambda>(E, clk, t, w) st s. prompt w t (tx_item xd E clk st s)"
proof (unfold_locales, goal_cases)
  case (1 st i s r st' s')
  obtain E clk t w where i: "i = (E, clk, t, w)" by (cases i)
  with 1 ts_poll_ok [OF 1(1), of E xd clk t w s] show ?case by (auto simp: tx_polled_def)
next
  case (2 st i s st' s')
  obtain E clk t w where i: "i = (E, clk, t, w)" by (cases i)
  from 2(3) ts_poll_queue obtain st1 where nxt:
    "next_tx E xd clk st s = Ret ((tx_item xd E clk st s, st1), s')"
    "queue_polled w t (tx_item xd E clk st s) (tx_queue st1) (Inr NotReady) (tx_queue st')"
    by (fastforce simp: tx_polled_def i)
  have "\<forall>x. tx_item xd E clk st s = Some x \<longrightarrow> snd x \<noteq> FComplete"
    using next_tx_ok [OF 2(1), of E xd clk s] nxt(1) by auto
  with 2(2) polled_registers [OF nxt(2)] show ?case by (simp add: i)
next
  case (3 i st s r st' s')
  obtain E clk t w where i: "i = (E, clk, t, w)" by (cases i)
  from 3(1) ts_poll_queue obtain st1 where nxt:
    "next_tx E xd clk st s = Ret ((tx_item xd E clk st s, st1), s')"
    "queue_polled w t (tx_item xd E clk st s) (tx_queue st1) r (tx_queue st')"
    by (fastforce simp: tx_polled_def i)
  from polled_tracked [OF nxt(2) next_tx_tracked [OF nxt(1) 3(2)]] show ?case .
qed

section \<open>Properties\<close>

text \<open>A reader of a stream of blocks, polled under the condition \<open>ok\<close>.\<close>

abbreviation block_reading ::
  "(json \<Rightarrow> string + 'b option) \<Rightarrow> ('b \<Rightarrow> u256 option) \<Rightarrow>
     (env \<times> (nat \<Rightarrow> instant) \<times> instant \<times> world \<Rightarrow> 'b block_stream \<Rightarrow> sys \<Rightarrow> bool) \<Rightarrow>
     'b block_stream reader \<times> sys \<Rightarrow> 'b block_stream reader \<times> sys \<Rightarrow> bool" where
  "block_reading bd num ok \<equiv>
     (reader_step (block_polled bd num) (\<lambda>(E, clk, t, w) st s. item_empties w (block_item bd E clk st s))
        (\<lambda>st. queue_chans (queue st)) ok)\<^sup>*\<^sup>*"

text \<open>
  C8: A sleeping reader will be woken. Read a stream of blocks, of any range and sizes, while the
  rest of the program does anything to the client. As long as the node answers no block with
  \<open>null\<close> and no request is five seconds old when it is polled, the reader never sleeps in
  vain: whenever it sleeps, some request in the queue of its stream is still registered with
  the client, and the answer to that request, whatever it is, wakes the reader.
\<close>

theorem sleeping_reader_is_served:
  assumes "block_reading bd num (\<lambda>(E, clk, t, w) st s. prompt w t (block_item bd E clk st s))
      (new_reader (block_stream_with_options lo hi tx batch buffer), s0) (rd, s)"
    and "\<not> rd_awake rd"
  shows "\<exists>i c. pending s i = Some c \<and> c \<in> queue_chans (queue (rd_stream rd)) \<and>
    (\<forall>r. rd_awake (wake rd (answer i r s)))"
proof -
  have "live_queue (queue (block_stream_with_options lo hi tx batch buffer :: 'a block_stream))"
    and "queue_chans (queue (block_stream_with_options lo hi tx batch buffer :: 'a block_stream)) = {}"
    by (simp_all add: block_stream_with_options_def)
  from block_reader.sleeping_reader [OF assms(1) this assms(2)] obtain i c where
    c: "pending s i = Some c" "c \<in> rd_reg rd" "c \<in> queue_chans (queue (rd_stream rd))" by blast
  have "rd_awake (wake rd (answer i r s))" for r
    using answer_Some [OF c(1)] c(2) by (auto simp: wake_def used_def)
  with c show ?thesis by blast
qed

theorem sleeping_reader_is_served_witness:
  "\<exists>(rd :: u256 block_stream reader) (s :: sys). \<not> rd_awake rd \<and> queue (rd_stream rd) = [(0, FWaitingFn 1 (de demo_block))] \<and> (\<exists>i. pending s i = Some 1)"
proof -
  let ?i = "(demo_env, (\<lambda>_. 0, 0, \<lambda>_. RxNotReady)) :: env \<times> (nat \<Rightarrow> instant) \<times> instant \<times> world"
  let ?st = "demo_stream\<lparr>queue := [(0, FWaitingFn 1 (de demo_block))]\<rparr>"
  obtain s1 where nxt: "next_block demo_env demo_block (\<lambda>_. 0) demo_stream demo_sys =
      Ret ((Some (0, FWaitingFn 1 (de demo_block)), demo_stream), s1)" and tr: "trace s1 = [Queue 0 (Text ''batch'')]"
    using demo_next by blast
  have q: "queue demo_stream = []" by (simp add: demo_stream_def block_stream_with_options_def)
  let ?rd = "after_poll (new_reader demo_stream) {1} (Inr NotReady :: u256 option poll) ?st {1} s1"
  have item: "block_item demo_block demo_env (\<lambda>_. 0) demo_stream demo_sys = Some (0, FWaitingFn 1 (de demo_block))"
    by (simp add: block_item_def nxt)
  have "block_polled demo_block Some ?i demo_stream demo_sys = Ret (Inr NotReady, ?st, s1)"
    by (simp add: block_polled_def bs_poll_def nxt young_def q)
  from reader_poll [of "new_reader demo_stream" _ ?i demo_sys "block_polled demo_block Some", unfolded new_reader_def reader.simps, OF _ _ this,
      of "\<lambda>(E, clk, t, w) st s. prompt w t (block_item demo_block E clk st s)"
         "\<lambda>(E, clk, t, w) st s. item_empties w (block_item demo_block E clk st s)" "\<lambda>st. queue_chans (queue st)"]
  have run: "block_reading demo_block Some (\<lambda>(E, clk, t, w) st s. prompt w t (block_item demo_block E clk st s))
      (new_reader demo_stream, demo_sys) (?rd, s1)"
    by (auto simp: item prompt_def young_def item_empties_def found_empty_def new_reader_def)
  have asleep: "\<not> rd_awake ?rd" "queue (rd_stream ?rd) = [(0, FWaitingFn 1 (de demo_block))]"
    by (simp_all add: after_poll_def wake_def used_def tr demo_stream_def block_stream_with_options_def new_reader_def)
  from sleeping_reader_is_served [OF run [unfolded demo_stream_def] asleep(1) [unfolded demo_stream_def]] asleep
  have "\<exists>i. pending s1 i = Some 1" by (auto simp: demo_stream_def)
  with asleep show ?thesis by blast
qed

text \<open>
  C35: A null answer can put the reader to sleep for ever. Take any reader of a stream of blocks
  in any state it can reach, and let its next poll take a block that the node has answered
  with \<open>null\<close>. The poll answers \<open>NotReady\<close> without registering the task anywhere; so the reader
  is ever polled again if and only if some other request in the queue had been polled before
  and is still registered. In particular a reader that had found no other request unanswered
  sleeps for ever, whatever else is answered, times out or is dropped.
\<close>

theorem null_answer_stalls_reader:
  assumes "block_reading bd num (\<lambda>_ _ _. True) (new_reader (block_stream_with_options lo hi tx batch buffer), s0) (rd, s)"
    and "bs_poll E bd num clk t w (rd_stream rd) s = Ret (r, st', s')"
    and "block_item bd E clk (rd_stream rd) s = Some (born, f)" and "fst (yf_poll w f) = Inr (Ready None)"
  shows "r = Inr NotReady \<and>
    ((\<exists>rd' u. block_reading bd num (\<lambda>_ _ _. True)
        (after_poll rd (item_empties w (Some (born, f))) r st' (queue_chans (queue st')) s', s') (rd', u) \<and> rd_awake rd') \<longleftrightarrow>
     rd_reg rd \<inter> queue_chans (queue st') \<noteq> {})"
proof -
  let ?rd = "after_poll rd (item_empties w (Some (born, f))) r st' (queue_chans (queue st')) s'"
  let ?reg = "rd_reg rd \<inter> queue_chans (queue st')"
  have held: "queue_chans (queue (rd_stream rd)) \<subseteq> tracked s"
    using block_reader.registered_steps [OF assms(1)] by (simp add: block_stream_with_options_def)
  have r: "r = Inr NotReady" and none: "found_empty w f = {}"
    using bs_poll_queue [OF assms(2)] assms(3,4)
    by (auto simp: queue_polled_def found_empty_def) (cases f; force)+
  have rd: "?rd = wake \<lparr>rd_stream = st', rd_reg = ?reg, rd_awake = False\<rparr> s'"
    using none by (simp add: after_poll_def r item_empties_def)
  have "queue_chans (queue st') \<subseteq> tracked s'"
    using block_reader.poll_tracked [of bd num "(E, clk, t, w)" "rd_stream rd" s r st' s'] assms(2) held
    by (simp add: block_polled_def)
  note tracked = this
  have "\<exists>rd' u. block_reading bd num (\<lambda>_ _ _. True) (?rd, s') (rd', u) \<and> rd_awake rd'" if c: "c \<in> ?reg" for c
  proof (cases "c \<in> set (used s')")
    case True
    with c have "rd_awake ?rd" by (auto simp: rd wake_def)
    then show ?thesis by blast
  next
    case False
    with c tracked obtain i where i: "pending s' i = Some c" by (auto simp: tracked_def ran_def)
    have "c \<in> rd_reg ?rd" using c False by (simp add: rd wake_def)
    then have "rd_awake (wake ?rd (answer i (Inr JNull) s'))"
      using answer_Some [OF i] by (auto simp: wake_def used_def)
    then show ?thesis using reader_other [OF step_answer] by blast
  qed
  moreover have "\<not> rd_awake rd'" if "block_reading bd num (\<lambda>_ _ _. True) (?rd, s') (rd', u)" "?reg = {}" for rd' u
    using stalled [OF that(1)] that(2) by (simp add: rd wake_def)
  ultimately show ?thesis using r by blast
qed

theorem null_answer_stalls_reader_witness:
  "\<exists>s'. bs_poll demo_env (\<lambda>_. Inr None) Some (\<lambda>_. 0) 0 demo_answer demo_stream demo_sys = Ret (Inr NotReady, demo_stream, s') \<and>
    missing demo_stream = [5] \<and>
    \<not> (\<exists>rd' u. block_reading (\<lambda>_. Inr None) Some (\<lambda>_ _ _. True)
         (after_poll (new_reader demo_stream) {} (Inr NotReady :: u256 option poll) demo_stream {} s', s') (rd', u) \<and> rd_awake rd')"
proof -
  obtain s1 where nxt: "next_block demo_env (\<lambda>_. Inr None) (\<lambda>_. 0) demo_stream demo_sys =
      Ret ((Some (0, FWaitingFn 1 (de (\<lambda>_. Inr None))), demo_stream), s1)"
    using demo_next by blast
  have poll: "bs_poll demo_env (\<lambda>_. Inr None) Some (\<lambda>_. 0) 0 demo_answer demo_stream demo_sys = Ret (Inr NotReady, demo_stream, s1)"
    by (simp add: bs_poll_def nxt demo_answer_def de_def)
  have item: "block_item (\<lambda>_. Inr None) demo_env (\<lambda>_. 0) demo_stream demo_sys = Some (0, FWaitingFn 1 (de (\<lambda>_. Inr None)))"
    by (simp add: block_item_def nxt)
  have q: "queue demo_stream = []" by (simp add: demo_stream_def block_stream_with_options_def)
  have rd: "rd_stream (new_reader demo_stream) = demo_stream" "rd_reg (new_reader demo_stream) = {}"
    by (simp_all add: new_reader_def)
  have start: "block_reading (\<lambda>_. Inr None) Some (\<lambda>_ _ _. True)
      (new_reader (block_stream_with_options 5 5 True 10 5), demo_sys) (new_reader demo_stream, demo_sys)"
    by (simp add: demo_stream_def)
  have "fst (yf_poll demo_answer (FWaitingFn 1 (de (\<lambda>_. Inr (None :: u256 option))))) = Inr (Ready None)"
    by (simp add: demo_answer_def de_def)
  from null_answer_stalls_reader [OF start, unfolded rd, OF poll item this] poll
  show ?thesis
    by (simp add: q item_empties_def found_empty_def demo_answer_def missing_def demo_stream_def
        block_stream_with_options_def word_range_def)
qed

end
