(* ===== verification/Ops_Copies.thy ===== *)
theory Ops_Copies
  imports Yum_Api
begin

text \<open>
  The three copies of the block queries, and the forwarders. \<open>src/client/ops.rs\<close> is a private module
  of \<open>src/client/mod.rs\<close> with a \<open>BlockOps\<close> trait of its own, which is exported again as
  \<open>client::BlockOps\<close>; no type of the crate implements it. \<open>src/ops/block.rs\<close> is the \<open>BlockOps\<close> trait
  that \<open>BlockStream\<close> implements (\<open>Rpc_Ops\<close>), and \<open>YumClient\<close> has methods of its own (\<open>Yum_Api\<close>). The streams implement the required methods of \<open>OpSet\<close> by forwarding to their client,
  which is the state that all operations share. Each copy is modelled from its own lines; the
  theorem says that they agree. The names of the first copy start with \<open>old_\<close>.
\<close>

section \<open>The forwarders of the streams\<close>

text \<open>\<open>impl OpSet for BlockStream\<close> and \<open>impl OpSet for TransactionStream\<close>: \<open>self.client\<close> is the shared state.\<close>

definition block_stream_request ::
  "env \<Rightarrow> 'b block_stream \<Rightarrow> string \<Rightarrow> json list \<Rightarrow> 't decoder \<Rightarrow> sys \<Rightarrow> 't yum_future \<times> sys" where
  "block_stream_request E self mth ps d client = request (lib E) (netw E) (now E) mth ps d client"

definition block_stream_batch_request ::
  "env \<Rightarrow> 'b block_stream \<Rightarrow> 't req list \<Rightarrow> sys \<Rightarrow> ('t, 'j) yum_batch_future \<times> sys" where
  "block_stream_batch_request E self reqs client = batch_request (lib E) (netw E) reqs client"

definition tx_stream_request ::
  "env \<Rightarrow> 'x transaction_stream \<Rightarrow> string \<Rightarrow> json list \<Rightarrow> 't decoder \<Rightarrow> sys \<Rightarrow> 't yum_future \<times> sys" where
  "tx_stream_request E self mth ps d client = request (lib E) (netw E) (now E) mth ps d client"

definition tx_stream_batch_request ::
  "env \<Rightarrow> 'x transaction_stream \<Rightarrow> 't req list \<Rightarrow> sys \<Rightarrow> ('t, 'j) yum_batch_future \<times> sys" where
  "tx_stream_batch_request E self reqs client = batch_request (lib E) (netw E) reqs client"

section \<open>The trait of \<open>client/ops.rs\<close>\<close>

text \<open>
  The provided methods of the trait, for any implementation: its two required methods, at the
  type the provided methods use them, are arguments.
\<close>

type_synonym 't request_method = "string \<Rightarrow> json list \<Rightarrow> 't decoder \<Rightarrow> sys \<Rightarrow> 't yum_future \<times> sys"
type_synonym ('t, 'j) batch_method = "'t req list \<Rightarrow> sys \<Rightarrow> ('t, 'j) yum_batch_future \<times> sys"

definition old_get_block_by_hash ::
  "models \<Rightarrow> (json \<Rightarrow> string + 'b option) \<Rightarrow> 'b option request_method \<Rightarrow> h256 \<Rightarrow> bool \<Rightarrow> sys \<Rightarrow>
     'b option yum_future \<times> sys" where
  "old_get_block_by_hash M bd self_request block with_tx =
     self_request ''eth_getBlockByHash'' [ser_h256 M block, JBool with_tx] (de bd)"

definition old_get_block_by_number ::
  "models \<Rightarrow> (json \<Rightarrow> string + 'b option) \<Rightarrow> 'b option request_method \<Rightarrow> u64 \<Rightarrow> bool \<Rightarrow> sys \<Rightarrow>
     'b option yum_future \<times> sys" where
  "old_get_block_by_number M bd self_request block with_tx =
     self_request ''eth_getBlockByNumber'' [ser_u256 M (u256_from block), JBool with_tx] (de bd)"

definition old_block_req ::
  "models \<Rightarrow> (json \<Rightarrow> string + 'b option) \<Rightarrow> bool \<Rightarrow> block_number \<Rightarrow> 'b option req" where
  "old_block_req M bd with_tx block =
     (let op = (\<lambda>v. de bd v);
          b = (case block of Number n \<Rightarrow> ser_u256 M (u256_from n) | Name n \<Rightarrow> JString n)
      in (''eth_getBlockByNumber'', [b, JBool with_tx], op))"

fun old_requests ::
  "models \<Rightarrow> (json \<Rightarrow> string + 'b option) \<Rightarrow> bool \<Rightarrow> block_number list \<Rightarrow> 'b option req list \<Rightarrow> 'b option req list" where
  "old_requests M bd with_tx [] requests = requests"
| "old_requests M bd with_tx (block # blocks) requests =
     old_requests M bd with_tx blocks (requests @ [old_block_req M bd with_tx block])"

definition old_get_blocks_named ::
  "models \<Rightarrow> (json \<Rightarrow> string + 'b option) \<Rightarrow> ('b option, 'j) batch_method \<Rightarrow> block_number list \<Rightarrow> bool \<Rightarrow> sys \<Rightarrow>
     ('b option, 'j) yum_batch_future \<times> sys" where
  "old_get_blocks_named M bd self_batch blocks with_tx = self_batch (old_requests M bd with_tx blocks [])"

definition old_get_blocks ::
  "models \<Rightarrow> (json \<Rightarrow> string + 'b option) \<Rightarrow> ('b option, 'j) batch_method \<Rightarrow> u64 list \<Rightarrow> bool \<Rightarrow> sys \<Rightarrow>
     ('b option, 'j) yum_batch_future \<times> sys" where
  "old_get_blocks M bd self_batch blocks with_tx =
     old_get_blocks_named M bd self_batch (map Number blocks) with_tx"

definition old_get_block_range ::
  "bool \<Rightarrow> models \<Rightarrow> (json \<Rightarrow> string + 'b option) \<Rightarrow> ('b option, 'j) batch_method \<Rightarrow> u64 \<Rightarrow> u64 \<Rightarrow> bool \<Rightarrow> sys \<Rightarrow>
     (('b option, 'j) yum_batch_future \<times> sys) outcome" where
  "old_get_block_range chk M bd self_batch lo hi with_tx s =
     obind (checked_plus chk hi 1) (\<lambda>till.
       let blocks = map Number (word_range lo till)
       in Ret (old_get_blocks_named M bd self_batch blocks with_tx s))"

section \<open>The copies agree\<close>

lemma forwarders:
  "block_stream_request E st = op_request E" "tx_stream_request E tst = op_request E"
  "block_stream_batch_request E st = op_batch_request E" "tx_stream_batch_request E tst = op_batch_request E"
  by (simp_all add: fun_eq_iff block_stream_request_def tx_stream_request_def op_request_def
      block_stream_batch_request_def tx_stream_batch_request_def op_batch_request_def)

lemma old_requests_map: "old_requests M bd tx blocks reqs = reqs @ map (old_block_req M bd tx) blocks"
  by (induction blocks arbitrary: reqs) simp_all

lemma old_block_req_agree: "old_block_req (mdl E) bd tx = block_req E bd tx"
  by (simp add: fun_eq_iff old_block_req_def block_req_def block_arg_def)

lemma old_named_agree:
  "old_get_blocks_named (mdl E) bd (op_batch_request E) blocks tx = get_blocks_named E bd tx blocks"
  by (simp add: old_get_blocks_named_def old_requests_map old_block_req_agree get_blocks_named_def)

section \<open>Properties\<close>

text \<open>
  C29: There is one way to ask for blocks. On a stream's forwarders the trait of \<open>client/ops.rs\<close>,
  the trait of \<open>ops/block.rs\<close> and the methods of \<open>YumClient\<close> do the same: the same future and the
  same effect on the client for a block by hash, a block by number, a list of blocks and a
  range. And a range from \<open>lo\<close> to \<open>hi\<close> is the list of all blocks from \<open>lo\<close> to \<open>hi\<close>, both included, in ascending order,
  with one exception: for the largest \<open>u64\<close> as upper end the addition overflows, which panics
  in a build with overflow checks and sends an empty batch otherwise.
\<close>

theorem block_queries_agree:
  fixes bd :: "json \<Rightarrow> string + 'b option"
  shows "old_get_block_by_hash (mdl E) bd (block_stream_request E st) h tx = get_block_by_hash E bd h tx \<and>
    yum_get_block_by_hash E bd h tx = get_block_by_hash E bd h tx \<and>
    old_get_block_by_number (mdl E) bd (block_stream_request E st) n tx = get_block_by_number E bd n tx \<and>
    yum_get_block_by_number E bd n tx = get_block_by_number E bd n tx \<and>
    old_get_blocks (mdl E) bd (block_stream_batch_request E st :: ('b option, unit) batch_method) ns tx = get_blocks E bd tx ns \<and>
    yum_get_blocks E bd tx ns = (get_blocks E bd tx ns :: sys \<Rightarrow> ('b option, unit) yum_batch_future \<times> sys) \<and>
    old_get_block_range (oc E) (mdl E) bd (block_stream_batch_request E st :: ('b option, unit) batch_method) lo hi tx s = get_block_range E bd tx lo hi s \<and>
    yum_get_block_range E bd tx lo hi s = (get_block_range E bd tx lo hi s :: (('b option, unit) yum_batch_future \<times> sys) outcome) \<and>
    get_block_range E bd tx lo hi s =
      (if hi = - 1 then (if oc E then Panic else Ret (get_blocks E bd tx [] s :: ('b option, unit) yum_batch_future \<times> sys))
       else Ret (get_blocks E bd tx (map word_of_nat [unat lo..<Suc (unat hi)]) s))"
  unfolding forwarders
  by (intro conjI block_range_blocks)
    (simp_all add: old_get_block_by_hash_def get_block_by_hash_def yum_get_block_by_hash_def
      old_get_block_by_number_def get_block_by_number_def yum_get_block_by_number_def
      old_get_blocks_def old_named_agree get_blocks_def yum_get_blocks_named_agree yum_get_blocks_def
      old_get_block_range_def get_block_range_def yum_get_block_range_def)

end
