(* ===== verification/Rpc_Signatures.thy ===== *)
theory Rpc_Signatures
  imports Task_Wakeups Ops_Copies
begin

text \<open>
  The types of the calls. The node's interface is untyped JSON, and nothing in the Rust types
  ties the name of a method to the parameters sent with it; here every method the program uses
  gets a signature (the kinds of its required and optional parameters, from the JSON-RPC
  documentation of the node), and every operation is shown to send only calls that are well
  typed in it, over the websocket and over HTTP alike.
\<close>

section \<open>Signatures\<close>

datatype kind = StringKind | BoolKind | ArrayKind | ObjectKind

fun kind_of :: "json \<Rightarrow> kind option" where
  "kind_of (JString _) = Some StringKind"
| "kind_of (JBool _) = Some BoolKind"
| "kind_of (JArray _) = Some ArrayKind"
| "kind_of (JObject _) = Some ObjectKind"
| "kind_of _ = None"

definition signatures :: "(string \<times> kind list \<times> kind list) list" where
  "signatures =
    [(''eth_accounts'', [], []),
     (''eth_blockNumber'', [], []),
     (''eth_coinbase'', [], []),
     (''eth_gasPrice'', [], []),
     (''eth_call'', [ObjectKind], [StringKind]),
     (''eth_estimateGas'', [ObjectKind], [StringKind]),
     (''eth_getBalance'', [StringKind], [StringKind]),
     (''eth_getCode'', [StringKind], [StringKind]),
     (''eth_getTransactionCount'', [StringKind], [StringKind]),
     (''eth_getBlockByHash'', [StringKind, BoolKind], []),
     (''eth_getBlockByNumber'', [StringKind, BoolKind], []),
     (''eth_getLogs'', [ObjectKind], []),
     (''eth_getTransactionByHash'', [StringKind], []),
     (''eth_getTransactionReceipt'', [StringKind], []),
     (''trace_transaction'', [StringKind], []),
     (''parity_subscribe'', [StringKind], [ArrayKind])]"

definition fits :: "json list \<Rightarrow> kind list \<times> kind list \<Rightarrow> bool" where
  "fits ps sig =
     (case sig of (req, opt) \<Rightarrow>
        length req \<le> length ps \<and> length ps \<le> length req + length opt \<and>
        map kind_of ps = map Some (take (length ps) (req @ opt)))"

fun typed_request :: "string \<Rightarrow> json list \<Rightarrow> bool" where
  "typed_request mth ps = (case map_of signatures mth of None \<Rightarrow> False | Some sig \<Rightarrow> fits ps sig)"

fun well_typed :: "rpc_call \<Rightarrow> bool" where
  "well_typed (MethodCall c) =
     (call_jsonrpc c = Some V2 \<and>
      (case (call_params c, call_id c) of
         (Some (ParamsArray ps), IdNum _) \<Rightarrow> typed_request (call_method c) ps
       | _ \<Rightarrow> False))"

lemma build_request_typed: "well_typed (build_request i mth ps) \<longleftrightarrow> typed_request mth ps"
  by (simp add: build_request_def)

section \<open>What an operation sends\<close>

definition typed_text :: "rpc_lib \<Rightarrow> string \<Rightarrow> bool" where
  "typed_text L x \<longleftrightarrow>
     (\<exists>c. well_typed c \<and> x = call_to_string L c) \<or> (\<exists>cs. list_all well_typed cs \<and> x = batch_to_string L cs)"

fun typed_event :: "rpc_lib \<Rightarrow> event \<Rightarrow> bool" where
  "typed_event L (Queue c req) = (case req of Text x \<Rightarrow> typed_text L x | _ \<Rightarrow> False)"
| "typed_event L (HttpPost x) = typed_text L x"
| "typed_event L _ = True"

text \<open>From \<open>s\<close> to \<open>t\<close>, all that was queued on a socket or posted is a well-typed call or a batch of such.\<close>

definition sends_typed :: "rpc_lib \<Rightarrow> sys \<Rightarrow> sys \<Rightarrow> bool" where
  "sends_typed L s t \<longleftrightarrow> (\<exists>es. trace t = trace s @ es \<and> list_all (typed_event L) es)"

lemma sends_typed_same: "trace t = trace s \<Longrightarrow> sends_typed L s t"
  by (simp add: sends_typed_def)

lemma sends_typed_trans: "sends_typed L s t \<Longrightarrow> sends_typed L t u \<Longrightarrow> sends_typed L s u"
  unfolding sends_typed_def by force

lemma sends_typed_event: "trace t = trace s @ [e] \<Longrightarrow> typed_event L e \<Longrightarrow> sends_typed L s t"
  by (simp add: sends_typed_def)

lemma sends_typed_register: "sends_typed L s (snd (snd (register s)))"
  by (auto simp: sends_typed_def client_defs split: option.split)

lemma sends_typed_answer: "sends_typed L s (answer i r s)"
  by (cases "pending s i") (auto simp: answer_def log_def intro: sends_typed_same sends_typed_event)

lemma sends_typed_dispatch: "sends_typed L s (fold http_dispatch rs s)"
proof (induction rs arbitrary: s)
  case Nil
  then show ?case by (simp add: sends_typed_same)
next
  case (Cons r rs)
  have "sends_typed L s (http_dispatch r s)"
    by (simp add: http_dispatch_def sends_typed_answer split: prod.split)
  with Cons.IH [of "http_dispatch r s"] show ?case by (auto intro: sends_typed_trans)
qed

lemma sends_typed_http:
  assumes "typed_text L x"
  shows "sends_typed L s (snd (send_http L N x s))"
proof -
  have "sends_typed L s (log (HttpPost x) s)"
    using assms by (intro sends_typed_event [of _ _ "HttpPost x"]) (simp_all add: log_def)
  moreover have "sends_typed L (log (HttpPost x) s) (snd (send_http L N x s))"
    by (auto simp: send_http_def Let_def sends_typed_dispatch sends_typed_same split: sum.split)
  ultimately show ?thesis by (rule sends_typed_trans)
qed

lemma sends_typed_send:
  assumes "typed_text L x"
  shows "sends_typed L s (snd (send L N (Text x) s))"
proof (cases "sockets s")
  case Nil
  then show ?thesis by (simp add: send_def sends_typed_http [OF assms])
next
  case (Cons w rest)
  show ?thesis
  proof (cases "ws_open N (wk_tx w)")
    case True
    with send_open [OF Cons True] assms show ?thesis
      by (intro sends_typed_event [of _ _ "Queue (wk_tx w) (Text x)"]) simp_all
  next
    case False
    have "sends_typed L (s\<lparr>sockets := rest\<rparr>) (snd (send_http L N x (s\<lparr>sockets := rest\<rparr>)))"
      by (rule sends_typed_http [OF assms])
    with False Cons show ?thesis
      by (simp add: send_def send_request_def Let_def sends_typed_def)
  qed
qed

lemma sends_typed_register_all: "sends_typed L s (snd (snd (register_all reqs s)))"
proof (induction reqs arbitrary: s)
  case Nil
  then show ?case by (simp add: sends_typed_same)
next
  case (Cons req reqs)
  from sends_typed_register Cons.IH [of "snd (snd (register s))"] show ?case
    by (auto simp: register_all_state intro: sends_typed_trans)
qed

named_theorems sends "operations that send only well-typed calls"

lemma sends_request [sends]:
  assumes "op_request E mth ps d s = (f, t)" and "typed_request mth ps"
  shows "sends_typed (lib E) s t"
proof -
  let ?m = "call_to_string (lib E) (build_request (ids s) mth ps)"
  have "typed_text (lib E) ?m" using assms(2) build_request_typed by (metis typed_text_def)
  note send = sends_typed_send [OF this, of "enrolled (now E) s" "netw E"]
  have "sends_typed (lib E) s (enrolled (now E) s)"
    using sends_typed_register [of "lib E" s] by (simp add: enrolled_def stamp_def sends_typed_def)
  moreover have "t = snd (send (lib E) (netw E) (Text ?m) (enrolled (now E) s))"
    using assms(1) by (auto simp: op_request_def request_send Let_def split: prod.splits)
  ultimately show ?thesis using send by (auto intro: sends_typed_trans)
qed

lemma register_all_typed:
  "list_all (\<lambda>(mth, ps, _). typed_request mth ps) reqs \<Longrightarrow> list_all well_typed (fst (register_all reqs s))"
proof (induction reqs arbitrary: s)
  case (Cons req reqs)
  obtain mth ps d where req: "req = (mth, ps, d)" by (cases req)
  from Cons.IH [of "snd (snd (register s))"] Cons.prems show ?case
    by (auto simp: register_all_Cons req build_request_typed split: prod.splits)
qed simp

lemma sends_batch [sends]:
  assumes "op_batch_request E reqs s = ((b :: ('t, 'j) yum_batch_future), t)"
    and "list_all (\<lambda>(mth, ps, _). typed_request mth ps) reqs"
  shows "sends_typed (lib E) s t"
proof -
  obtain calls resp s1 where all: "register_all reqs s = (calls, resp, s1)" by (metis surj_pair)
  have "list_all well_typed calls" using register_all_typed [OF assms(2), of s] by (simp add: all)
  then have "typed_text (lib E) (batch_to_string (lib E) calls)" by (auto simp: typed_text_def)
  note send = sends_typed_send [OF this, of s1 "netw E"]
  have "sends_typed (lib E) s s1" using sends_typed_register_all [of "lib E" s reqs] by (simp add: all)
  moreover have "t = snd (send (lib E) (netw E) (Text (batch_to_string (lib E) calls)) s1)"
    using assms(1) by (auto simp: op_batch_request_def batch_request_def all split: prod.splits sum.splits)
  ultimately show ?thesis using send by (auto intro: sends_typed_trans)
qed

section \<open>The operations\<close>

text \<open>
  How the models of Ethereum objects serialize: hashes, addresses, integers and names of blocks
  as strings, the call of a contract as an object.
\<close>

definition models_typed :: "models \<Rightarrow> bool" where
  "models_typed M \<longleftrightarrow>
     (\<forall>a. kind_of (ser_h160 M a) = Some StringKind) \<and> (\<forall>h. kind_of (ser_h256 M h) = Some StringKind) \<and>
     (\<forall>n. kind_of (ser_u256 M n) = Some StringKind) \<and> (\<forall>b. kind_of (ser_block_number M b) = Some StringKind) \<and>
     (\<forall>a d. kind_of (ser_contract_call M a d) = Some ObjectKind)"

lemma ref_models_typed: "models_typed ref_models"
  by (simp add: models_typed_def ref_models_def split: block_number.split)

lemmas request_defs =
  accounts_def block_number_of_def coinbase_def gas_price_def call_def estimate_gas_def get_code_def
  address_is_contract_def get_balance_def yum_get_num_transactions_sent_def yum_get_block_by_hash_def
  yum_get_block_by_number_def get_logs_def yum_get_transaction_def yum_get_transaction_receipt_def
  trace_transaction_def contract_string_var_def contract_call_var_def token_get_balance_def
  get_block_by_hash_def get_block_by_number_def get_num_transactions_sent_def get_transaction_def
  get_transaction_receipt_def old_get_block_by_hash_def old_get_block_by_number_def

lemmas batch_defs =
  classify_addresses_def yum_get_blocks_def yum_get_blocks_named_def get_logs_n_topics_def
  yum_get_transactions_def yum_get_transaction_receipts_def trace_transactions_def ask_decimals_def
  get_blocks_named_def get_transactions_def get_blocks_def get_transaction_receipts_def
  old_get_blocks_def old_get_blocks_named_def old_requests_map

lemmas arg_simps =
  signatures_def fits_def ser_log_params_def block_num_arg_def classify_req_def yum_block_req_def
  logs_req_def block_req_def block_arg_def transaction_req_def receipt_req_def old_block_req_def

lemma sends_requests:
  assumes "models_typed (mdl E)"
  shows "accounts E s = (f1, t) \<Longrightarrow> sends_typed (lib E) s t"
    and "block_number_of E s = (f2, t) \<Longrightarrow> sends_typed (lib E) s t"
    and "coinbase E s = (f3, t) \<Longrightarrow> sends_typed (lib E) s t"
    and "gas_price E s = (f4, t) \<Longrightarrow> sends_typed (lib E) s t"
    and "kind_of (ser c) = Some ObjectKind \<Longrightarrow> call E ser cd c s = (f5, t) \<Longrightarrow> sends_typed (lib E) s t"
    and "kind_of (ser c) = Some ObjectKind \<Longrightarrow> estimate_gas E ser c s = (f6, t) \<Longrightarrow> sends_typed (lib E) s t"
    and "get_code E a num s = (f7, t) \<Longrightarrow> sends_typed (lib E) s t"
    and "address_is_contract E a num s = (f8, t) \<Longrightarrow> sends_typed (lib E) s t"
    and "get_balance E a num s = (f9, t) \<Longrightarrow> sends_typed (lib E) s t"
    and "yum_get_num_transactions_sent E a num s = (f10, t) \<Longrightarrow> sends_typed (lib E) s t"
    and "yum_get_block_by_hash E bd h tx s = (f11, t) \<Longrightarrow> sends_typed (lib E) s t"
    and "yum_get_block_by_number E bd n tx s = (f12, t) \<Longrightarrow> sends_typed (lib E) s t"
    and "get_logs E ld lo hi a h s = (f13, t) \<Longrightarrow> sends_typed (lib E) s t"
    and "yum_get_transaction E xd h s = (f14, t) \<Longrightarrow> sends_typed (lib E) s t"
    and "yum_get_transaction_receipt E rd h s = (f15, t) \<Longrightarrow> sends_typed (lib E) s t"
    and "trace_transaction E pd h s = (f16, t) \<Longrightarrow> sends_typed (lib E) s t"
    and "contract_string_var E a x s = (f17, t) \<Longrightarrow> sends_typed (lib E) s t"
    and "token_get_balance E k a blk s = (f18, t) \<Longrightarrow> sends_typed (lib E) s t"
    and "get_block_by_hash E bd h tx s = (f19, t) \<Longrightarrow> sends_typed (lib E) s t"
    and "get_block_by_number E bd n tx s = (f20, t) \<Longrightarrow> sends_typed (lib E) s t"
    and "get_num_transactions_sent E a num s = (f21, t) \<Longrightarrow> sends_typed (lib E) s t"
    and "get_transaction E xd h s = (f22, t) \<Longrightarrow> sends_typed (lib E) s t"
    and "get_transaction_receipt E rd h s = (f23, t) \<Longrightarrow> sends_typed (lib E) s t"
    and "old_get_block_by_hash (mdl E) bd (op_request E) h tx s = (f24, t) \<Longrightarrow> sends_typed (lib E) s t"
    and "old_get_block_by_number (mdl E) bd (op_request E) n tx s = (f25, t) \<Longrightarrow> sends_typed (lib E) s t"
  unfolding request_defs
  by (erule sends_request, simp add: assms [unfolded models_typed_def] arg_simps split: block_number.split)+

lemma sends_batches:
  assumes "models_typed (mdl E)"
  shows "classify_addresses E as s = ((b1 :: (address_type, 'j) yum_batch_future), t) \<Longrightarrow> sends_typed (lib E) s t"
    and "yum_get_blocks_named E bd tx nums s = ((b2 :: ('b option, 'j) yum_batch_future), t) \<Longrightarrow> sends_typed (lib E) s t"
    and "get_logs_n_topics E ld lo hi a tops s = ((b3 :: ('l list, 'j) yum_batch_future), t) \<Longrightarrow> sends_typed (lib E) s t"
    and "yum_get_transactions E xd hs s = ((b4 :: ('x option, 'j) yum_batch_future), t) \<Longrightarrow> sends_typed (lib E) s t"
    and "yum_get_transaction_receipts E rd hs s = ((b5 :: ('r option, 'j) yum_batch_future), t) \<Longrightarrow> sends_typed (lib E) s t"
    and "trace_transactions E pd hs s = ((b6 :: ('p list, 'j) yum_batch_future), t) \<Longrightarrow> sends_typed (lib E) s t"
    and "ask_decimals E a op s = (b7, t) \<Longrightarrow> sends_typed (lib E) s t"
    and "get_blocks_named E bd tx nums s = ((b8 :: ('b option, 'j) yum_batch_future), t) \<Longrightarrow> sends_typed (lib E) s t"
    and "get_transactions E xd hs s = ((b9 :: ('x option, 'j) yum_batch_future), t) \<Longrightarrow> sends_typed (lib E) s t"
    and "get_transaction_receipts E rd hs s = ((b10 :: ('r option, 'j) yum_batch_future), t) \<Longrightarrow> sends_typed (lib E) s t"
    and "old_get_blocks_named (mdl E) bd (op_batch_request E) nums tx s = ((b11 :: ('b option, 'j) yum_batch_future), t) \<Longrightarrow>
      sends_typed (lib E) s t"
  unfolding batch_defs
  by (erule sends_batch,
      simp add: assms [unfolded models_typed_def] arg_simps list_all_iff split: block_number.split)+

text \<open>The queries for block numbers and for ranges go through the queries for lists of names.\<close>

lemma sends_ranges:
  assumes "models_typed (mdl E)"
  shows "get_blocks E bd tx ns s = ((b1 :: ('b option, 'j) yum_batch_future), t) \<Longrightarrow> sends_typed (lib E) s t"
    and "get_block_range E bd tx lo hi s = Ret ((b2 :: ('b option, 'j) yum_batch_future), t) \<Longrightarrow> sends_typed (lib E) s t"
    and "yum_get_blocks E bd tx ns s = ((b3 :: ('b option, 'j) yum_batch_future), t) \<Longrightarrow> sends_typed (lib E) s t"
    and "yum_get_block_range E bd tx lo hi s = Ret ((b4 :: ('b option, 'j) yum_batch_future), t) \<Longrightarrow>
      sends_typed (lib E) s t"
    and "old_get_blocks (mdl E) bd (op_batch_request E) ns tx s = ((b5 :: ('b option, 'j) yum_batch_future), t) \<Longrightarrow>
      sends_typed (lib E) s t"
    and "old_get_block_range (oc E) (mdl E) bd (op_batch_request E) lo hi tx s =
      Ret ((b6 :: ('b option, 'j) yum_batch_future), t) \<Longrightarrow> sends_typed (lib E) s t"
  using sends_batches(2,8,11) [OF assms]
  by (auto simp: get_blocks_def get_block_range_def yum_get_blocks_def yum_get_block_range_def
      old_get_blocks_def old_get_block_range_def Let_def obind_eq_Ret)

text \<open>The construction of a \<open>YumClient\<close> asks the new client for the block number.\<close>

lemma sends_construction:
  assumes "models_typed (mdl E)"
    and "client_new info (netw E) C hs n timeout = Some (Ret (Inr s))"
    and "yum_with_timeout info E C race hs n timeout = Some (Ret (Inr t))"
  shows "sends_typed (lib E) s t"
proof -
  obtain f c where c: "op_request E ''eth_blockNumber'' [] (env_de_u64 E) s = (f, c)" by (metis surj_pair)
  with assms(2,3) have "t = c" by (auto simp: yum_with_timeout_def split: race_result.splits)
  with sends_request [OF c] show ?thesis by (simp add: arg_simps)
qed

lemma sends_amount:
  assumes "models_typed (mdl E)" and "token_amount_in_eth E D pe a amt s = Ret (f, t)"
  shows "sends_typed (lib E) s t"
proof -
  obtain b s1 where ask: "ask_decimals E a (amount_op E D pe a amt) s = (b, s1)" by (metis surj_pair)
  then have "t = s1" using assms(2) by (auto simp: token_amount_in_eth_def obind_eq_Ret)
  with sends_batches(7) [OF assms(1) ask] show ?thesis by simp
qed

lemma sends_tokens:
  assumes "models_typed (mdl E)"
  shows "token_decimals E pe a s = Ret (f1, t) \<Longrightarrow> sends_typed (lib E) s t"
    and "token_decimals_raw E a op s = Ret (f5, t) \<Longrightarrow> sends_typed (lib E) s t"
    and "token_name E a s = (f2, t) \<Longrightarrow> sends_typed (lib E) s t"
    and "token_symbol E a s = (f3, t) \<Longrightarrow> sends_typed (lib E) s t"
    and "etherdelta_get_balance E k a blk s = Ret (f4, t) \<Longrightarrow> sends_typed (lib E) s t"
  using sends_batches(7) [OF assms] sends_requests(17) [OF assms]
    sends_request [of E "''eth_call''" _ "balance_op E" s] assms
  by (auto simp: token_decimals_def token_decimals_raw_def token_name_def token_symbol_def
      etherdelta_get_balance_def obind_eq_Ret Let_def models_typed_def arg_simps
      split: prod.splits block_number.splits)

lemma sends_subscribe:
  assumes "subscribe E ps op s = (p, t)" and "typed_request ''parity_subscribe'' ps"
  shows "sends_typed (lib E) s t"
proof -
  obtain f where "op_request E ''parity_subscribe'' ps (de_usize (kodec E)) (snd (new_chan s)) = (f, t)"
    using assms(1) by (auto simp: subscribe_def Let_def split: prod.splits)
  from sends_request [OF this assms(2)] show ?thesis by (simp add: new_chan_def sends_typed_def)
qed

lemma sends_streams:
  assumes "models_typed (mdl E)"
  shows "bs_poll E bd num clk k w bst s = Ret (r1, bst', t) \<Longrightarrow> sends_typed (lib E) s t"
    and "ts_poll E xd clk k w tst s = Ret (r2, tst', t) \<Longrightarrow> sends_typed (lib E) s t"
proof -
  assume "bs_poll E bd num clk k w bst s = Ret (r1, bst', t)"
  then obtain m st1 where "next_block E bd clk bst s = Ret ((m, st1), t)" using bs_poll_queue by blast
  from next_block_queue [OF this] sends_batches(8) [OF assms] show "sends_typed (lib E) s t"
    by (auto intro: sends_typed_same)
next
  assume "ts_poll E xd clk k w tst s = Ret (r2, tst', t)"
  then obtain m st1 where "next_tx E xd clk tst s = Ret ((m, st1), t)" using ts_poll_queue by blast
  from next_tx_queue [OF this] sends_batches(9) [OF assms] show "sends_typed (lib E) s t"
    by (auto intro: sends_typed_same)
qed

text \<open>The poll of a subscription registers it under its id and sends nothing.\<close>

lemma sends_pubsub: "pb_poll w nw pst s = Ret (r, pst', t) \<Longrightarrow> sends_typed L s t"
proof (rule sends_typed_same)
  show "pb_poll w nw pst s = Ret (r, pst', t) \<Longrightarrow> trace t = trace s"
  proof (induction w nw pst s rule: pb_poll.induct)
    case (1 w nw st s)
    from 1(2) show ?case
      by (subst (asm) pb_poll.simps)
        (auto dest: 1(1) simp: add_subscription_def split: if_splits sub_state.splits prod.splits sum.splits
          async.splits option.splits)
  qed
qed

section \<open>Properties\<close>

text \<open>
  C14: Every operation sends well-typed calls. Let the models serialize as documented. Whatever
  the arguments, the state, the network and the node, all that an operation queues on a socket or
  posts over HTTP is the text of a call, or of a batch of calls, in which the version is 2.0, the
  id a number, the method one that the node has, and the parameters of the kinds and the number
  the method takes. The operations are all those that name the method themselves: every such
  method of \<open>YumClient\<close>, its construction once the connections are up, every provided method of
  \<open>OpSet\<close>, \<open>BlockOps\<close> (the crate's trait and the one of \<open>client/ops.rs\<close>), \<open>TransactionOps\<close>,
  \<open>TokenOps\<close> and \<open>PubsubOps\<close>, and the polls of the three streams. Not among them are \<open>request\<close>,
  \<open>batch_request\<close> and \<open>subscribe\<close>, whose method or parameters are the caller's; \<open>is_connected\<close> and
  \<open>shutdown\<close>, which send control messages to the socket threads and no calls; and \<open>MarketOps\<close>,
  which talks to another service.
\<close>

theorem operations_well_typed:
  assumes "models_typed (mdl E)" and "kind_of (ser c) = Some ObjectKind"
  shows "{t. \<exists>f. accounts E s = (f, t)} \<union> {t. \<exists>f. block_number_of E s = (f, t)} \<union>
    {t. \<exists>f. coinbase E s = (f, t)} \<union> {t. \<exists>f. gas_price E s = (f, t)} \<union>
    {t. \<exists>f. call E ser cd c s = (f, t)} \<union> {t. \<exists>f. estimate_gas E ser c s = (f, t)} \<union>
    {t. \<exists>f. get_code E a num s = (f, t)} \<union> {t. \<exists>f. address_is_contract E a num s = (f, t)} \<union>
    {t. \<exists>f. get_balance E a num s = (f, t)} \<union> {t. \<exists>f. get_logs E ld lo hi a h s = (f, t)} \<union>
    {t. \<exists>f. yum_get_num_transactions_sent E a num s = (f, t)} \<union>
    {t. \<exists>f. yum_get_block_by_hash E bd h tx s = (f, t)} \<union> {t. \<exists>f. yum_get_block_by_number E bd n tx s = (f, t)} \<union>
    {t. \<exists>f. yum_get_transaction E xd h s = (f, t)} \<union> {t. \<exists>f. yum_get_transaction_receipt E rd h s = (f, t)} \<union>
    {t. \<exists>f. trace_transaction E pd h s = (f, t)} \<union>
    {t. \<exists>f. classify_addresses E addrs s = ((f :: (address_type, unit) yum_batch_future), t)} \<union>
    {t. \<exists>f. yum_get_blocks_named E bd tx bns s = ((f :: ('b option, unit) yum_batch_future), t)} \<union>
    {t. \<exists>f. yum_get_blocks E bd tx ns s = ((f :: ('b option, unit) yum_batch_future), t)} \<union>
    {t. \<exists>f. yum_get_block_range E bd tx lo hi s = Ret ((f :: ('b option, unit) yum_batch_future), t)} \<union>
    {t. \<exists>f. get_logs_n_topics E ld lo hi a hs s = ((f :: ('l list, unit) yum_batch_future), t)} \<union>
    {t. \<exists>f. yum_get_transactions E xd hs s = ((f :: ('x option, unit) yum_batch_future), t)} \<union>
    {t. \<exists>f. yum_get_transaction_receipts E rd hs s = ((f :: ('r option, unit) yum_batch_future), t)} \<union>
    {t. \<exists>f. trace_transactions E pd hs s = ((f :: ('p list, unit) yum_batch_future), t)} \<union>
    {t. \<exists>info C race hosts k timeout. client_new info (netw E) C hosts k timeout = Some (Ret (Inr s)) \<and>
        yum_with_timeout info E C race hosts k timeout = Some (Ret (Inr t))} \<union>
    {t. \<exists>f. contract_string_var E a data s = (f, t)} \<union>
    {t. \<exists>f. get_block_by_hash E bd h tx s = (f, t)} \<union> {t. \<exists>f. get_block_by_number E bd n tx s = (f, t)} \<union>
    {t. \<exists>f. get_blocks_named E bd tx bns s = ((f :: ('b option, unit) yum_batch_future), t)} \<union>
    {t. \<exists>f. get_blocks E bd tx ns s = ((f :: ('b option, unit) yum_batch_future), t)} \<union>
    {t. \<exists>f. get_block_range E bd tx lo hi s = Ret ((f :: ('b option, unit) yum_batch_future), t)} \<union>
    {t. \<exists>f. old_get_block_by_hash (mdl E) bd (op_request E) h tx s = (f, t)} \<union>
    {t. \<exists>f. old_get_block_by_number (mdl E) bd (op_request E) n tx s = (f, t)} \<union>
    {t. \<exists>f. old_get_blocks_named (mdl E) bd (op_batch_request E) bns tx s = ((f :: ('b option, unit) yum_batch_future), t)} \<union>
    {t. \<exists>f. old_get_blocks (mdl E) bd (op_batch_request E) ns tx s = ((f :: ('b option, unit) yum_batch_future), t)} \<union>
    {t. \<exists>f. old_get_block_range (oc E) (mdl E) bd (op_batch_request E) lo hi tx s =
        Ret ((f :: ('b option, unit) yum_batch_future), t)} \<union>
    {t. \<exists>f. get_num_transactions_sent E a num s = (f, t)} \<union>
    {t. \<exists>f. get_transaction E xd h s = (f, t)} \<union> {t. \<exists>f. get_transaction_receipt E rd h s = (f, t)} \<union>
    {t. \<exists>f. get_transactions E xd hs s = ((f :: ('x option, unit) yum_batch_future), t)} \<union>
    {t. \<exists>f. get_transaction_receipts E rd hs s = ((f :: ('r option, unit) yum_batch_future), t)} \<union>
    {t. \<exists>f. token_decimals_raw E a op s = Ret (f, t)} \<union>
    {t. \<exists>f. token_decimals E pe a s = Ret (f, t)} \<union> {t. \<exists>f. token_amount_in_eth E D pe a amt s = Ret (f, t)} \<union>
    {t. \<exists>f. token_name E a s = (f, t)} \<union> {t. \<exists>f. token_symbol E a s = (f, t)} \<union>
    {t. \<exists>f. token_get_balance E k a blk s = (f, t)} \<union> {t. \<exists>f. etherdelta_get_balance E k a blk s = Ret (f, t)} \<union>
    {t. \<exists>f. new_block_numbers E s = (f, t)} \<union> {t. \<exists>f. new_blocks_with_tx E od s = (f, t)} \<union>
    {t. \<exists>r st'. bs_poll E bd nr clk i w bst s = Ret (r, st', t)} \<union>
    {t. \<exists>r st'. ts_poll E xd clk i w tst s = Ret (r, st', t)} \<union>
    {t. \<exists>r st'. pb_poll w nw pst s = Ret (r, st', t)}
    \<subseteq> Collect (sends_typed (lib E) s)"
proof -
  have subs: "new_block_numbers E s = (f1, t) \<Longrightarrow> sends_typed (lib E) s t"
    "new_blocks_with_tx E od s = (f2, t) \<Longrightarrow> sends_typed (lib E) s t" for f1 f2 t
    using assms(1)
    by (auto simp: new_block_numbers_def new_blocks_with_tx_def models_typed_def arg_simps
        elim!: sends_subscribe)
  note ops = subs sends_requests [OF assms(1)] sends_batches [OF assms(1)] sends_ranges [OF assms(1)]
    sends_tokens [OF assms(1)] sends_amount [OF assms(1)] sends_streams [OF assms(1)] sends_pubsub
    sends_construction [OF assms(1)]
  show ?thesis
    by (intro Un_least subsetI CollectI; (elim CollectE exE conjE))
      (use assms(2) ops in \<open>simp_all only:\<close>)
qed

theorem operations_well_typed_witness:
  "let t = snd (get_balance demo_env 5 (Name ''latest'') demo_sys) in
   models_typed (mdl demo_env) \<and> trace t = [Queue 0 (Text ''call'')] \<and> sends_typed (lib demo_env) demo_sys t"
proof -
  have M: "models_typed (mdl demo_env)" using ref_models_typed by (simp add: demo_env_def)
  have "sends_typed (lib demo_env) demo_sys (snd (get_balance demo_env 5 (Name ''latest'') demo_sys))"
    by (rule CollectD, rule subsetD, rule operations_well_typed
          [where ser = "\<lambda>_ :: unit. JObject []" and num = "Name ''latest''" and a = 5, OF M])
      (simp_all add: prod_eq_iff)
  moreover have "trace (snd (get_balance demo_env 5 (Name ''latest'') demo_sys)) = [Queue 0 (Text ''call'')]"
    by (simp add: get_balance_def op_request_def request_send enrolled_def demo_env_def demo_net_def demo_sys_def
        demo_worker_def send_def send_request_def client_defs)
  ultimately show ?thesis using M by (simp add: Let_def)
qed

end
