(* ===== verification/Lock_Machine.thy ===== *)
theory Lock_Machine
  imports Yum_Prelude
begin

text \<open>
  A machine that runs threads on shared locks. A thread is a list of actions: it takes and
  releases locks that are not reentrant, waits for signals, and sends them. A discipline on the
  lists (locks in ascending order, nothing but the lowest held while waiting, and no waiting in
  a thread on which others wait) is shown to be enough for the machine never to get stuck; and
  every turn uses up an action, so all threads come to their end.
\<close>

section \<open>A machine with locks and signals\<close>

datatype ('l, 'g) action = Acquire 'l | Release 'l | Await 'g | Settle 'g

record ('l, 'g) machine =
  owner :: "'l \<Rightarrow> nat option"
  signalled :: "'g set"
  todo :: "nat \<Rightarrow> ('l, 'g) action list"

inductive turn_of :: "('l, 'g) machine \<Rightarrow> ('l, 'g) machine \<Rightarrow> bool" where
  turn_acquire: "todo m i = Acquire x # p \<Longrightarrow> owner m x = None \<Longrightarrow>
    turn_of m (m\<lparr>owner := (owner m)(x \<mapsto> i), todo := (todo m)(i := p)\<rparr>)"
| turn_release: "todo m i = Release x # p \<Longrightarrow> owner m x = Some i \<Longrightarrow>
    turn_of m (m\<lparr>owner := (owner m)(x := None), todo := (todo m)(i := p)\<rparr>)"
| turn_await: "todo m i = Await g # p \<Longrightarrow> g \<in> signalled m \<Longrightarrow>
    turn_of m (m\<lparr>todo := (todo m)(i := p)\<rparr>)"
| turn_settle: "todo m i = Settle g # p \<Longrightarrow>
    turn_of m (m\<lparr>signalled := insert g (signalled m), todo := (todo m)(i := p)\<rparr>)"

definition machine_of :: "('l, 'g) action list list \<Rightarrow> ('l, 'g) machine" where
  "machine_of ps = \<lparr>owner = (\<lambda>_. None), signalled = {}, todo = (\<lambda>i. if i < length ps then ps ! i else [])\<rparr>"

definition holds :: "('l, 'g) machine \<Rightarrow> nat \<Rightarrow> 'l set" where
  "holds m i = {x. owner m x = Some i}"

text \<open>
  The locks held after a list of actions, when it keeps the discipline: locks are taken in
  ascending rank, only held locks are released, and nothing but the lowest lock is held while
  waiting.
\<close>

fun guarded :: "('l \<Rightarrow> nat) \<Rightarrow> 'l \<Rightarrow> 'l set \<Rightarrow> ('l, 'g) action list \<Rightarrow> 'l set option" where
  "guarded rank low H [] = Some H"
| "guarded rank low H (Acquire x # p) =
     (if \<forall>y \<in> H. rank y < rank x then guarded rank low (insert x H) p else None)"
| "guarded rank low H (Release x # p) = (if x \<in> H then guarded rank low (H - {x}) p else None)"
| "guarded rank low H (Await g # p) = (if H \<subseteq> {low} then guarded rank low H p else None)"
| "guarded rank low H (Settle g # p) = guarded rank low H p"

text \<open>A thread on which others wait does not wait itself and leaves the lowest lock alone.\<close>

definition serving :: "'l \<Rightarrow> ('l, 'g) action list \<Rightarrow> bool" where
  "serving low p \<longleftrightarrow>
     (\<exists>g. Settle g \<in> set p) \<longrightarrow> Acquire low \<notin> set p \<and> (\<forall>g. Await g \<notin> set p)"

definition promised :: "('l, 'g) action list list \<Rightarrow> bool" where
  "promised ps \<longleftrightarrow>
     (let acts = concat ps in list_all (\<lambda>a. case a of Await g \<Rightarrow> Settle g \<in> set acts | _ \<Rightarrow> True) acts)"

definition lock_inv :: "('l \<Rightarrow> nat) \<Rightarrow> 'l \<Rightarrow> ('l, 'g) machine \<Rightarrow> bool" where
  "lock_inv rank low m \<longleftrightarrow>
     (\<forall>i. guarded rank low (holds m i) (todo m i) = Some {} \<and> serving low (todo m i)) \<and>
     (\<forall>i g. Await g \<in> set (todo m i) \<longrightarrow> g \<in> signalled m \<or> (\<exists>j. Settle g \<in> set (todo m j)))"

definition lock_start :: "('l \<Rightarrow> nat) \<Rightarrow> 'l \<Rightarrow> ('l, 'g) machine \<Rightarrow> bool" where
  "lock_start rank low m \<longleftrightarrow>
     (\<exists>ps. m = machine_of ps \<and> promised ps \<and> (\<forall>p \<in> set ps. guarded rank low {} p = Some {} \<and> serving low p))"

lemma guarded_append:
  "guarded rank low H (p @ q) = Option.bind (guarded rank low H p) (\<lambda>H'. guarded rank low H' q)"
  by (induction rank low H p rule: guarded.induct) simp_all

lemma serving_Cons: "serving low (a # p) \<Longrightarrow> serving low p"
  by (auto simp: serving_def)

section \<open>The discipline is enough\<close>

locale ranked_locks =
  fixes rank :: "'l \<Rightarrow> nat" and low :: 'l and top :: nat
  assumes lowest: "x \<noteq> low \<Longrightarrow> rank low < rank x"
    and bounded: "rank x < top"
begin

lemma lock_inv_start:
  assumes "lock_start rank low (m :: ('l, 'g) machine)"
  shows "lock_inv rank low m"
proof -
  obtain ps where m: "m = machine_of ps" and p: "promised ps"
    and ok: "\<forall>p \<in> set ps. guarded rank low {} p = Some {} \<and> serving low p"
    using assms by (auto simp: lock_start_def)
  have "\<exists>j. Settle g \<in> set (todo m j)" if "Await g \<in> set (todo m i)" for i g
  proof -
    have "Await g \<in> set (concat ps)" using that by (auto simp: m machine_of_def split: if_splits)
    then have "Settle g \<in> set (concat ps)"
      using p by (fastforce simp: promised_def Let_def list_all_iff)
    then obtain q where "q \<in> set ps" "Settle g \<in> set q" by auto
    then obtain j where "j < length ps" "Settle g \<in> set (ps ! j)" by (metis in_set_conv_nth)
    then show ?thesis by (auto simp: m machine_of_def)
  qed
  with ok show ?thesis
    by (auto simp: lock_inv_def m machine_of_def holds_def serving_def)
qed

lemma lock_inv_move:
  assumes inv: "lock_inv rank low m" and i: "todo m i = a # p" and todo: "todo m' = (todo m)(i := p)"
    and "\<And>j. j \<noteq> i \<Longrightarrow> holds m' j = holds m j" and "guarded rank low (holds m' i) p = Some {}"
    and sig: "signalled m \<subseteq> signalled m'" "\<And>g. a = Settle g \<Longrightarrow> g \<in> signalled m'"
  shows "lock_inv rank low m'"
  unfolding lock_inv_def
proof (intro conjI allI impI)
  fix j
  show "guarded rank low (holds m' j) (todo m' j) = Some {}"
    using inv assms(4,5) by (cases "j = i") (simp_all add: todo lock_inv_def)
  show "serving low (todo m' j)"
    using inv i serving_Cons [of low a p] by (cases "j = i") (auto simp: todo lock_inv_def dest: spec [of _ i])
next
  fix j g
  assume "Await g \<in> set (todo m' j)"
  then have "Await g \<in> set (todo m j)" using i by (auto simp: todo split: if_splits)
  then consider "g \<in> signalled m" | k where "Settle g \<in> set (todo m k)"
    using inv unfolding lock_inv_def by blast
  then show "g \<in> signalled m' \<or> (\<exists>k. Settle g \<in> set (todo m' k))"
  proof cases
    case (2 k)
    then show ?thesis using i sig(2) [of g] by (cases "k = i") (auto simp: todo)
  qed (use sig(1) in blast)
qed

lemma lock_inv_turn:
  assumes inv: "lock_inv rank low m" and "turn_of m m'"
  shows "lock_inv rank low m'"
  using assms(2)
proof (cases rule: turn_of.cases)
  case (turn_acquire i x p)
  have ok: "guarded rank low (holds m i) (Acquire x # p) = Some {}"
    using inv turn_acquire(2) by (metis lock_inv_def)
  have "holds m' j = (if j = i then insert x (holds m i) else holds m j)" for j
    using turn_acquire by (auto simp: holds_def)
  with ok show ?thesis
    using turn_acquire by (intro lock_inv_move [OF inv turn_acquire(2)]) (auto split: if_splits)
next
  case (turn_release i x p)
  have ok: "guarded rank low (holds m i) (Release x # p) = Some {}"
    using inv turn_release(2) by (metis lock_inv_def)
  have "holds m' j = (if j = i then holds m i - {x} else holds m j)" for j
    using turn_release by (auto simp: holds_def)
  with ok show ?thesis
    using turn_release by (intro lock_inv_move [OF inv turn_release(2)]) (auto split: if_splits)
next
  case (turn_await i g p)
  have ok: "guarded rank low (holds m i) (Await g # p) = Some {}"
    using inv turn_await(2) by (metis lock_inv_def)
  have "holds m' j = holds m j" for j using turn_await by (simp add: holds_def)
  with ok show ?thesis
    using turn_await by (intro lock_inv_move [OF inv turn_await(2)]) (auto split: if_splits)
next
  case (turn_settle i g p)
  have ok: "guarded rank low (holds m i) (Settle g # p) = Some {}"
    using inv turn_settle(2) by (metis lock_inv_def)
  have "holds m' j = holds m j" for j using turn_settle by (simp add: holds_def)
  with ok show ?thesis
    using turn_settle by (intro lock_inv_move [OF inv turn_settle(2)]) auto
qed

lemma owner_busy:
  assumes "lock_inv rank low m" and "owner m x = Some i"
  shows "todo m i \<noteq> []"
proof
  assume "todo m i = []"
  then have "holds m i = {}" using assms(1) by (auto simp: lock_inv_def dest: spec [of _ i])
  with assms(2) show False by (simp add: holds_def)
qed

text \<open>What the head of a list looks like when the machine cannot move.\<close>

lemma stuck_head:
  assumes "lock_inv rank low m" and "\<nexists>m'. turn_of m m'" and "todo m i \<noteq> []"
  obtains x p j where "todo m i = Acquire x # p" "owner m x = Some j"
  | g p where "todo m i = Await g # p" "g \<notin> signalled m"
proof -
  obtain a p where a: "todo m i = a # p" using assms(3) by (cases "todo m i") auto
  show ?thesis
  proof (cases a)
    case (Acquire x)
    then show ?thesis using a that(1) turn_of.turn_acquire [of m i x p] assms(2) by (cases "owner m x") auto
  next
    case (Release x)
    then have "guarded rank low (holds m i) (Release x # p) = Some {}"
      using a assms(1) by (metis lock_inv_def)
    then have "owner m x = Some i" by (simp add: holds_def split: if_splits)
    then show ?thesis using a Release turn_of.turn_release [of m i x p] assms(2) by blast
  next
    case (Await g)
    then show ?thesis using a that(2) turn_of.turn_await [of m i g p] assms(2) by blast
  next
    case (Settle g)
    then show ?thesis using a turn_of.turn_settle [of m i g p] assms(2) by blast
  qed
qed

text \<open>Whoever waits for a signal waits for a thread that itself waits for a lock above the lowest.\<close>

lemma await_blocked:
  assumes "lock_inv rank low m" and "\<nexists>m'. turn_of m m'"
    and "todo m i = Await g # p" and "g \<notin> signalled m"
  shows "\<exists>j z q. todo m j = Acquire z # q \<and> z \<noteq> low"
proof -
  obtain j where j: "Settle g \<in> set (todo m j)"
    using assms(1,3,4) unfolding lock_inv_def by (metis list.set_intros(1))
  then have "serving low (todo m j)" "todo m j \<noteq> []" using assms(1) by (auto simp: lock_inv_def)
  with j have "Acquire low \<notin> set (todo m j)" "\<forall>g. Await g \<notin> set (todo m j)" "todo m j \<noteq> []"
    by (auto simp: serving_def)
  with stuck_head [OF assms(1,2), of j] show ?thesis by (metis list.set_intros(1))
qed

lemma acquire_blocked:
  assumes inv: "lock_inv rank low m" and stuck: "\<nexists>m'. turn_of m m'" and "todo m i = Acquire x # p"
  shows "\<exists>j y q. todo m j = Acquire y # q \<and> rank x < rank y"
proof -
  obtain j where j: "owner m x = Some j" using stuck_head [OF inv stuck, of i] assms(3) by fastforce
  note busy = owner_busy [OF inv j]
  have x: "x \<in> holds m j" using j by (simp add: holds_def)
  have ok: "guarded rank low (holds m j) (todo m j) = Some {}" using inv by (simp add: lock_inv_def)
  show ?thesis
  proof (rule stuck_head [OF inv stuck busy])
    fix y q k
    assume "todo m j = Acquire y # q"
    with x ok show ?thesis by (auto split: if_splits)
  next
    fix g q
    assume g: "todo m j = Await g # q" "g \<notin> signalled m"
    with x ok have "x = low" by (auto split: if_splits)
    with await_blocked [OF inv stuck g] lowest show ?thesis by blast
  qed
qed

lemma not_stuck:
  assumes inv: "lock_inv rank low m" and "todo m i \<noteq> []"
  shows "\<exists>m'. turn_of m m'"
proof (rule ccontr)
  assume stuck: "\<nexists>m'. turn_of m m'"
  have none: "todo m j \<noteq> Acquire x # p" for j x p
  proof (induction "top - rank x" arbitrary: j x p rule: less_induct)
    case less
    show ?case
    proof
      assume "todo m j = Acquire x # p"
      from acquire_blocked [OF inv stuck this] obtain k y q where
        "todo m k = Acquire y # q" "rank x < rank y" by blast
      with less [of y k q] bounded [of y] show False by (simp add: diff_less_mono2)
    qed
  qed
  show False
  proof (rule stuck_head [OF inv stuck assms(2)])
    fix x p j
    assume "todo m i = Acquire x # p"
    with none show False by blast
  next
    fix g p
    assume "todo m i = Await g # p" "g \<notin> signalled m"
    from await_blocked [OF inv stuck this] none show False by blast
  qed
qed

end

section \<open>Every turn is one action\<close>

definition work :: "nat \<Rightarrow> ('l, 'g) machine \<Rightarrow> nat" where
  "work n m = (\<Sum>i < n. length (todo m i))"

lemma turn_todo: "turn_of m m' \<Longrightarrow> \<exists>i a p. todo m i = a # p \<and> todo m' = (todo m)(i := p)"
  by (induction rule: turn_of.induct) auto

lemma turn_work:
  assumes "turn_of m m'" and "\<forall>i \<ge> n. todo m i = []"
  shows "work n m = Suc (work n m') \<and> (\<forall>i \<ge> n. todo m' i = [])"
proof -
  obtain i a p where i: "todo m i = a # p" "todo m' = (todo m)(i := p)" using turn_todo [OF assms(1)] by blast
  have "i < n" using assms(2) i(1) by (metis list.distinct(1) not_le)
  then have "work n m = length (todo m i) + (\<Sum>j \<in> {..<n} - {i}. length (todo m j))"
    and "work n m' = length p + (\<Sum>j \<in> {..<n} - {i}. length (todo m j))"
    by (simp_all add: work_def i(2) sum.remove [of _ i])
  with i assms(2) \<open>i < n\<close> show ?thesis by simp
qed

lemma turns_work:
  assumes "(turn_of ^^ k) m m'" and "\<forall>i \<ge> n. todo m i = []"
  shows "work n m = k + work n m' \<and> (\<forall>i \<ge> n. todo m' i = [])"
  using assms(1)
proof (induction k arbitrary: m')
  case 0
  with assms(2) show ?case by simp
next
  case (Suc k)
  then obtain m1 where "(turn_of ^^ k) m m1" "turn_of m1 m'" by auto
  with Suc.IH [of m1] turn_work [of m1 m' n] show ?case by auto
qed

lemma work_start: "work (length ps) (machine_of ps) = length (concat ps)"
  by (simp add: work_def machine_of_def length_concat atLeast0LessThan [symmetric] sum_list_sum_nth)

lemma work_done: "\<forall>i \<ge> n. todo m i = [] \<Longrightarrow> work n m = 0 \<longleftrightarrow> (\<forall>i. todo m i = [])"
  by (auto simp: work_def) (metis lessThan_iff not_le)

context ranked_locks begin

lemma lock_inv_turns: "(turn_of ^^ k) m m' \<Longrightarrow> lock_inv rank low m \<Longrightarrow> lock_inv rank low m'"
  by (induction k arbitrary: m') (auto dest: lock_inv_turn)

text \<open>From a start every run of \<open>k\<close> turns can go on until all actions are done.\<close>

lemma runs_to_the_end:
  assumes "promised ps" and "\<And>p. p \<in> set ps \<Longrightarrow> guarded rank low {} p = Some {} \<and> serving low p"
    and "(turn_of ^^ k) (machine_of ps) m"
  shows "k \<le> length (concat ps) \<and> (k < length (concat ps) \<longrightarrow> (\<exists>m'. turn_of m m')) \<and>
    (k = length (concat ps) \<longrightarrow> (\<forall>i. todo m i = [] \<and> holds m i = {}))"
proof -
  have "lock_inv rank low (machine_of ps)"
    using assms(1,2) by (intro lock_inv_start) (auto simp: lock_start_def)
  from lock_inv_turns [OF assms(3) this] have inv: "lock_inv rank low m" .
  have "\<forall>i \<ge> length ps. todo (machine_of ps) i = []" by (simp add: machine_of_def)
  from turns_work [OF assms(3) this]
  have w: "length (concat ps) = k + work (length ps) m" and idle: "\<forall>i \<ge> length ps. todo m i = []"
    by (simp_all add: work_start)
  have "\<exists>m'. turn_of m m'" if "work (length ps) m \<noteq> 0"
    using that not_stuck [OF inv] by (auto simp: work_def)
  moreover have "todo m i = [] \<and> holds m i = {}" if "work (length ps) m = 0" for i
    using that work_done [OF idle] inv by (auto simp: lock_inv_def dest: spec [of _ i])
  ultimately show ?thesis using w by simp
qed

end

end
