(* ===== verification/Lock_Order.thy ===== *)
theory Lock_Order
  imports Lock_Machine Socket_Worker
begin

text \<open>
  Locks and waiting in \<open>src/client/mod.rs\<close>. The other theories take a critical section as one
  atomic step; this one looks at the locks themselves. Four fields of the client are behind a
  \<open>Mutex\<close> that is not reentrant, some operations take a second lock while they hold one, and
  three of them wait for a socket thread while they hold the queue of workers: a status check,
  the sentinel, and \<open>stop\<close>, which joins the thread.

  For every operation there is a function that gives its locks and waits in program order. A
  guard that is a temporary of a \<open>for\<close>, an \<open>if let\<close> or a tail expression lives to the end of that
  statement, and a panic releases the guards on its way. What an operation finds in a table
  or hears from outside is an argument, since other threads run in between. The wait loops of
  \<open>connect\<close> and \<open>reconnect\<close> watch a clock and end by themselves, so they are no waits here.
\<close>

section \<open>Locks and signals of the program\<close>

datatype mutex = Sockets | Timestamps | Pending | Subscriptions

text \<open>A status or ping channel that is answered or dropped, and the end of a thread.\<close>

datatype signal = Reply chan | Exit nat

type_synonym acts = "(mutex, signal) action list"

fun mutex_rank :: "mutex \<Rightarrow> nat" where
  "mutex_rank Sockets = 0"
| "mutex_rank Timestamps = 1"
| "mutex_rank Pending = 2"
| "mutex_rank Subscriptions = 3"

interpretation mutexes: ranked_locks mutex_rank Sockets 4
proof
  show "mutex_rank Sockets < mutex_rank x" if "x \<noteq> Sockets" for x using that by (cases x) simp_all
  show "mutex_rank x < 4" for x by (cases x) simp_all
qed

abbreviation keeps :: "mutex set \<Rightarrow> acts \<Rightarrow> bool" where
  "keeps H p \<equiv> guarded mutex_rank Sockets H p = Some H"

definition locked :: "mutex \<Rightarrow> acts \<Rightarrow> acts" where
  "locked x p = Acquire x # p @ [Release x]"

section \<open>Requests\<close>

definition http_locks :: "rpc_lib \<Rightarrow> net \<Rightarrow> string \<Rightarrow> acts" where
  "http_locks L N msg =
     (case http_post N msg of
        Inr (Inr resp_text) \<Rightarrow>
          (case handle_text_message L resp_text of Inr _ \<Rightarrow> locked Pending [] | Inl _ \<Rightarrow> [])
      | _ \<Rightarrow> [])"

text \<open>The worker is taken out under one lock and put back under another; \<open>found\<close> is the queue at the first.\<close>

definition send_locks :: "rpc_lib \<Rightarrow> net \<Rightarrow> string \<Rightarrow> worker list \<Rightarrow> acts" where
  "send_locks L N msg found =
     locked Sockets [] @
     (case found of
        w # _ \<Rightarrow> if ws_open N (wk_tx w) then locked Sockets [] else http_locks L N msg
      | [] \<Rightarrow> http_locks L N msg)"

definition request_locks :: "rpc_lib \<Rightarrow> net \<Rightarrow> usize \<Rightarrow> string \<Rightarrow> json list \<Rightarrow> worker list \<Rightarrow> acts" where
  "request_locks L N i mth ps found =
     locked Pending [] @ locked Timestamps [] @ send_locks L N (call_to_string L (build_request i mth ps)) found"

definition batch_locks :: "rpc_lib \<Rightarrow> net \<Rightarrow> rpc_call list \<Rightarrow> worker list \<Rightarrow> acts" where
  "batch_locks L N calls found = locked Pending [] @ send_locks L N (batch_to_string L calls) found"

definition add_subscription_locks :: acts where
  "add_subscription_locks = locked Subscriptions []"

definition drop_locks :: acts where
  "drop_locks = locked Sockets [] @ locked Pending []"

section \<open>The background threads\<close>

text \<open>
  One pass of the timeout thread over the buckets \<open>bs\<close> it finds: the map of timestamps stays
  locked during the whole loop, and the table of requests is locked once for every id.
\<close>

definition sweep_locks :: "int \<Rightarrow> (int \<times> usize list) list \<Rightarrow> usize list \<Rightarrow> acts" where
  "sweep_locks sec bs removed =
     locked Timestamps
       (concat (map (\<lambda>(k, vs). if sec - k \<ge> 10 then concat (map (\<lambda>_. locked Pending []) vs) else []) bs)) @
     concat (map (\<lambda>_. locked Timestamps []) removed)"

text \<open>
  \<open>worker.is_connected()\<close>: the wait, the answer (\<open>None\<close> when it panics) and the next channel.
\<close>

definition status_locks :: "net \<Rightarrow> worker \<Rightarrow> chan \<Rightarrow> acts \<times> bool option \<times> chan" where
  "status_locks N w c =
     (if wk_thread w = None then ([], Some False, c)
      else if ws_open N (wk_tx w) then ([Await (Reply c)], status_reply N c, Suc c)
      else ([], Some False, Suc c))"

fun any_locks :: "net \<Rightarrow> worker list \<Rightarrow> chan \<Rightarrow> acts" where
  "any_locks N [] c = []"
| "any_locks N (w # ws) c =
     (case status_locks N w c of (p, b, c1) \<Rightarrow> p @ (if b = Some False then any_locks N ws c1 else []))"

definition is_connected_locks :: "net \<Rightarrow> worker list \<Rightarrow> chan \<Rightarrow> acts" where
  "is_connected_locks N ws c = locked Sockets (any_locks N ws c)"

text \<open>\<open>worker.stop()?\<close> for every worker: an error ends the loop, and so does the \<open>expect\<close> on the thread.\<close>

fun stop_waits :: "net \<Rightarrow> worker list \<Rightarrow> acts" where
  "stop_waits N [] = []"
| "stop_waits N (w # ws) =
     (if ws_open N (wk_tx w)
      then (case wk_thread w of None \<Rightarrow> [] | Some th \<Rightarrow> Await (Exit th) # stop_waits N ws)
      else [])"

definition stop_locks :: "net \<Rightarrow> worker list \<Rightarrow> acts" where
  "stop_locks N ws = locked Sockets (stop_waits N ws)"

text \<open>
  The wait loop of \<open>reconnect\<close>, for as many rounds as the clock allows, and \<open>reconnect\<close> itself; the
  connection, when it comes up, is the worker with its new channel and thread, and the rounds.
  The results are the waits, the next channel, and whether it returns.
\<close>

fun wait_locks :: "net \<Rightarrow> worker \<Rightarrow> nat \<Rightarrow> chan \<Rightarrow> acts \<times> chan \<times> bool" where
  "wait_locks N w 0 c = ([], c, True)"
| "wait_locks N w (Suc rounds) c =
     (case status_locks N w c of
        (p, None, c1) \<Rightarrow> (p, c1, False)
      | (p, Some True, c1) \<Rightarrow> (p, c1, True)
      | (p, Some False, c1) \<Rightarrow> (case wait_locks N w rounds c1 of (q, r) \<Rightarrow> (p @ q, r)))"

definition reconnect_locks :: "net \<Rightarrow> (worker \<times> nat) option \<Rightarrow> worker \<Rightarrow> chan \<Rightarrow> acts \<times> chan \<times> bool" where
  "reconnect_locks N conn w c =
     (case status_locks N w c of
        (p, None, c1) \<Rightarrow> (p, c1, False)
      | (p, Some True, c1) \<Rightarrow> (p, c1, True)
      | (p, Some False, c1) \<Rightarrow>
          (case conn of
             None \<Rightarrow> (p, c1, True)
           | Some (w2, rounds) \<Rightarrow> (case wait_locks N w2 rounds (Suc c1) of (q, r) \<Rightarrow> (p @ q, r))))"

fun sentinel_waits :: "net \<Rightarrow> (worker \<times> (worker \<times> nat) option) list \<Rightarrow> chan \<Rightarrow> acts" where
  "sentinel_waits N [] c = []"
| "sentinel_waits N ((w, conn) # ws) c =
     (let pinged = ws_open N (wk_tx w);
          p = (if pinged then [Await (Reply c)] else [])
      in if pinged \<and> ping_reply N c = Some Pong then p @ sentinel_waits N ws (Suc c)
         else (case reconnect_locks N conn w (Suc c) of
                 (q, c1, ok) \<Rightarrow> p @ q @ (if ok then sentinel_waits N ws c1 else [])))"

definition sentinel_locks :: "net \<Rightarrow> (worker \<times> (worker \<times> nat) option) list \<Rightarrow> chan \<Rightarrow> acts" where
  "sentinel_locks N ws c = locked Sockets (sentinel_waits N ws c)"

text \<open>
  \<open>start_connection\<close>: the status check of the log line, made when that level is logged, comes before
  the lock.
\<close>

definition start_connection_locks :: "bool \<Rightarrow> net \<Rightarrow> worker \<Rightarrow> chan \<Rightarrow> acts" where
  "start_connection_locks info N w c =
     (if info
      then (case status_locks N w c of (p, b, c1) \<Rightarrow> p @ (if b = None then [] else locked Sockets []))
      else locked Sockets [])"

section \<open>Socket threads\<close>

fun reply_locks :: "rpc_reply \<Rightarrow> acts" where
  "reply_locks (Subscription i result) = locked Subscriptions []"
| "reply_locks _ = []"

fun read_locks :: "rpc_lib \<Rightarrow> ws_message list \<Rightarrow> acts" where
  "read_locks L [] = []"
| "read_locks L (msg # msgs) =
     (case handle_message L msg of
        Panic \<Rightarrow> []
      | Ret (Inl _) \<Rightarrow> read_locks L msgs
      | Ret (Inr rpc_result) \<Rightarrow> locked Pending (concat (map reply_locks rpc_result)) @ read_locks L msgs)"

fun request_signals :: "socket_request \<Rightarrow> acts" where
  "request_signals (Ping ping_tx) = [Settle (Reply ping_tx)]"
| "request_signals (ConnectedStatus status_tx) = [Settle (Reply status_tx)]"
| "request_signals _ = []"

text \<open>
  One poll: the requests the write half takes, and the messages the read half hears unless
  the write half has ended. When the thread ends its queue is dropped with the channels in it.
\<close>

definition poll_locks :: "rpc_lib \<Rightarrow> socket_request list \<times> ws_message list \<Rightarrow> acts" where
  "poll_locks L poll =
     (case poll of (taken, msgs) \<Rightarrow>
        concat (map request_signals taken) @ (if Stop \<in> set taken then [] else read_locks L msgs))"

definition end_locks :: "socket_request list \<Rightarrow> nat \<Rightarrow> acts" where
  "end_locks left th = concat (map request_signals left) @ [Settle (Exit th)]"

section \<open>Programs\<close>

datatype operation =
    Requesting rpc_lib net usize string "json list" "worker list"
  | Batching rpc_lib net "rpc_call list" "worker list"
  | Subscribed
  | Sweeping int "(int \<times> usize list) list" "usize list"
  | Checking net "worker list" chan
  | Stopping net "worker list"
  | Guarding net "(worker \<times> (worker \<times> nat) option) list" chan
  | Starting bool net worker chan
  | Dropping

fun operation_locks :: "operation \<Rightarrow> acts" where
  "operation_locks (Requesting L N i mth ps found) = request_locks L N i mth ps found"
| "operation_locks (Batching L N calls found) = batch_locks L N calls found"
| "operation_locks Subscribed = add_subscription_locks"
| "operation_locks (Sweeping sec bs removed) = sweep_locks sec bs removed"
| "operation_locks (Checking N ws c) = is_connected_locks N ws c"
| "operation_locks (Stopping N ws) = stop_locks N ws"
| "operation_locks (Guarding N ws c) = sentinel_locks N ws c"
| "operation_locks (Starting info N w c) = start_connection_locks info N w c"
| "operation_locks Dropping = drop_locks"

text \<open>
  A thread of the program: a user, the timeout thread or the sentinel with its operations, or a
  socket thread with its polls, and what is left in its queue if it ends. A socket thread
  never waits for a particular request: it takes what is there.
\<close>

datatype program_thread =
    Caller "operation list"
  | Socket rpc_lib "(socket_request list \<times> ws_message list) list" "(socket_request list \<times> nat) option"

fun thread_locks :: "program_thread \<Rightarrow> acts" where
  "thread_locks (Caller ops) = concat (map operation_locks ops)"
| "thread_locks (Socket L polls ended) =
     concat (map (poll_locks L) polls) @ (case ended of None \<Rightarrow> [] | Some (left, th) \<Rightarrow> end_locks left th)"

section \<open>Every operation keeps the order\<close>

lemma keeps_append: "keeps H p \<Longrightarrow> keeps H q \<Longrightarrow> keeps H (p @ q)"
  by (simp add: guarded_append)

lemma keeps_concat: "(\<And>p. p \<in> set ps \<Longrightarrow> keeps H p) \<Longrightarrow> keeps H (concat ps)"
  by (induction ps) (auto simp: guarded_append)

lemma keeps_locked:
  assumes "\<forall>y \<in> H. mutex_rank y < mutex_rank x" and "keeps (insert x H) p"
  shows "keeps H (locked x p)"
proof -
  have "x \<notin> H" using assms(1) by blast
  with assms show ?thesis by (simp add: locked_def guarded_append)
qed

lemmas keeps_intros = keeps_append keeps_concat keeps_locked

lemma keeps_send: "keeps {} (send_locks L N msg found)"
proof -
  have "keeps {} (http_locks L N m)" for m
    by (auto simp: http_locks_def intro!: keeps_intros split: sum.split)
  then show ?thesis by (auto simp: send_locks_def intro!: keeps_intros split: list.split)
qed

lemma keeps_sweep: "keeps {} (sweep_locks sec bs removed)"
  unfolding sweep_locks_def by (intro keeps_intros) (auto intro!: keeps_intros split: if_splits)

lemma keeps_status: "H \<subseteq> {Sockets} \<Longrightarrow> keeps H (fst (status_locks N w c))"
  by (auto simp: status_locks_def)

lemma keeps_any: "keeps {Sockets} (any_locks N ws c)"
proof (induction ws arbitrary: c)
  case Nil
  then show ?case by simp
next
  case (Cons w ws)
  with keeps_status [of "{Sockets}" N w c] show ?case
    by (auto intro!: keeps_append split: prod.split)
qed

lemma keeps_stop: "keeps {Sockets} (stop_waits N ws)"
  by (induction ws) (auto split: option.split)

lemma keeps_wait: "keeps {Sockets} (fst (wait_locks N w rounds c))"
proof (induction rounds arbitrary: c)
  case 0
  then show ?case by simp
next
  case (Suc rounds)
  obtain p b c1 where st: "status_locks N w c = (p, b, c1)" by (metis surj_pair)
  obtain q r where w: "wait_locks N w rounds c1 = (q, r)" by (metis surj_pair)
  from keeps_status [of "{Sockets}" N w c] Suc [of c1] show ?case
    by (cases b) (auto simp: st w keeps_append split: bool.split)
qed

lemma keeps_reconnect: "keeps {Sockets} (fst (reconnect_locks N conn w c))"
proof -
  obtain p b c1 where st: "status_locks N w c = (p, b, c1)" by (metis surj_pair)
  have p: "keeps {Sockets} p" using keeps_status [of "{Sockets}" N w c] by (simp add: st)
  have "keeps {Sockets} (p @ fst (wait_locks N w2 n (Suc c1)))" for w2 n
    by (intro keeps_append p keeps_wait)
  with p show ?thesis
    by (cases b) (auto simp: reconnect_locks_def st case_prod_beta split: bool.split option.split)
qed

lemma keeps_sentinel: "keeps {Sockets} (sentinel_waits N ws c)"
proof (induction N ws c rule: sentinel_waits.induct)
  case (2 N w conn ws c)
  with keeps_reconnect [of N conn w "Suc c"] show ?case
    by (auto simp: Let_def intro!: keeps_append split: prod.split)
qed simp

lemma keeps_reads: "keeps {} (read_locks L msgs)"
proof (induction msgs)
  case Nil
  then show ?case by simp
next
  case (Cons msg msgs)
  have "keeps {Pending} (reply_locks r)" for r
    by (cases r) (auto intro!: keeps_intros)
  with Cons show ?case
    by (auto intro!: keeps_intros split: outcome.split sum.split)
qed

lemma keeps_operation: "keeps {} (operation_locks op)"
proof (cases op)
  case (Starting info N w c)
  with keeps_status [of "{}" N w c] show ?thesis
    by (auto simp: start_connection_locks_def intro!: keeps_intros split: prod.split)
qed (auto simp: request_locks_def batch_locks_def add_subscription_locks_def is_connected_locks_def
    stop_locks_def sentinel_locks_def drop_locks_def
    intro!: keeps_intros keeps_send keeps_sweep keeps_any keeps_stop keeps_sentinel)

lemma keeps_signals: "keeps {} (concat (map request_signals reqs))"
proof (rule keeps_concat)
  fix p
  assume "p \<in> set (map request_signals reqs)"
  then obtain r where "p = request_signals r" by auto
  then show "keeps {} p" by (cases r) simp_all
qed

lemma keeps_thread: "keeps {} (thread_locks th)"
proof (cases th)
  case (Caller ops)
  then show ?thesis by (auto intro!: keeps_concat keeps_operation)
next
  case (Socket L polls ended)
  have "keeps {} (poll_locks L p)" for p
    by (auto simp: poll_locks_def intro!: keeps_append keeps_signals keeps_reads split: prod.split)
  moreover have "keeps {} (end_locks left n)" for left n
    using keeps_signals by (auto simp: end_locks_def intro!: keeps_append)
  ultimately show ?thesis
    by (auto simp: Socket intro!: keeps_append keeps_concat split: option.split prod.split)
qed

section \<open>Who waits for whom\<close>

text \<open>No caller sends a signal; no socket thread takes the queue of workers or waits for a signal.\<close>

fun caller_action :: "(mutex, signal) action \<Rightarrow> bool" where
  "caller_action (Settle g) = False"
| "caller_action _ = True"

fun socket_action :: "(mutex, signal) action \<Rightarrow> bool" where
  "socket_action (Acquire x) = (x \<noteq> Sockets)"
| "socket_action (Await g) = False"
| "socket_action _ = True"

lemma locked_actions [simp]:
  "list_all caller_action (locked x p) = list_all caller_action p"
  "list_all socket_action (locked x p) = (x \<noteq> Sockets \<and> list_all socket_action p)"
  by (auto simp: locked_def)

lemma list_all_concat_map: "list_all P (concat (map f xs)) = list_all (\<lambda>x. list_all P (f x)) xs"
  by (induction xs) simp_all

lemma caller_send [simp]: "list_all caller_action (send_locks L N msg found)"
  by (auto simp: send_locks_def http_locks_def split: list.split sum.split)

lemma caller_sweep [simp]: "list_all caller_action (sweep_locks sec bs removed)"
  by (auto simp: sweep_locks_def list_all_concat_map list_all_iff [of _ bs])
    (auto simp: list_all_iff locked_def)

lemma caller_status: "list_all caller_action (fst (status_locks N w c))"
  by (simp add: status_locks_def)

lemma caller_any [simp]: "list_all caller_action (any_locks N ws c)"
proof (induction ws arbitrary: c)
  case (Cons w ws)
  with caller_status [of N w c] show ?case by (auto split: prod.split)
qed simp

lemma caller_stop [simp]: "list_all caller_action (stop_waits N ws)"
  by (induction ws) (auto split: option.split)

lemma caller_wait: "list_all caller_action (fst (wait_locks N w rounds c))"
proof (induction rounds arbitrary: c)
  case (Suc rounds)
  obtain p b c1 where st: "status_locks N w c = (p, b, c1)" by (metis surj_pair)
  with caller_status [of N w c] Suc [of c1] show ?case
    by (cases b) (auto simp: case_prod_beta split: bool.split)
qed simp

lemma caller_reconnect: "list_all caller_action (fst (reconnect_locks N conn w c))"
proof -
  obtain p b c1 where st: "status_locks N w c = (p, b, c1)" by (metis surj_pair)
  with caller_status [of N w c] caller_wait show ?thesis
    by (cases b) (auto simp: reconnect_locks_def case_prod_beta split: bool.split option.split)
qed

lemma caller_sentinel [simp]: "list_all caller_action (sentinel_waits N ws c)"
proof (induction N ws c rule: sentinel_waits.induct)
  case (2 N w conn ws c)
  with caller_reconnect [of N conn w "Suc c"] show ?case by (auto simp: Let_def split: prod.split)
qed simp

lemma caller_operation: "list_all caller_action (operation_locks op)"
proof (cases op)
  case (Starting info N w c)
  with caller_status [of N w c] show ?thesis
    by (auto simp: start_connection_locks_def split: prod.split)
qed (auto simp: request_locks_def batch_locks_def add_subscription_locks_def is_connected_locks_def
    stop_locks_def sentinel_locks_def drop_locks_def)

lemma socket_signals [simp]: "list_all socket_action (request_signals r)"
  by (cases r) simp_all

lemma socket_reply [simp]: "list_all socket_action (reply_locks r)"
  by (cases r) simp_all

lemma socket_reads [simp]: "list_all socket_action (read_locks L msgs)"
  by (induction msgs) (auto simp: list_all_concat_map list.pred_True split: outcome.split sum.split)

lemma serving_thread: "serving Sockets (thread_locks th)"
proof (cases th)
  case (Caller ops)
  then have "list_all caller_action (thread_locks th)"
    by (simp add: list_all_concat_map caller_operation list.pred_True)
  then show ?thesis by (fastforce simp: serving_def list_all_iff)
next
  case (Socket L polls ended)
  then have "list_all socket_action (thread_locks th)"
    by (auto simp: list_all_concat_map poll_locks_def end_locks_def list.pred_True case_prod_beta
        split: option.split)
  then show ?thesis by (fastforce simp: serving_def list_all_iff)
qed

section \<open>Properties\<close>

text \<open>
  C12: The program does not deadlock. Take any number of threads that share a client: users with
  any sequence of requests, batches, subscriptions, status checks, stops and drops, the timeout
  thread and the sentinel with any number of passes, and socket threads that answer every
  status and ping channel somebody waits for and end when somebody joins them, as long as they
  get to run. Whatever the order in which the threads run, as long as one of them has something
  left to do some thread can go on; so the program comes to its end after exactly as many turns
  as its threads have actions, and then no lock is held.
\<close>

theorem no_deadlock:
  assumes "promised (map thread_locks ths)" and "(turn_of ^^ k) (machine_of (map thread_locks ths)) m"
  shows "k \<le> length (concat (map thread_locks ths)) \<and>
    (k < length (concat (map thread_locks ths)) \<longrightarrow> (\<exists>m'. turn_of m m')) \<and>
    (k = length (concat (map thread_locks ths)) \<longrightarrow> (\<forall>i. todo m i = [] \<and> holds m i = {}))"
  by (rule mutexes.runs_to_the_end [OF assms(1) _ assms(2)]) (auto simp: keeps_thread serving_thread)

theorem no_deadlock_witness:
  "let L = demo_lib (RespSingle (OutSuccess \<lparr>success_result = JNull, success_id = IdNum 1\<rparr>));
       ps = map thread_locks
         [Caller [Guarding demo_net [(demo_worker, None)] 7], Caller [Sweeping 120 [(100, [1])] [1]],
          Caller [Requesting L demo_net 1 ''eth_gasPrice'' [] [demo_worker], Stopping demo_net [demo_worker]],
          Socket L [([Text ''a'', Ping 7], [MsgText ''reply'']), ([Stop], [])] (Some ([], 0))] in
   promised ps \<and>
   (\<forall>m. (turn_of ^^ 23) (machine_of ps) m \<longrightarrow> (\<exists>m'. turn_of m m')) \<and>
   (\<forall>m. (turn_of ^^ 24) (machine_of ps) m \<longrightarrow> (\<forall>i. todo m i = []))"
proof -
  define L where "L = demo_lib (RespSingle (OutSuccess \<lparr>success_result = JNull, success_id = IdNum 1\<rparr>))"
  define ths where "ths =
    [Caller [Guarding demo_net [(demo_worker, None)] 7], Caller [Sweeping 120 [(100, [1])] [1]],
     Caller [Requesting L demo_net 1 ''eth_gasPrice'' [] [demo_worker], Stopping demo_net [demo_worker]],
     Socket L [([Text ''a'', Ping 7], [MsgText ''reply'']), ([Stop], [])] (Some ([], 0))]"
  define ps where "ps = map thread_locks ths"
  have ps: "ps =
    [[Acquire Sockets, Await (Reply 7), Release Sockets],
     [Acquire Timestamps, Acquire Pending, Release Pending, Release Timestamps, Acquire Timestamps, Release Timestamps],
     [Acquire Pending, Release Pending, Acquire Timestamps, Release Timestamps, Acquire Sockets, Release Sockets,
      Acquire Sockets, Release Sockets, Acquire Sockets, Await (Exit 0), Release Sockets],
     [Settle (Reply 7), Acquire Pending, Release Pending, Settle (Exit 0)]]"
    by (simp add: ps_def ths_def sentinel_locks_def sweep_locks_def request_locks_def send_locks_def stop_locks_def
        poll_locks_def end_locks_def locked_def demo_net_def demo_worker_def L_def handle_text_message_def
        handle_success_def)
  have prom: "promised (map thread_locks ths)" unfolding ps_def [symmetric] ps by (simp add: promised_def)
  have len: "length (concat (map thread_locks ths)) = 24" unfolding ps_def [symmetric] ps by simp
  from no_deadlock [OF prom] prom show ?thesis
    unfolding len Let_def L_def [symmetric] ths_def [symmetric] by auto
qed

end
