(* ===== verification/Send_Race.thy ===== *)
theory Send_Race
  imports Socket_Worker "HOL-Library.Multiset"
begin

text \<open>
  \<open>Client::send\<close> is not one critical section: the worker at the front is taken out of the queue
  under one lock, the message is handed to it, and it is put back under another (\<open>src/client/mod.rs\<close>).
  Between the two the worker is in the hands of the sending thread and nobody else finds it.
  Here \<open>send\<close> is cut at that point, and any number of threads interleave their halves.
\<close>

section \<open>The two halves of send\<close>

definition take_worker :: "sys \<Rightarrow> worker option \<times> sys" where
  "take_worker s =
     (case sockets s of [] \<Rightarrow> (None, s) | w # rest \<Rightarrow> (Some w, s\<lparr>sockets := rest\<rparr>))"

definition hand_over ::
  "rpc_lib \<Rightarrow> net \<Rightarrow> socket_request \<Rightarrow> worker option \<Rightarrow> sys \<Rightarrow> unit rslt \<times> sys" where
  "hand_over L N msg found s =
     (case found of
        Some w \<Rightarrow>
          (case send_request N w msg s of
             Inr s1 \<Rightarrow> (Inr (), s1\<lparr>sockets := sockets s1 @ [w]\<rparr>)
           | Inl (Text t) \<Rightarrow> send_http L N t s
           | Inl _ \<Rightarrow> (Inr (), s))
      | None \<Rightarrow> (case msg of Text t \<Rightarrow> send_http L N t s | _ \<Rightarrow> (Inr (), s)))"

lemma send_halves: "send L N msg s = (case take_worker s of (found, s1) \<Rightarrow> hand_over L N msg found s1)"
  by (simp add: send_def take_worker_def hand_over_def Let_def split: list.split)

section \<open>Many threads\<close>

text \<open>The client, and the threads between their halves with what they have found.\<close>

type_synonym senders = "sys \<times> (nat \<times> worker option) list"

inductive sender_step :: "nat set \<Rightarrow> rpc_lib \<Rightarrow> net \<Rightarrow> senders \<Rightarrow> senders \<Rightarrow> bool"
  for T :: "nat set" and L :: rpc_lib and N :: net where
  sender_takes: "th \<in> T \<Longrightarrow> th \<notin> fst ` set hs \<Longrightarrow> take_worker s = (found, t) \<Longrightarrow>
    sender_step T L N (s, hs) (t, hs @ [(th, found)])"
| sender_hands: "hand_over L N msg found s = (r, t) \<Longrightarrow>
    sender_step T L N (s, xs @ (th, found) # ys) (t, xs @ ys)"
| sender_other: "client_step s t \<Longrightarrow> sockets t = sockets s \<Longrightarrow> posted (trace t) = posted (trace s) \<Longrightarrow>
    sender_step T L N (s, hs) (t, hs)"

abbreviation sender_steps :: "nat set \<Rightarrow> rpc_lib \<Rightarrow> net \<Rightarrow> senders \<Rightarrow> senders \<Rightarrow> bool" where
  "sender_steps T L N \<equiv> (sender_step T L N)\<^sup>*\<^sup>*"

definition in_hands :: "(nat \<times> worker option) list \<Rightarrow> worker list" where
  "in_hands hs = List.map_filter snd hs"

lemma in_hands_simps [simp]:
  "in_hands [] = []" "in_hands (xs @ ys) = in_hands xs @ in_hands ys"
  "in_hands ((th, found) # hs) = (case found of None \<Rightarrow> in_hands hs | Some w \<Rightarrow> w # in_hands hs)"
  by (simp_all add: in_hands_def List.map_filter_def split: option.split)

text \<open>No worker is lost or doubled; with enough workers nobody comes away empty-handed.\<close>

definition sender_inv :: "nat set \<Rightarrow> worker list \<Rightarrow> string list \<Rightarrow> senders \<Rightarrow> bool" where
  "sender_inv T ws sent x \<longleftrightarrow>
     (case x of (s, hs) \<Rightarrow>
        mset (sockets s) + mset (in_hands hs) = mset ws \<and>
        distinct (map fst hs) \<and> fst ` set hs \<subseteq> T \<and>
        (card T \<le> length ws \<longrightarrow> (\<forall>h \<in> set hs. snd h \<noteq> None) \<and> posted (trace s) = sent))"

lemma in_hands_length: "length (in_hands hs) \<le> length hs"
  by (simp add: in_hands_def List.map_filter_def)

lemma sender_inv_takes:
  assumes inv: "sender_inv T ws sent (s, hs)" and fin: "finite T"
    and th: "th \<in> T" "th \<notin> fst ` set hs" and take: "take_worker s = (found, t)"
  shows "sender_inv T ws sent (t, hs @ [(th, found)])"
proof -
  have few: "length hs < card T"
  proof -
    have "length hs = card (fst ` set hs)"
      using inv distinct_card [of "map fst hs"] by (simp add: sender_inv_def)
    also have "\<dots> < card T"
      using inv fin th by (intro psubset_card_mono) (auto simp: sender_inv_def)
    finally show ?thesis .
  qed
  have "sockets s \<noteq> []" if "card T \<le> length ws"
  proof
    assume "sockets s = []"
    then have "mset (in_hands hs) = mset ws" using inv by (simp add: sender_inv_def)
    then have "length (in_hands hs) = length ws" by (metis size_mset)
    with in_hands_length [of hs] few that show False by linarith
  qed
  with inv th take show ?thesis
    by (cases "sockets s") (auto simp: sender_inv_def take_worker_def)
qed

lemma sender_inv_hands:
  assumes inv: "sender_inv T ws sent (s, xs @ (th, found) # ys)"
    and hand: "hand_over L N msg found s = (r, t)" and "\<And>w. w \<in> set ws \<Longrightarrow> ws_open N (wk_tx w)"
  shows "sender_inv T ws sent (t, xs @ ys)"
proof (cases found)
  case None
  have "t = s \<or> (\<exists>m. t = snd (send_http L N m s))"
    using hand by (auto simp: None hand_over_def split: socket_request.splits) (metis snd_conv)+
  then have "sockets t = sockets s" by auto
  with inv show ?thesis by (auto simp: sender_inv_def None)
next
  case (Some w)
  have eq: "mset ws = mset (sockets s) + mset (in_hands (xs @ (th, found) # ys))"
    using inv by (simp add: sender_inv_def)
  have "w \<in># mset ws" unfolding eq by (simp add: Some)
  then have "w \<in> set ws" by simp
  with assms(3) hand have "t = s\<lparr>sockets := sockets s @ [w], trace := trace s @ [Queue (wk_tx w) msg]\<rparr>"
    by (auto simp: Some hand_over_def send_request_def log_def)
  with inv show ?thesis by (auto simp: sender_inv_def Some)
qed

lemma sender_inv_steps:
  assumes "sender_steps T L N x y" and "sender_inv T ws sent x"
    and fin: "finite T" and accepts: "\<And>w. w \<in> set ws \<Longrightarrow> ws_open N (wk_tx w)"
  shows "sender_inv T ws sent y"
  using assms(1,2)
proof (induction rule: rtranclp_induct)
  case (step y z)
  then have inv: "sender_inv T ws sent y" by blast
  from step.hyps(2) show ?case
  proof (cases rule: sender_step.cases)
    case (sender_takes th hs s found t)
    with sender_inv_takes [OF inv [unfolded sender_takes(1)] fin] show ?thesis by blast
  next
    case (sender_hands msg found s r t xs th ys)
    with sender_inv_hands [OF inv [unfolded sender_hands(1)] _ accepts] show ?thesis by blast
  next
    case (sender_other s t hs)
    with inv show ?thesis by (simp add: sender_inv_def)
  qed
qed

text \<open>As many threads as there are workers, each with a worker in its hands.\<close>

lemma all_taken:
  "distinct (ths @ map fst hs) \<Longrightarrow> set ths \<subseteq> T \<Longrightarrow> length ths = length (sockets s) \<Longrightarrow>
    sender_steps T L N (s, hs) (s\<lparr>sockets := []\<rparr>, hs @ zip ths (map Some (sockets s)))"
proof (induction ths arbitrary: s hs)
  case Nil
  then have eq: "s\<lparr>sockets := []\<rparr> = s" by (cases s) simp
  show ?case unfolding eq by simp
next
  case (Cons th ths)
  then obtain w rest where w: "sockets s = w # rest" by (cases "sockets s") auto
  let ?s1 = "s\<lparr>sockets := rest\<rparr>"
  have "sender_step T L N (s, hs) (?s1, hs @ [(th, Some w)])"
    using Cons.prems by (intro sender_takes) (auto simp: take_worker_def w)
  moreover have "sender_steps T L N (?s1, hs @ [(th, Some w)])
      (?s1\<lparr>sockets := []\<rparr>, (hs @ [(th, Some w)]) @ zip ths (map Some (sockets ?s1)))"
    using Cons.prems by (intro Cons.IH) (auto simp: w)
  ultimately show ?case by (auto simp: w intro: converse_rtranclp_into_rtranclp)
qed

lemma one_too_many:
  assumes "finite T" and "length (sockets s) < card T"
  shows "\<exists>t hs. sender_steps T L N (s, []) (t, hs) \<and> posted (trace t) = posted (trace s) @ [m]"
proof -
  obtain us where us: "set us = T" "distinct us" using assms(1) finite_distinct_list by blast
  then have "length us = card T" using distinct_card by fastforce
  then obtain ths th vs where split: "us = ths @ th # vs" "length ths = length (sockets s)"
    using assms(2) by (metis Cons_nth_drop_Suc append_take_drop_id length_take min.absorb4)
  let ?t = "s\<lparr>sockets := []\<rparr>" and ?hs = "zip ths (map Some (sockets s))"
  have "sender_steps T L N (s, []) (?t, ?hs)"
    using all_taken [of ths "[]" T s L N] us split by auto
  also have "sender_step T L N (?t, ?hs) (?t, ?hs @ [(th, None)])"
    using us split by (intro sender_takes) (auto simp: take_worker_def dest: set_zip_leftD)
  also have "sender_step T L N (?t, ?hs @ th_none # []) (snd (send_http L N m ?t), ?hs @ [])"
    if "th_none = (th, None)" for th_none
    unfolding that by (intro sender_hands [of L N "Text m" None _ "fst (send_http L N m ?t)"]) (simp add: hand_over_def)
  finally have "sender_steps T L N (s, []) (snd (send_http L N m ?t), ?hs)" by simp
  then show ?thesis using posted_send_http [of L N m ?t] by fastforce
qed

section \<open>Properties\<close>

text \<open>
  C22: Threads share the workers. Let any threads of a group send any messages at the same time,
  each cut in two between taking a worker and putting it back, among everything else that goes
  on, while all channels accept messages. No worker is ever lost or doubled: each is in the
  queue or in the hands of one thread. If the group is no larger than the queue, nothing is
  ever posted over HTTP; if it is larger by one, there is a run in which a message is posted
  over HTTP, to the one fixed address, although every socket is open.
\<close>

theorem senders_share_workers:
  assumes "finite T" and "\<And>w. w \<in> set (sockets s0) \<Longrightarrow> ws_open N (wk_tx w)"
    and "sender_steps T L N (s0, []) (s, hs)"
  shows "mset (sockets s) + mset (in_hands hs) = mset (sockets s0) \<and>
    (card T \<le> length (sockets s0) \<longrightarrow> posted (trace s) = posted (trace s0)) \<and>
    (length (sockets s0) < card T \<longrightarrow>
      (\<exists>t hs'. sender_steps T L N (s0, []) (t, hs') \<and> posted (trace t) = posted (trace s0) @ [m]))"
proof -
  have "sender_inv T (sockets s0) (posted (trace s0)) (s0, [])" by (simp add: sender_inv_def)
  from sender_inv_steps [OF assms(3) this assms(1,2)] one_too_many [OF assms(1)] show ?thesis
    by (auto simp: sender_inv_def)
qed

theorem senders_share_workers_witness:
  "sockets demo_sys = [demo_worker] \<and> ws_open demo_net (wk_tx demo_worker) \<and>
   (\<exists>t hs. sender_steps {1, 2} (demo_lib (RespBatch [])) demo_net (demo_sys, []) (t, hs) \<and> posted (trace t) = [''call''])"
proof -
  have "length (sockets demo_sys) < card {1 :: nat, 2}" by (simp add: demo_sys_def)
  with senders_share_workers [of "{1, 2}" demo_sys demo_net "demo_lib (RespBatch [])" demo_sys "[]" "''call''"]
  show ?thesis by (simp add: demo_net_def demo_sys_def)
qed

end
