(* ===== verification/Example_Programs.thy ===== *)
theory Example_Programs
  imports Yum_Api Block_Progress
begin

text \<open>
  The programs of \<open>examples/\<close> that do more than print one answer: \<open>streaming.rs\<close>, \<open>block_check.rs\<close> and
  \<open>streaming_benchmark.rs\<close> read a stream of blocks to its end and count, and \<open>bench.rs\<close> makes many
  requests and waits on a counter until all are done. They show what the promises of the
  library are worth to a caller.
\<close>

section \<open>Reading a stream of blocks\<close>

text \<open>
  \<open>for_each(..).wait()\<close> (and \<open>fold\<close>): the stream is polled until it ends or fails, and the closure is
  called for every block. Each poll has its own input, since the rest of the program goes on.
  The first component is missing when the polls given are too few; \<open>n\<close> counts the calls.
\<close>

fun read_blocks ::
  "(json \<Rightarrow> string + 'b option) \<Rightarrow> ('b \<Rightarrow> u256 option) \<Rightarrow> block_input list \<Rightarrow> 'b block_stream \<Rightarrow> nat \<Rightarrow>
     (unit rslt option \<times> nat) outcome" where
  "read_blocks bd num [] st n = Ret (None, n)"
| "read_blocks bd num ((E, clk, t, w, s) # ins) st n =
     obind (bs_poll E bd num clk t w st s) (\<lambda>(r, st', _).
       (case r of
          Inl e \<Rightarrow> Ret (Some (Inl e), n)
        | Inr (Ready None) \<Rightarrow> Ret (Some (Inr ()), n)
        | Inr (Ready (Some block)) \<Rightarrow> read_blocks bd num ins st' (Suc n)
        | Inr NotReady \<Rightarrow> read_blocks bd num ins st' n))"

text \<open>\<open>streaming.rs\<close>, from the stream to the number it prints.\<close>

definition streaming_main ::
  "(json \<Rightarrow> string + 'b option) \<Rightarrow> ('b \<Rightarrow> u256 option) \<Rightarrow> block_input list \<Rightarrow> (unit rslt option \<times> nat) outcome" where
  "streaming_main bd num ins = read_blocks bd num ins (get_block_stream 5000000 5000250 False) 0"

text \<open>
  \<open>block_check.rs\<close>, once the latest block is known: the length of the progress bar, what comes of
  the stream, and how often the bar was moved.
\<close>

definition block_check_main ::
  "bool \<Rightarrow> (json \<Rightarrow> string + 'b option) \<Rightarrow> ('b \<Rightarrow> u256 option) \<Rightarrow> block_input list \<Rightarrow> u64 \<Rightarrow>
     (u64 \<times> unit rslt option \<times> nat) outcome" where
  "block_check_main chk bd num ins latest_block =
     obind (checked_minus chk latest_block 3154196) (\<lambda>whole.
       obind (read_blocks bd num ins (get_block_stream 3154196 latest_block False) 0)
         (\<lambda>(r, n). Ret (whole, r, n)))"

text \<open>
  \<open>streaming_benchmark.rs\<close>: the counter is an atomic \<open>usize\<close> that the thread which prints the
  progress loads; what it prints of it is the counter and \<open>remaining\<close> (the rates are left out).
\<close>

definition total_blocks :: "bool \<Rightarrow> u64 \<Rightarrow> u64 \<Rightarrow> u64 outcome" where
  "total_blocks chk first_block last_block = checked_minus chk last_block first_block"

definition progress_line :: "bool \<Rightarrow> u64 \<Rightarrow> usize \<Rightarrow> (u64 \<times> u64) outcome" where
  "progress_line chk whole blocks_processed =
     obind (checked_minus chk whole blocks_processed) (\<lambda>remaining. Ret (blocks_processed, remaining))"

definition benchmark_reader ::
  "(json \<Rightarrow> string + 'b option) \<Rightarrow> ('b \<Rightarrow> u256 option) \<Rightarrow> block_input list \<Rightarrow> u64 \<Rightarrow> u64 \<Rightarrow>
     (unit rslt option \<times> usize) outcome" where
  "benchmark_reader bd num ins first_block last_block =
     obind (read_blocks bd num ins (get_block_stream first_block last_block False) 0)
       (\<lambda>(r, n). Ret (r, word_of_nat n))"

section \<open>How many blocks a reader sees\<close>

lemma read_blocks_run:
  assumes "read_blocks bd num ins st (length ys) = Ret (r, m)"
    and "reach (block_start lo hi cap) (block_poll bd num) (ys, st)"
  shows "\<exists>ys' st'. reach (block_start lo hi cap) (block_poll bd num) (ys', st') \<and> m = length ys' \<and>
    (r = Some (Inr ()) \<longrightarrow> (\<exists>E clk t w s u s'. bs_poll E bd num clk t w st' s = Ret (Inr (Ready None), u, s')))"
  using assms
proof (induction ins arbitrary: st ys)
  case Nil
  then show ?case by auto
next
  case (Cons x ins)
  obtain E clk t w s where x: "x = (E, clk, t, w, s)" by (cases x)
  obtain q st' s' where poll: "bs_poll E bd num clk t w st s = Ret (q, st', s')"
    using Cons.prems(1) by (cases "bs_poll E bd num clk t w st s") (auto simp: x)
  consider (stop) e where "q = Inl e" | (ended) "q = Inr (Ready None)"
    | (more) b where "q = Inr (Ready (Some b))" | (quiet) "q = Inr NotReady"
    by (metis sum.exhaust async.exhaust option.exhaust)
  then show ?case
  proof cases
    case stop
    with Cons.prems poll show ?thesis by (auto simp: x)
  next
    case ended
    with Cons.prems(1) poll have "m = length ys" by (simp add: x)
    with Cons.prems(2) poll ended show ?thesis by blast
  next
    case (more b)
    have "reach (block_start lo hi cap) (block_poll bd num) (ys @ [b], st')"
      using Cons.prems(2) poll_yield [of E bd num] poll more by (blast intro: reach_step)
    with Cons.IH [of st' "ys @ [b]"] Cons.prems(1) poll more show ?thesis by (simp add: x)
  next
    case quiet
    have "reach (block_start lo hi cap) (block_poll bd num) (ys, st')"
      using Cons.prems(2) poll_quiet [of E bd num] poll quiet by (blast intro: reach_step)
    with Cons.IH [of st' ys] Cons.prems(1) poll quiet show ?thesis by (simp add: x)
  qed
qed

lemma card_word_range: "card {lo..hi :: 'w::len word} = Suc (unat hi) - unat lo"
proof -
  have "unat ` {lo..hi} = {unat lo..unat hi}"
  proof
    show "{unat lo..unat hi} \<subseteq> unat ` {lo..hi}"
    proof
      fix k
      assume k: "k \<in> {unat lo..unat hi}"
      then have "unat (word_of_nat k :: 'w word) = k" 
        using le_less_trans [OF _ unsigned_less [of hi], of k]
        by (simp add: unsigned_of_nat take_bit_nat_eq_self_iff)
      with k show "k \<in> unat ` {lo..hi}" by (intro image_eqI [of _ _ "word_of_nat k"]) (auto simp: word_le_nat_alt)
    qed
  qed (auto simp: word_le_nat_alt)
  then show ?thesis using card_image [of unat "{lo..hi}"] by (simp add: inj_on_def word_unat_eq_iff)
qed

lemma read_blocks_counts:
  assumes "lo \<le> hi" and "hi \<noteq> - 1"
    and "read_blocks bd num ins (get_block_stream lo hi tx) 0 = Ret (Some (Inr ()), n)"
  shows "unat (hi - lo) < n"
proof -
  have "unat (5 :: u64) * unat (10 :: u64) = 50" by simp
  then have "block_start lo hi 50 ([], get_block_stream lo hi tx)"
    using assms(1,2) unfolding block_start_def
    by (intro conjI exI [of _ tx] exI [of _ "10 :: u64"] exI [of _ "5 :: u64"])
      (simp_all add: get_block_stream_def block_stream_new_def block_stream_with_options_def)
  then have "reach (block_start lo hi 50) (block_poll bd num) ([], get_block_stream lo hi tx)" by (rule reach_start)
  from read_blocks_run [of bd num ins "get_block_stream lo hi tx" "[]", OF _ this] assms(3)
  obtain ys st E clk t w s u s' where ys: "reach (block_start lo hi 50) (block_poll bd num) (ys, st)" "n = length ys"
    "bs_poll E bd num clk t w st s = Ret (Inr (Ready None), u, s')"
    by auto
  let ?number = "\<lambda>b. the (map_option low_u64 (num b))"
  have "k \<in> ?number ` set ys" if "k \<in> {lo..hi}" for k
    using ended_complete [OF bstream.inv_reach [OF ys(1)] ys(3), of k] that by force
  then have "card {lo..hi} \<le> card (?number ` set ys)" by (intro card_mono) auto
  also have "\<dots> \<le> card (set ys)" by (rule card_image_le) simp
  finally have "card {lo..hi} \<le> card (set ys)" .
  with card_length [of ys] assms(1) show ?thesis
    by (simp add: card_word_range ys(2) word_le_nat_alt unat_sub)
qed

section \<open>The ticker of the benchmark\<close>

text \<open>
  \<open>Ticker\<close> of \<open>bench.rs\<close>: \<open>started\<close> counts the requests in flight, \<open>reqs\<close> those that are done. Both are
  atomic, so \<open>tick\<close> is two steps, between which the waiting thread can look.
\<close>

record ticker =
  tk_started :: usize
  tk_reqs :: usize

definition ticker_new :: ticker where
  "ticker_new = \<lparr>tk_started = 0, tk_reqs = 0\<rparr>"

definition ticker_start :: "ticker \<Rightarrow> ticker" where
  "ticker_start tk = tk\<lparr>tk_started := tk_started tk + 1\<rparr>"

definition tick_reqs :: "ticker \<Rightarrow> ticker" where
  "tick_reqs tk = tk\<lparr>tk_reqs := tk_reqs tk + 1\<rparr>"

definition tick_started :: "ticker \<Rightarrow> ticker" where
  "tick_started tk = tk\<lparr>tk_started := tk_started tk - 1\<rparr>"

text \<open>\<open>wait\<close> goes on once \<open>started\<close> is not above zero, and prints (and resets) the count.\<close>

definition ticker_wait :: "ticker \<Rightarrow> (usize \<times> ticker) option" where
  "ticker_wait tk = (if 0 < tk_started tk then None else Some (tk_reqs tk, tk\<lparr>tk_reqs := 0\<rparr>))"

text \<open>
  \<open>bench_ey\<close>: the main thread starts request after request up to \<open>goal\<close>; the pool runs the future
  of each, whose \<open>then\<close> ticks whatever the result is. Only then does the main thread wait.
\<close>

datatype job = Unborn | Flying | Counted | Over

inductive bench_step :: "nat \<Rightarrow> ticker \<times> nat \<times> (nat \<Rightarrow> job) \<Rightarrow> ticker \<times> nat \<times> (nat \<Rightarrow> job) \<Rightarrow> bool"
  for goal :: nat where
  bench_launch: "n < goal \<Longrightarrow> bench_step goal (tk, n, js) (ticker_start tk, Suc n, js(n := Flying))"
| bench_count: "js j = Flying \<Longrightarrow> bench_step goal (tk, n, js) (tick_reqs tk, n, js(j := Counted))"
| bench_over: "js j = Counted \<Longrightarrow> bench_step goal (tk, n, js) (tick_started tk, n, js(j := Over))"

definition bench_start :: "ticker \<times> nat \<times> (nat \<Rightarrow> job) \<Rightarrow> bool" where
  "bench_start x \<longleftrightarrow> x = (ticker_new, 0, \<lambda>_. Unborn)"

definition jobs_in :: "job set \<Rightarrow> (nat \<Rightarrow> job) \<Rightarrow> nat \<Rightarrow> nat set" where
  "jobs_in P js n = {j. j < n \<and> js j \<in> P}"

definition bench_inv :: "nat \<Rightarrow> ticker \<times> nat \<times> (nat \<Rightarrow> job) \<Rightarrow> bool" where
  "bench_inv goal x \<longleftrightarrow>
     (case x of (tk, n, js) \<Rightarrow>
        n \<le> goal \<and> (\<forall>j. js j = Unborn \<longleftrightarrow> n \<le> j) \<and>
        tk_started tk = word_of_nat (card (jobs_in {Flying, Counted} js n)) \<and>
        tk_reqs tk = word_of_nat (card (jobs_in {Counted, Over} js n)))"

lemma finite_jobs [simp]: "finite (jobs_in P js n)"
  by (simp add: jobs_in_def)

text \<open>A new job, and a job that moves on.\<close>

lemma jobs_launch: "jobs_in P (js(n := q)) (Suc n) = (if q \<in> P then insert n else id) (jobs_in P js n)"
  by (auto simp: jobs_in_def less_Suc_eq)

lemma jobs_move:
  "j < n \<Longrightarrow> jobs_in P (js(j := q)) n = (if q \<in> P then insert j (jobs_in P js n) else jobs_in P js n - {j})"
  by (auto simp: jobs_in_def)

lemma born_before: "bench_inv goal (tk, n, js) \<Longrightarrow> js j \<noteq> Unborn \<Longrightarrow> j < n"
  by (simp add: bench_inv_def flip: not_le)

interpretation bench: inductive_invariant bench_start "bench_step goal" "bench_inv goal"
proof (unfold_locales, goal_cases)
  case (1 x)
  then show ?case by (simp add: bench_start_def bench_inv_def ticker_new_def jobs_in_def)
next
  case (2 x y)
  from 2(2) show ?case
  proof (cases rule: bench_step.cases)
    case (bench_launch n tk js)
    have new: "n \<notin> jobs_in P js n" for P by (simp add: jobs_in_def)
    have c: "\<forall>j. js j = Unborn \<longleftrightarrow> n \<le> j" "tk_started tk = word_of_nat (card (jobs_in {Flying, Counted} js n))"
      "tk_reqs tk = word_of_nat (card (jobs_in {Counted, Over} js n))"
      using 2(1) bench_launch by (simp_all add: bench_inv_def)
    have "(js(n := Flying)) j = Unborn \<longleftrightarrow> Suc n \<le> j" for j
      using spec [OF c(1), of j] by (cases "j = n") auto
    then have "\<forall>j. (js(n := Flying)) j = Unborn \<longleftrightarrow> Suc n \<le> j" by blast
    moreover have "tk_started (ticker_start tk) = word_of_nat (card (jobs_in {Flying, Counted} (js(n := Flying)) (Suc n)))"
      unfolding jobs_launch by (simp add: ticker_start_def c(2) new)
    moreover have "tk_reqs (ticker_start tk) = word_of_nat (card (jobs_in {Counted, Over} (js(n := Flying)) (Suc n)))"
      unfolding jobs_launch by (simp add: ticker_start_def c(3))
    moreover have "Suc n \<le> goal" using bench_launch(3) by simp
    ultimately have "bench_inv goal (ticker_start tk, Suc n, js(n := Flying))"
      unfolding bench_inv_def prod.case by blast
    then show ?thesis using bench_launch(2) by simp
  next
    case (bench_count js j tk n)
    then have j: "j < n" using 2(1) born_before by simp
    have "j \<in> jobs_in {Flying, Counted} js n" "j \<notin> jobs_in {Counted, Over} js n"
      using j bench_count by (auto simp: jobs_in_def)
    with 2(1) bench_count j show ?thesis
      by (auto simp: bench_inv_def jobs_move tick_reqs_def insert_absorb)
  next
    case (bench_over js j tk n)
    then have j: "j < n" using 2(1) born_before by simp
    have mem: "j \<in> jobs_in {Flying, Counted} js n" "j \<in> jobs_in {Counted, Over} js n"
      using j bench_over by (auto simp: jobs_in_def)
    from card.remove [OF finite_jobs mem(1)] mem 2(1) bench_over j show ?thesis
      by (auto simp: bench_inv_def jobs_move tick_started_def insert_absorb)
  qed
qed

section \<open>Properties\<close>

text \<open>
  C37: The examples count past their total. Read the blocks from \<open>lo\<close> to \<open>hi\<close> (\<open>lo\<close> not above
  \<open>hi\<close>, \<open>hi\<close> below the largest \<open>u64\<close>) as the examples do, whatever the node, the clocks and the other threads do. If the stream ends without an error,
  the closure was called more often than \<open>hi - lo\<close> times, which the progress bar of
  \<open>block_check\<close> and the benchmark take for the number of blocks; so from then on the line of the
  benchmark that computes what remains panics with overflow checks, and prints a number of at
  least \<open>2 ^ 63\<close> otherwise (for counts below \<open>2 ^ 63\<close>).
\<close>

theorem examples_count_too_far:
  assumes "lo \<le> hi" and "hi \<noteq> - 1"
    and "read_blocks bd num ins (get_block_stream lo hi False) 0 = Ret (Some (Inr ()), n)"
    and "n < 2 ^ 63"
  shows "total_blocks chk lo hi = Ret (hi - lo) \<and> unat (hi - lo) < n \<and>
    benchmark_reader bd num ins lo hi = Ret (Some (Inr ()), word_of_nat n) \<and>
    progress_line True (hi - lo) (word_of_nat n) = Panic \<and>
    (\<exists>left. progress_line False (hi - lo) (word_of_nat n) = Ret (word_of_nat n, left) \<and> 2 ^ 63 \<le> unat left)"
proof -
  let ?n = "word_of_nat n :: u64"
  have n: "unat ?n = n" using assms(4) by (simp add: unsigned_of_nat take_bit_nat_eq_self_iff)
  have more: "unat (hi - lo) < n" by (rule read_blocks_counts [OF assms(1-3)])
  then have lt: "hi - lo < ?n" by (simp add: word_less_nat_alt n)
  have "unat (hi - lo - ?n) = unat (hi - lo) + 2 ^ 64 - n"
    using more by (simp add: unat_sub_if' n)
  then have "2 ^ 63 \<le> unat (hi - lo - ?n)" using assms(4) by simp
  with assms(1,3) lt more show ?thesis
    by (simp add: total_blocks_def benchmark_reader_def progress_line_def checked_minus_def not_less)
qed

theorem examples_count_too_far_witness:
  "\<exists>n. read_blocks demo_block Some (replicate 2 (demo_env, \<lambda>_. 0, 0, demo_answer, demo_sys))
      (get_block_stream 5 5 False) 0 = Ret (Some (Inr ()), n) \<and> progress_line True (5 - 5) (word_of_nat n) = Panic"
proof -
  let ?ins = "replicate 2 (demo_env, \<lambda>_. 0, 0, demo_answer, demo_sys) :: block_input list"
  have st: "get_block_stream 5 5 False = single_stream False"
    by (simp add: get_block_stream_def block_stream_new_def block_stream_with_options_def)
  have read: "read_blocks demo_block Some ?ins (get_block_stream 5 5 False) 0 = Ret (Some (Inr ()), 1)"
    using single_first_poll [of False] single_last_poll [of False] by (auto simp: numeral_2_eq_2 st)
  from examples_count_too_far [OF _ _ this] have "progress_line True (5 - 5) (word_of_nat 1) = Panic" by simp
  with read show ?thesis by blast
qed

text \<open>
  C30: The benchmark waits for all of its requests. Let the pool answer the requests in any order
  while the main thread still starts others. Once all \<open>goal\<close> requests have been started (fewer
  than \<open>2 ^ 64\<close>), the main thread goes on waiting exactly as long as some request has not ticked,
  and the number it prints is \<open>goal\<close>: the counter in flight never falls below zero, and no
  request is missed between the two halves of its tick.
\<close>

theorem ticker_waits_for_all:
  assumes "reach bench_start (bench_step goal) (tk, goal, js)" and "goal < 2 ^ 64"
  shows "(ticker_wait tk = None \<longleftrightarrow> (\<exists>j < goal. js j \<noteq> Over)) \<and>
    (\<forall>n tk'. ticker_wait tk = Some (n, tk') \<longrightarrow> unat n = goal)"
proof -
  have inv: "bench_inv goal (tk, goal, js)" by (rule bench.inv_reach [OF assms(1)])
  then have born: "js j \<noteq> Unborn" if "j < goal" for j using that by (auto simp: bench_inv_def)
  have "card (jobs_in P js goal) \<le> goal" for P
    using card_mono [of "{..<goal}" "jobs_in P js goal"] by (auto simp: jobs_in_def)
  then have small: "card (jobs_in P js goal) < 2 ^ 64" for P using assms(2) le_less_trans by blast
  then have flight: "unat (tk_started tk) = card (jobs_in {Flying, Counted} js goal)"
    and made: "unat (tk_reqs tk) = card (jobs_in {Counted, Over} js goal)"
    using inv by (simp_all add: bench_inv_def unsigned_of_nat take_bit_nat_eq_self_iff)
  have "jobs_in {Flying, Counted} js goal = {j. j < goal \<and> js j \<noteq> Over}"
    using born by (auto simp: jobs_in_def) (metis job.exhaust)
  with flight have busy: "0 < tk_started tk \<longleftrightarrow> (\<exists>j < goal. js j \<noteq> Over)"
    by (auto simp: word_less_nat_alt card_gt_0_iff)
  moreover have "unat (tk_reqs tk) = goal" if "\<not> (\<exists>j < goal. js j \<noteq> Over)"
  proof -
    have "jobs_in {Counted, Over} js goal = {..<goal}" using that by (auto simp: jobs_in_def)
    then show ?thesis using made by simp
  qed
  ultimately show ?thesis by (auto simp: ticker_wait_def split: if_splits)
qed

theorem ticker_waits_for_all_witness:
  "\<exists>tk js. reach bench_start (bench_step 1) (tk, 1, js) \<and> ticker_wait tk = None"
proof -
  have "reach bench_start (bench_step 1) (ticker_new, 0, \<lambda>_. Unborn)"
    by (rule reach_start) (simp add: bench_start_def)
  moreover have "bench_step 1 (ticker_new, 0, \<lambda>_. Unborn) (ticker_start ticker_new, 1, (\<lambda>_. Unborn)(0 := Flying))"
    using bench_launch [of 0 1 ticker_new "\<lambda>_. Unborn"] by simp
  ultimately have run: "reach bench_start (bench_step 1) (ticker_start ticker_new, 1, (\<lambda>_. Unborn)(0 := Flying))"
    by (rule reach_step)
  from ticker_waits_for_all [OF this] have "ticker_wait (ticker_start ticker_new) = None" by simp
  with run show ?thesis by blast
qed

end
