(* ===== verification/Spec2Isabelle.thy ===== *)
theory Spec2Isabelle
  imports Program_Runs Block_Progress Socket_Thread Promise_Spec Rpc_Signatures Ops_Copies
    Lock_Order Send_Race Example_Programs
begin

text \<open>
  A verification development for ethereyum, an asynchronous JSON-RPC client for Ethereum nodes
  written in Rust (paths below are relative to the crate, \<open>src/\<close> is its source directory).

  \<^bold>\<open>The program.\<close> A \<open>Client\<close> owns a queue of socket workers, a table of pending requests, a table of
  subscriptions and a map from seconds to the ids of the requests made then. A request gets an
  id and a oneshot channel, is entered in the table, and its text is handed to the worker at
  the front of the queue, or posted over HTTP when that worker's channel is closed. A thread
  per worker writes the texts to a websocket and hands every message it reads to the table or
  to a subscriber. A timeout thread answers requests that are too old; a sentinel thread pings
  the workers and reconnects them. The caller gets a \<open>YumFuture\<close> or \<open>YumBatchFuture\<close>, and on top
  of these the streams of blocks, of transactions and of notifications. The operation traits
  (\<open>BlockOps\<close>, \<open>TransactionOps\<close>, \<open>TokenOps\<close>, \<open>MarketOps\<close>, \<open>PubsubOps\<close>) and \<open>YumClient\<close> turn method
  calls into requests and choose the decoders of the answers.

  \<^bold>\<open>The theories and the code they model.\<close>
  \<^item> \<open>Yum_Prelude\<close>: machine integers with Rust's overflow checks on or off, \<open>Result\<close> combinators,
    panics (\<open>outcome\<close>), polls, JSON, reachability and the locale \<open>inductive_invariant\<close>.
  \<^item> \<open>Yum_Error\<close>: \<open>src/error.rs\<close> and \<open>SocketRequest\<close>.
  \<^item> \<open>Yum_Future\<close>: \<open>src/client/result.rs\<close>, the three futures; locale \<open>fused_future\<close>.
  \<^item> \<open>Hex_Codec\<close>: the decoders of \<open>src/yum.rs\<close>, \<open>src/client/mod.rs\<close> and \<open>src/ops/mod.rs\<close>, over Rust's
    number parser, \<open>chunks\<close> and UTF-8 check, which are written out.
  \<^item> \<open>Rpc_Message\<close>: the message types and the \<open>handle_\<close> functions of \<open>src/client/mod.rs\<close>.
  \<^item> \<open>Client_State\<close>: the fields of \<open>Client\<close> and \<open>SocketWorker\<close> as records, the operations done under
    one lock, the transition relation \<open>client_step\<close> they generate and its invariant.
  \<^item> \<open>Yum_Client\<close>: \<open>request\<close>, \<open>batch_request\<close>, \<open>send\<close>, \<open>send_http\<close>, the read half of a socket thread
    and one pass of the timeout thread.
  \<^item> \<open>Socket_Worker\<close>: the write half of a socket thread, \<open>connect\<close>, \<open>reconnect\<close>, \<open>stop\<close>, status checks,
    the construction of a client and one pass of the sentinel.
  \<^item> \<open>Tcp_Stream\<close>: \<open>src/client/tcp.rs\<close> (websocket stream and sink, handshake futures) and the
    unused \<open>src/client/response.rs\<close>.
  \<^item> \<open>Socket_Thread\<close>: the thread that \<open>SocketWorker::connect\<close> spawns, as polls of its future: the
    connection of \<open>src/client/tcp.rs\<close>, the message to the waiting caller, and both halves under
    \<open>select\<close>; and the thread among the steps of all others (\<open>sock_step\<close>).
  \<^item> \<open>Promise_Spec\<close>: the abstract specification of the client, promises that are settled once, and
    the refinement between the two.
  \<^item> \<open>Rpc_Ops\<close>: \<open>src/ops/mod.rs\<close>, \<open>block.rs\<close> and \<open>transaction.rs\<close>. Its locale \<open>batch_source\<close> says what
    an operation that sends a batch promises (one future per key, in order, as a run of the
    client); every batch operation of the program is an interpretation of it.
  \<^item> \<open>Token_Ops\<close>: \<open>src/ops/erc20.rs\<close> with its table of tokens, and \<open>src/ops/market.rs\<close>.
  \<^item> \<open>Block_Stream\<close>, \<open>Transaction_Stream\<close>, \<open>Pubsub_Stream\<close>: \<open>src/client/stream.rs\<close>,
    \<open>src/client/streaming/transaction.rs\<close>, \<open>src/client/streaming/pubsub.rs\<close> and \<open>src/ops/pubsub.rs\<close>.
  \<^item> \<open>Yum_Api\<close>: \<open>src/yum.rs\<close>, every method of \<open>YumClient\<close>, shown to agree with the traits where both
    define it.
  \<^item> \<open>Ops_Copies\<close>: the second \<open>BlockOps\<close> trait, \<open>src/client/ops.rs\<close> (a private module whose trait is
    exported as \<open>client::BlockOps\<close>, and which nothing implements), and the forwarders of the streams,
    shown to agree with the trait that \<open>BlockStream\<close> implements and the methods of \<open>YumClient\<close>.
  \<^item> \<open>Rpc_Signatures\<close>: signatures for the methods of the node, and every operation well typed in them.
  \<^item> \<open>Task_Wakeups\<close>: the task that reads a stream, when it sleeps and what wakes it; locale \<open>wakeful\<close>,
    which the streams of blocks and of transactions interpret.
  \<^item> \<open>Lock_Machine\<close>: a machine for threads with locks and signals; locale \<open>ranked_locks\<close>, under whose
    discipline it never gets stuck. \<open>Lock_Order\<close>: the locks and waits of every operation of
    \<open>src/client/mod.rs\<close>, shown to keep that discipline.
  \<^item> \<open>Send_Race\<close>: \<open>send\<close> cut between its two critical sections, with many threads in between.
  \<^item> \<open>Example_Programs\<close>: the programs of \<open>examples/\<close> that read a stream to its end and count, and the
    counter of the benchmark.
  \<^item> \<open>Node_Batch\<close>: a batch on its way to the node and back, for any list of requests.
  \<^item> \<open>Block_Progress\<close>: for which capacities a stream of blocks makes progress.
  \<^item> \<open>Program_Runs\<close>: the remaining operations as runs of the client, the locale \<open>client_stream\<close> that
    the three streams interpret, and programs that use them together over one client.

  \<^bold>\<open>State and effects.\<close> The state shared by the threads is the record \<open>sys\<close>; a map behind a mutex is
  one of its fields, and an operation returns the new state. Calls into other crates (a message
  queued on a channel, a oneshot answered or dropped, a notification, a POST) leave an event in
  \<open>trace\<close>, in program order. Threads interleave at the granularity of locks: \<open>client_step\<close> has one
  rule per critical section, and every operation is shown to be a sequence of these steps; that
  the locks themselves never block the program for good is the subject of \<open>Lock_Order\<close>. An
  \<open>Err\<close> is \<open>Inl\<close>, a panic (\<open>unwrap\<close>, \<open>expect\<close>, \<open>unreachable!\<close>, overflow with checks) is \<open>Panic\<close>.

  \<^bold>\<open>Parameters.\<close> Code of other crates is an argument: the JSON parsers and printers (\<open>rpc_lib\<close>), the
  models of Ethereum objects (\<open>models\<close>), the decoders of objects, \<open>JoinAll\<close> (\<open>join_lib\<close>), the answers
  of receivers (\<open>world\<close>, \<open>inbox\<close>), of the network (\<open>net\<close>), of opening a connection (\<open>links\<close>) and of the
  websocket under a socket thread (\<open>wire\<close>), the readings of clocks. What a theorem needs of them is a hypothesis named \<open>\<dots>_contract\<close> that states
  documented behaviour, with a reference instance that satisfies it.

  \<^bold>\<open>Loops.\<close> The loops over lists are structural. The loop of a poll runs at most twice and is a
  total function with a measure. The two wait loops on a clock are \<open>partial_function\<close>s whose value
  \<open>None\<close> means that they run for ever; that they return once the clock passes the timeout is
  proved. No definition uses fuel. An event loop is the sequence of polls it makes. The endless loops of the timeout thread and of the sentinel
  are modelled by one pass; runs repeat passes.

  \<^bold>\<open>What is proved.\<close>
  \<^item> Requests: a response resolves the future of its request; no channel is answered or dropped
    twice and no request is lost, under any interleaving; batches come back complete and in
    the order of the requests, whatever the order of the answers; timeouts hit exactly the
    requests of old buckets; the client refines promises that are settled once; and every call that an
    operation of the program names itself is well typed.
  \<^item> Streams: a stream of blocks, on a range that is not reversed and does not end with the largest
    \<open>u64\<close>, never ends before every block has been yielded, does not panic if it has room for a
    request, keeps its queue bounded, and ends when it is served, if it has room for three; the
    arguments on which it panics at once are characterised exactly;
    a stream of transactions asks for every hash exactly once and ends; notifications reach
    the stream of their subscription.
  \<^item> Threads: under every schedule some thread can go on until all are done (the queue of workers,
    the only lock held while waiting, comes first in an order of the locks that all operations
    keep); the threads that send share the workers without losing one.
  \<^item> Readers: a task that sleeps on a stream is registered with a request that is still pending,
    unless an answer was null or five seconds passed.
  \<^item> Workers: round robin, a socket thread comes up and hands what is queued to the sink in order,
    losing exactly the messages that \<open>start_send\<close> refuses, a request goes out and its response
    comes back through it, exactly when it panics; the wait loops end, a new client has workers
    whose connections have all come up, and the sentinel keeps the workers in order.
  \<^item> Decoding: exact acceptance of hexadecimal numbers, round trips of ABI words and short
    strings, call data as the ABI encoding.
  \<^item> Copies: the three copies of the block queries agree.
  \<^item> Whole programs: a program over one client with all three streams and both background threads
    keeps running, under the conditions that the source leaves to its callers.
  \<^item> Deviations: batches never time out, buckets are freed by request id, one bad id discards a
    batch response, long strings are cut to their last word, small capacities and reversed
    ranges make a stream of blocks hang or panic, a slow transaction is lost in silence, a
    failed subscription is never registered and its stream never ends, dead workers are
    forgotten, the table of tokens does not save the request; a null answer can put a reader
    to sleep for ever; a socket thread panics on a ping or pong and when its caller has given
    up, a message whose \<open>start_send\<close> fails is lost with a line in the log, and a status check panics when the thread ends before it has answered; two threads that
    send at once over one worker make one of them use HTTP; the examples count past their total.

  \<^bold>\<open>Not modelled.\<close> The event loop of tokio and the websocket protocol of tungstenite, the HTTP client,
  serde, \<open>bigdecimal\<close>, \<open>chrono\<close> and the models of Ethereum objects are other crates. Logging has
  no effect but one: the argument of a log line can be a call, and where it is (the status check in
  \<open>start_connection\<close>) the model has it. \<open>src/lib.rs\<close> only declares modules. Of the examples the
  floating-point rates and the printing are left out, and so are the tests and the examples
  that print one answer of a live node each.
\<close>

section \<open>Properties\<close>

text \<open>
  C6: Blocks come back in the order they were asked for. Ask for any list of blocks while the
  worker at the front accepts messages. The calls are put on its socket as one message. Let the
  node answer every call of that message, in any order, with the block of the number in the
  call. Then handling the answer does not panic, and the batch future, polled once, yields the
  blocks in the order of the numbers they were asked for (\<open>JoinAll\<close> and the oneshot channels
  keeping their contracts).
\<close>

theorem blocks_fetched_in_order:
  assumes "sockets s = wk # rest" and "ws_open (netw E) (wk_tx wk)" and "length ns \<le> 2 ^ 64"
    and "get_blocks E bd tx ns s = (b, t)" and "join_contract J view"
    and "calls = map (\<lambda>k. build_request (ids s + word_of_nat k) ''eth_getBlockByNumber''
           [ser_u256 (mdl E) (u256_from (ns ! k)), JBool tx]) [0..<length ns]"
    and "\<forall>i. \<forall>n \<in> set ns. bd (node (build_request i ''eth_getBlockByNumber''
           [ser_u256 (mdl E) (u256_from n), JBool tx])) = Inr (Some (blk n))"
    and "mset order = mset calls"
    and "response_from_str (lib E) txt = Inr (RespBatch (map (node_output node) order))"
  shows "last (trace t) = Queue (wk_tx wk) (Text (batch_to_string (lib E) calls)) \<and>
    (\<exists>v. read_message (lib E) (MsgText txt) t = Ret v \<and>
       (oneshot_contract (trace v) w \<longrightarrow>
          batch_run J [w] b = Ret (Some (Inr (map (\<lambda>n. Some (blk n)) ns)))))"
proof -
  let ?reqs = "map (\<lambda>n. block_req E bd tx (Number n)) ns"
  have bt: "batch_request (lib E) (netw E) ?reqs s = (b, t)"
    using assms(4) by (simp add: get_blocks_def get_blocks_named_def op_batch_request_def comp_def)
  have n: "length ?reqs \<le> 2 ^ 64" using assms(3) by simp
  have calls: "calls = batch_calls (ids s) ?reqs"
    by (simp add: assms(6) batch_calls_def batch_call_def block_req_def block_arg_def)
  have dec: "snd (snd (?reqs ! k)) (node (batch_call (ids s + word_of_nat k) (?reqs ! k))) = Inr (Some (blk (ns ! k)))"
    if "k < length ?reqs" for k
    using assms(7) that by (simp add: block_req_def block_arg_def batch_call_def de_def)
  have "map (\<lambda>k. Some (blk (ns ! k))) [0..<length ?reqs] = map (\<lambda>n. Some (blk n)) ns"
    by (rule nth_equalityI) simp_all
  with batch_open(2) [OF assms(1,2) n bt]
    batch_round_trip [OF assms(1,2) n bt assms(5) dec assms(8) [unfolded calls] assms(9), of w]
  show ?thesis by (simp add: calls)
qed

theorem blocks_fetched_in_order_witness:
  "\<exists>v. let node = (\<lambda>c. case c of MethodCall mc \<Rightarrow>
         (case call_params mc of Some (ParamsArray ps) \<Rightarrow> JBool (hd ps = ser_u256 ref_models 7) | _ \<Rightarrow> JNull));
       call = (\<lambda>i n. build_request i ''eth_getBlockByNumber'' [ser_u256 ref_models n, JBool True]);
       E = demo_env\<lparr>lib := demo_lib (RespBatch (map (node_output node) [call 2 8, call 1 7]))\<rparr>;
       w = (\<lambda>c. RxReady (Inr (JBool (c = 1))));
       r = get_blocks E (\<lambda>v. Inr (Some v)) True [7, 8] demo_sys in
   read_message (lib E) (MsgText ''reply'') (snd r) = Ret v \<and> oneshot_contract (trace v) w \<and>
   batch_run ref_join [w] (fst r) = Ret (Some (Inr [Some (JBool True), Some (JBool False)]))"
proof -
  define node where "node = (\<lambda>c. case c of MethodCall mc \<Rightarrow>
    (case call_params mc of Some (ParamsArray ps) \<Rightarrow> JBool (hd ps = ser_u256 ref_models 7) | _ \<Rightarrow> JNull))"
  define call where "call = (\<lambda>i n. build_request i ''eth_getBlockByNumber'' [ser_u256 ref_models n, JBool True])"
  define E where "E = demo_env\<lparr>lib := demo_lib (RespBatch (map (node_output node) [call 2 8, call 1 7]))\<rparr>"
  define w :: world where "w = (\<lambda>c. RxReady (Inr (JBool (c = 1))))"
  define r :: "(json option, (json option + json option yum_future) list) yum_batch_future \<times> sys"
    where "r = get_blocks E (\<lambda>v. Inr (Some v)) True [7, 8] demo_sys"
  have ne: "ser_u256 ref_models 8 \<noteq> ser_u256 ref_models 7" by code_simp
  have u: "u256_from 7 = 7" "u256_from 8 = 8" by (simp_all add: u256_from_def)
  have "last (trace (snd r)) = Queue (wk_tx demo_worker) (Text (batch_to_string (lib E) [call 1 7, call 2 8])) \<and>
    (\<exists>v. read_message (lib E) (MsgText ''reply'') (snd r) = Ret v \<and>
      (oneshot_contract (trace v) w \<longrightarrow>
        batch_run ref_join [w] (fst r) = Ret (Some (Inr (map (\<lambda>n. Some (JBool (n = 7))) [7 :: u64, 8])))))"
  proof (rule blocks_fetched_in_order [where s = demo_sys and tx = True and rest = "[]" and E = E
        and order = "[call 2 8, call 1 7]" and node = node and bd = "\<lambda>v. Inr (Some v)"
        and blk = "\<lambda>n. JBool (n = 7)"])
    show "get_blocks E (\<lambda>v. Inr (Some v)) True [7, 8] demo_sys = (fst r, snd r)" by (simp add: r_def)
    show "join_contract ref_join id" by (rule ref_join_contract)
  qed (use ne in \<open>auto simp: E_def call_def node_def demo_env_def demo_net_def demo_sys_def build_request_def u\<close>)
  then obtain v where v: "read_message (lib E) (MsgText ''reply'') (snd r) = Ret v"
    and run: "oneshot_contract (trace v) w \<longrightarrow> batch_run ref_join [w] (fst r) =
      Ret (Some (Inr [Some (JBool True), Some (JBool False)]))"
    by auto
  have tr: "trace (snd r) = [Queue 0 (Text ''batch'')]"
    and pend: "pending (snd r) 1 = Some 1" "pending (snd r) 2 = Some 2"
    by (simp_all add: r_def E_def get_blocks_def get_blocks_named_def op_batch_request_def block_req_def
        demo_env_def demo_net_def demo_sys_def demo_worker_def batch_request_def register_all_Cons
        send_def send_request_def client_defs)
  have "trace v = [Queue 0 (Text ''batch''), Answer 2 (Inr (JBool False)), Answer 1 (Inr (JBool True))]"
    using v tr pend ne
    by (auto simp: read_message_def E_def handle_text_message_def handle_batch_output_def node_output_def
        call_def node_def build_request_def handle_success_def answer_def log_def)
  then have "oneshot_contract (trace v) w" by (auto simp: oneshot_contract_def w_def)
  with v run show ?thesis
    unfolding E_def w_def r_def node_def call_def Let_def by auto
qed

text \<open>
  C13: A whole program. Build a client, start a subscription, and keep a stream of blocks, a
  stream of transactions and the stream of the subscription over that client. Let the polls of
  the streams, incoming messages, further requests and batches, status checks and passes of
  the timeout thread and of the sentinel follow in any order, as often as you like, whatever
  the node, the network and the clocks do within these conditions: the range of the blocks is not
  reversed and does not end with the largest \<open>u64\<close>; the capacity of its stream (buffer times batch)
  is at least one and fits in 64 bits; every block the node sends has a number; there are fewer
  than \<open>2 ^ 64\<close> transactions to ask for; no ping or pong frame arrives; every status check is
  answered; and the clock that the sentinel reads passes every timeout. Then everything returns,
  nothing panics, and at the end no request has been answered or dropped twice and none that
  still waits has been answered or dropped. The program checks none of the conditions: a range
  or a capacity outside them makes a poll panic (\<open>Block_Stream.first_poll_panics\<close>), and so do a block
  without a number, a control frame and a status check without an answer.
\<close>

theorem program_keeps_running:
  assumes "client_new info N C hs n timeout = Some (Ret (Inr s0))"
    and "subscribe E ps op s0 = (p, s)"
    and "lo \<le> hi" and "hi \<noteq> - 1" and "1 \<le> unat buffer * unat batch" and "unat buffer * unat batch < 2 ^ 64"
    and "\<forall>b. num b \<noteq> None" and "length txns < 2 ^ 64" and "list_all undisturbed us"
    and "a = \<lparr>app_blocks = block_stream_with_options lo hi tx batch buffer,
               app_txs = transaction_stream_new txns, app_notes = p\<rparr>"
  shows "\<exists>a' t. play bd num xd us (a, s) = Some (Ret (a', t)) \<and>
    distinct (answered (trace t) @ cancelled (trace t)) \<and>
    set (answered (trace t) @ cancelled (trace t)) \<inter> ran (pending t) = {}"
proof -
  have "block_start lo hi (unat buffer * unat batch) ([], app_blocks a)"
    using assms(3,4) unfolding block_start_def assms(10) by auto
  then have "good_blocks num lo hi (unat buffer * unat batch) (app_blocks a)"
    using bstream.inv_start assms(5-7) by (fastforce simp: good_blocks_def)
  moreover have "tx_inv (app_txs a)"
    using assms(8) by (simp add: assms(10) tx_inv_def transaction_stream_new_def)
  moreover have "pb_inv (app_notes a)" using subscribe_inv [OF assms(2)] by (simp add: assms(10))
  ultimately have "good_app num lo hi (unat buffer * unat batch) a" by (simp add: good_app_def)
  from play_total [OF assms(9) this] obtain a' t where t: "play bd num xd us (a, s) = Some (Ret (a', t))" "client_steps s t"
    by blast
  have "reach client_start client_step t"
    using client_new_reach [OF assms(1)] run_of_subscribe [OF assms(2)] t(2)
    by (blast intro: reach_steps)
  from table.inv_reach [OF this] t(1) show ?thesis by (auto simp: table_inv_def used_def)
qed

theorem program_keeps_running_witness:
  "\<exists>s0 p s a' t.
     client_new True demo_net demo_links [''ws://a'', ''ws://b''] 2 5 = Some (Ret (Inr s0)) \<and>
     subscribe demo_env [] (Inr :: json decoder) s0 = (p, s) \<and>
     play demo_block Some (\<lambda>v. Inr (Some v))
       [PollBlocks demo_env (\<lambda>_. 0) 0 demo_answer, TimeoutPass 120,
        PollTransactions demo_env (\<lambda>_. 0) 0 demo_answer, StatusCheck demo_net, SentinelPass demo_net demo_links,
        AskBatch demo_env [(''eth_gasPrice'', [])], Receive (lib demo_env) (MsgText ''reply'')]
       (\<lparr>app_blocks = block_stream_with_options 5 9 True 10 5,
         app_txs = transaction_stream_new [7], app_notes = p\<rparr>, s) = Some (Ret (a', t)) \<and>
     distinct (answered (trace t) @ cancelled (trace t))"
proof -
  obtain s0 where s0: "client_new True demo_net demo_links [''ws://a'', ''ws://b''] 2 5 = Some (Ret (Inr s0))"
    using demo_client by blast
  obtain p s where s: "subscribe demo_env [] (Inr :: json decoder) s0 = (p, s)" by (metis surj_pair)
  have cap: "unat (5 :: u64) * unat (10 :: u64) = 50" by simp
  from program_keeps_running [OF s0 s, of 5 9 5 10 Some "[7]"
      "[PollBlocks demo_env (\<lambda>_. 0) 0 demo_answer, TimeoutPass 120,
        PollTransactions demo_env (\<lambda>_. 0) 0 demo_answer, StatusCheck demo_net, SentinelPass demo_net demo_links,
        AskBatch demo_env [(''eth_gasPrice'', [])], Receive (lib demo_env) (MsgText ''reply'')]"
      "\<lparr>app_blocks = block_stream_with_options 5 9 True 10 5, app_txs = transaction_stream_new [7], app_notes = p\<rparr>"
      True demo_block "\<lambda>v. Inr (Some v)"]
  have "\<exists>a' t. play demo_block Some (\<lambda>v. Inr (Some v))
       [PollBlocks demo_env (\<lambda>_. 0) 0 demo_answer, TimeoutPass 120,
        PollTransactions demo_env (\<lambda>_. 0) 0 demo_answer, StatusCheck demo_net, SentinelPass demo_net demo_links,
        AskBatch demo_env [(''eth_gasPrice'', [])], Receive (lib demo_env) (MsgText ''reply'')]
       (\<lparr>app_blocks = block_stream_with_options 5 9 True 10 5,
         app_txs = transaction_stream_new [7], app_notes = p\<rparr>, s) = Some (Ret (a', t)) \<and>
     distinct (answered (trace t) @ cancelled (trace t))"
    by (fastforce simp: cap status_answered_def demo_net_def demo_links_advance)
  with s0 s show ?thesis by blast
qed

end
